(* ===== verification/Gzvm_Prelude.thy ===== *)
theory Gzvm_Prelude
  imports "HOL-Library.Word" "HOL-Library.Monad_Syntax"
begin

text \<open>
  The shared prelude of the development: the machine integer types, C arrays with checked
  access, runs of operations with their invariants, and the generic lemmas on lists and words
  that the component theories use.

  Conventions of every theory.  A C function that can abort (a failed \<open>assert\<close>, an access
  outside an array, a deadlock on a non-recursive mutex) returns an \<open>option\<close>; \<open>None\<close> is the
  abort and never an ordinary error return, which is a value as in the source.  A host pointer
  is the \<open>u64\<close> address, with \<open>NULL\<close> as \<open>0\<close>.
\<close>

unbundle bit_operations_syntax

section \<open>Machine integers\<close>

type_synonym u8 = "8 word"
type_synonym u16 = "16 word"
type_synonym u32 = "32 word"
type_synonym u64 = "64 word"

named_theorems array_simps \<open>evaluation of checked array accesses that are in range\<close>
named_theorems wf_intros \<open>preservation of the components' well-formedness invariants\<close>
named_theorems frame_simps \<open>what an operation leaves unchanged\<close>

text \<open>A single bit of a word, and the C idiom \<open>x & bit\<close> used as a condition.\<close>

definition flag_set :: "'a::len word \<Rightarrow> 'a word \<Rightarrow> bool" where
  "flag_set x m \<longleftrightarrow> x AND m \<noteq> 0"

section \<open>C arrays\<close>

text \<open>\<open>xs[i]\<close>, \<open>xs[i] = v\<close> and \<open>memmove(&xs[d], &xs[s], n * sizeof(*xs))\<close>.\<close>

definition aget :: "'a list \<Rightarrow> int \<Rightarrow> 'a option" where
  "aget xs i = (if 0 \<le> i \<and> i < int (length xs) then Some (xs ! nat i) else None)"

definition aset :: "'a list \<Rightarrow> int \<Rightarrow> 'a \<Rightarrow> 'a list option" where
  "aset xs i v = (if 0 \<le> i \<and> i < int (length xs) then Some (xs[nat i := v]) else None)"

definition amove :: "'a list \<Rightarrow> int \<Rightarrow> int \<Rightarrow> int \<Rightarrow> 'a list option" where
  "amove xs d s n =
     (if 0 \<le> d \<and> 0 \<le> s \<and> 0 \<le> n \<and> d + n \<le> int (length xs) \<and> s + n \<le> int (length xs)
      then Some (take (nat d) xs @ take (nat n) (drop (nat s) xs) @ drop (nat (d + n)) xs)
      else None)"

lemma aget_nat [array_simps]: "i < length xs \<Longrightarrow> aget xs (int i) = Some (xs ! i)"
  by (simp add: aget_def)

lemma aget_SomeD: "aget xs i = Some v \<Longrightarrow> 0 \<le> i \<and> nat i < length xs \<and> v = xs ! nat i"
  by (auto simp: aget_def split: if_splits)

lemma aset_nat [array_simps]: "i < length xs \<Longrightarrow> aset xs (int i) v = Some (xs[i := v])"
  by (simp add: aset_def)

lemma amove_nat [array_simps]:
  "d + n \<le> length xs \<Longrightarrow> s + n \<le> length xs \<Longrightarrow>
   amove xs (int d) (int s) (int n) = Some (take d xs @ take n (drop s xs) @ drop (d + n) xs)"
  by (simp add: amove_def nat_int_add)

lemma aget_None_iff: "aget xs i = None \<longleftrightarrow> i < 0 \<or> int (length xs) \<le> i"
  by (auto simp: aget_def)

section \<open>Sequences of operations\<close>

text \<open>
  The operations of a component, run one after the other; the run aborts where an operation
  does.
\<close>

fun run_ops :: "('e \<Rightarrow> 's \<Rightarrow> 's option) \<Rightarrow> 'e list \<Rightarrow> 's \<Rightarrow> 's option" where
  "run_ops step [] s = Some s"
| "run_ops step (e # es) s = (case step e s of None \<Rightarrow> None | Some t \<Rightarrow> run_ops step es t)"

lemma run_ops_append:
  "run_ops step (xs @ ys) s = (case run_ops step xs s of None \<Rightarrow> None | Some t \<Rightarrow> run_ops step ys t)"
  by (induction xs arbitrary: s) (auto split: option.splits)

text \<open>
  The contract of a component with an invariant: from a state in which the invariant holds, every
  operation the environment may invoke returns and keeps the invariant.
\<close>

locale invariant_system =
  fixes step :: "'e \<Rightarrow> 's \<Rightarrow> 's option"
    and ok :: "'e \<Rightarrow> bool"
    and inv :: "'s \<Rightarrow> bool"
  assumes step_inv: "inv s \<Longrightarrow> ok e \<Longrightarrow> \<exists>t. step e s = Some t \<and> inv t"
begin

lemma run_inv: "inv s \<Longrightarrow> list_all ok es \<Longrightarrow> \<exists>t. run_ops step es s = Some t \<and> inv t"
proof (induction es arbitrary: s)
  case Nil
  then show ?case by simp
next
  case (Cons e es)
  from Cons.prems step_inv [of s e] obtain t where "step e s = Some t" "inv t" by auto
  with Cons.IH [of t] Cons.prems show ?case by simp
qed

lemma run_inv_unique: "inv s \<Longrightarrow> list_all ok es \<Longrightarrow> run_ops step es s = Some t \<Longrightarrow> inv t"
  using run_inv [of s es] by auto

end

text \<open>
  Data refinement between a component and its specification: each operation, where the
  environment may invoke it, does on the abstract state what the specification says.
\<close>

locale refinement_system = invariant_system +
  fixes abs :: "'s \<Rightarrow> 'a"
    and astep :: "'e \<Rightarrow> 'a \<Rightarrow> 'a"
  assumes step_abs: "inv s \<Longrightarrow> ok e \<Longrightarrow> step e s = Some t \<Longrightarrow> abs t = astep e (abs s)"
begin

lemma run_abs: "inv s \<Longrightarrow> list_all ok es \<Longrightarrow> run_ops step es s = Some t \<Longrightarrow> abs t = fold astep es (abs s)"
proof (induction es arbitrary: s)
  case Nil
  then show ?case by simp
next
  case (Cons e es)
  from Cons.prems step_inv [of s e] obtain u where u: "step e s = Some u" "inv u" by auto
  with Cons.prems have "run_ops step es u = Some t" by simp
  with Cons.IH [of u] u Cons.prems step_abs [of s e u] show ?case by simp
qed

end

section \<open>Lists\<close>

lemma takeWhile_first:
  assumes "k \<le> length xs" "\<And>j. j < k \<Longrightarrow> P (xs ! j)" "k < length xs \<Longrightarrow> \<not> P (xs ! k)"
  shows "takeWhile P xs = take k xs"
proof (cases "k < length xs")
  case True
  then show ?thesis using assms by (intro takeWhile_eq_take_P_nth) auto
next
  case False
  with assms(1) have "k = length xs" by simp
  with assms(2) show ?thesis by (auto simp: takeWhile_eq_all_conv in_set_conv_nth)
qed

lemma sorted_insert_at:
  assumes "sorted xs" "k \<le> length xs"
    and "\<And>j. j < k \<Longrightarrow> xs ! j \<le> v" "\<And>j. k \<le> j \<Longrightarrow> j < length xs \<Longrightarrow> v \<le> xs ! j"
  shows "sorted (take k xs @ v # drop k xs)"
proof -
  have "\<forall>x \<in> set (take k xs). x \<le> v"
    using assms(2,3) by (auto simp: in_set_conv_nth)
  moreover have "\<forall>x \<in> set (drop k xs). v \<le> x"
    using assms(4) by (auto simp: in_set_conv_nth)
  moreover have "sorted (take k xs)" "sorted (drop k xs)"
    using assms(1) by (simp_all add: sorted_wrt_take sorted_wrt_drop)
  ultimately show ?thesis by (fastforce simp: sorted_append)
qed

lemma sorted_delete_at: "sorted xs \<Longrightarrow> sorted (take k xs @ drop (Suc k) xs)"
proof -
  assume s: "sorted xs"
  have "\<forall>x \<in> set (take k xs). \<forall>y \<in> set (drop (Suc k) xs). x \<le> y"
  proof (intro ballI)
    fix x y assume x: "x \<in> set (take k xs)" and y: "y \<in> set (drop (Suc k) xs)"
    have "y \<in> set (drop k xs)"
      using y set_drop_subset_set_drop [of k "Suc k" xs] by auto
    moreover have "sorted (take k xs @ drop k xs)" using s by simp
    ultimately show "x \<le> y" using x by (simp only: sorted_append)
  qed
  with s show ?thesis by (simp add: sorted_append sorted_wrt_take sorted_wrt_drop)
qed

lemma distinct_delete_at:
  "distinct xs \<Longrightarrow> k < length xs \<Longrightarrow> set (take k xs @ drop (Suc k) xs) = set xs - {xs ! k}"
proof -
  assume d: "distinct xs" and k: "k < length xs"
  have *: "distinct (take k xs @ xs ! k # drop (Suc k) xs)"
    using d k by (simp add: id_take_nth_drop [symmetric])
  have "set xs = set (take k xs @ xs ! k # drop (Suc k) xs)"
    using k by (simp add: id_take_nth_drop [symmetric])
  with * show ?thesis by auto
qed

lemma option_eqI: "(\<And>x. a = Some x \<longleftrightarrow> b = Some x) \<Longrightarrow> a = b"
  by (cases a; cases b) auto

section \<open>Words\<close>

lemma unat_add_no_wrap:
  "unat a + unat b < 2 ^ LENGTH('a) \<Longrightarrow> unat (a + b :: 'a::len word) = unat a + unat b"
  by (simp add: unat_word_ariths)

lemma word_sub_less_iff:
  fixes a s n :: "'a::len word"
  assumes "s \<le> a"
  shows "a - s < n \<longleftrightarrow> unat a < unat s + unat n"
proof -
  have "unat (a - s) = unat a - unat s" using assms by (rule unat_sub)
  moreover have "unat s \<le> unat a" using assms by (simp add: word_le_nat_alt)
  ultimately show ?thesis by (auto simp: word_less_nat_alt)
qed

lemma word_less_plus_one_le: "x < a + 1 \<Longrightarrow> x \<le> (a :: 'a::len word)"
  by unat_arith

lemma word_le_less_plus_one: "x \<le> a \<Longrightarrow> a + 1 \<noteq> 0 \<Longrightarrow> x < (a :: 'a::len word) + 1"
  by (simp add: word_le_nat_alt word_less_nat_alt unatSuc add.commute [of a 1])

end
