(* ===== verification/Qemu_Bitops.thy ===== *)
theory Qemu_Bitops
  imports Gzvm_Prelude
begin

unbundle bit_operations_syntax

text \<open>
  The bit operations of \<open>include/qemu/bitops.h\<close> and \<open>util/bitops.c\<close> on a 64-bit host:
  single bits in arrays of 64-bit and 32-bit words, searches for the next bit, rotations and
  bit-field extraction and insertion.  An array is the list of its words, a read
  or a write outside it aborts.  \<open>bm_bit\<close> is the bit an index names; every operation is
  described by what it does to those bits.
\<close>

section \<open>Bits in arrays\<close>

definition BITS_PER_LONG :: nat where "BITS_PER_LONG = 64"

definition BIT_MASK :: "int \<Rightarrow> u64" where "BIT_MASK nr = push_bit (nat (nr mod 64)) 1"
definition BIT_WORD :: "int \<Rightarrow> int" where "BIT_WORD nr = nr div 64"
definition BIT32_MASK :: "int \<Rightarrow> u32" where "BIT32_MASK nr = push_bit (nat (nr mod 32)) 1"
definition BIT32_WORD :: "int \<Rightarrow> int" where "BIT32_WORD nr = nr div 32"

definition word_update :: "('a \<Rightarrow> 'a) \<Rightarrow> int \<Rightarrow> 'a list \<Rightarrow> 'a list option" where
  "word_update f p m = do { x \<leftarrow> aget m p; aset m p (f x) }"

definition set_bit :: "int \<Rightarrow> u64 list \<Rightarrow> u64 list option" where
  "set_bit nr m = word_update (\<lambda>x. x OR BIT_MASK nr) (BIT_WORD nr) m"

definition clear_bit :: "int \<Rightarrow> u64 list \<Rightarrow> u64 list option" where
  "clear_bit nr m = word_update (\<lambda>x. x AND NOT (BIT_MASK nr)) (BIT_WORD nr) m"

definition change_bit :: "int \<Rightarrow> u64 list \<Rightarrow> u64 list option" where
  "change_bit nr m = word_update (\<lambda>x. x XOR BIT_MASK nr) (BIT_WORD nr) m"

definition test_and_set_bit :: "int \<Rightarrow> u64 list \<Rightarrow> (bool \<times> u64 list) option" where
  "test_and_set_bit nr m =
     do {
       old \<leftarrow> aget m (BIT_WORD nr);
       m \<leftarrow> aset m (BIT_WORD nr) (old OR BIT_MASK nr);
       Some (old AND BIT_MASK nr \<noteq> 0, m)
     }"

definition test_and_clear_bit :: "int \<Rightarrow> u64 list \<Rightarrow> (bool \<times> u64 list) option" where
  "test_and_clear_bit nr m =
     do {
       old \<leftarrow> aget m (BIT_WORD nr);
       m \<leftarrow> aset m (BIT_WORD nr) (old AND NOT (BIT_MASK nr));
       Some (old AND BIT_MASK nr \<noteq> 0, m)
     }"

definition test_and_change_bit :: "int \<Rightarrow> u64 list \<Rightarrow> (bool \<times> u64 list) option" where
  "test_and_change_bit nr m =
     do {
       old \<leftarrow> aget m (BIT_WORD nr);
       m \<leftarrow> aset m (BIT_WORD nr) (old XOR BIT_MASK nr);
       Some (old AND BIT_MASK nr \<noteq> 0, m)
     }"

definition test_bit :: "int \<Rightarrow> u64 list \<Rightarrow> bool option" where
  "test_bit nr m =
     do {
       x \<leftarrow> aget m (BIT_WORD nr);
       Some (1 AND drop_bit (nat (nr mod 64)) x \<noteq> 0)
     }"

definition set_bit32 :: "int \<Rightarrow> u32 list \<Rightarrow> u32 list option" where
  "set_bit32 nr m = word_update (\<lambda>x. x OR BIT32_MASK nr) (BIT32_WORD nr) m"

definition clear_bit32 :: "int \<Rightarrow> u32 list \<Rightarrow> u32 list option" where
  "clear_bit32 nr m = word_update (\<lambda>x. x AND NOT (BIT32_MASK nr)) (BIT32_WORD nr) m"

definition change_bit32 :: "int \<Rightarrow> u32 list \<Rightarrow> u32 list option" where
  "change_bit32 nr m = word_update (\<lambda>x. x XOR BIT32_MASK nr) (BIT32_WORD nr) m"

definition test_and_set_bit32 :: "int \<Rightarrow> u32 list \<Rightarrow> (bool \<times> u32 list) option" where
  "test_and_set_bit32 nr m =
     do {
       old \<leftarrow> aget m (BIT32_WORD nr);
       m \<leftarrow> aset m (BIT32_WORD nr) (old OR BIT32_MASK nr);
       Some (old AND BIT32_MASK nr \<noteq> 0, m)
     }"

definition test_and_clear_bit32 :: "int \<Rightarrow> u32 list \<Rightarrow> (bool \<times> u32 list) option" where
  "test_and_clear_bit32 nr m =
     do {
       old \<leftarrow> aget m (BIT32_WORD nr);
       m \<leftarrow> aset m (BIT32_WORD nr) (old AND NOT (BIT32_MASK nr));
       Some (old AND BIT32_MASK nr \<noteq> 0, m)
     }"

definition test_and_change_bit32 :: "int \<Rightarrow> u32 list \<Rightarrow> (bool \<times> u32 list) option" where
  "test_and_change_bit32 nr m =
     do {
       old \<leftarrow> aget m (BIT32_WORD nr);
       m \<leftarrow> aset m (BIT32_WORD nr) (old XOR BIT32_MASK nr);
       Some (old AND BIT32_MASK nr \<noteq> 0, m)
     }"

definition test_bit32 :: "int \<Rightarrow> u32 list \<Rightarrow> bool option" where
  "test_bit32 nr m =
     do {
       x \<leftarrow> aget m (BIT32_WORD nr);
       Some (1 AND drop_bit (nat (nr mod 32)) x \<noteq> 0)
     }"

text \<open>\<open>gic_bmp_replace_bit()\<close> of \<open>include/hw/intc/arm_gicv3_common.h\<close>.\<close>

definition gic_bmp_replace_bit :: "int \<Rightarrow> u32 list \<Rightarrow> u32 \<Rightarrow> u32 list option" where
  "gic_bmp_replace_bit nr m v =
     word_update (\<lambda>x. (x AND NOT (BIT32_MASK nr)) OR push_bit (nat (nr mod 32)) (v AND 1)) (BIT32_WORD nr) m"

section \<open>Searches\<close>

text \<open>\<open>ctzl()\<close> and \<open>clzl()\<close>: compiler builtins, 64 for the word 0.\<close>

definition ctzl :: "u64 \<Rightarrow> nat" where
  "ctzl x = length (takeWhile (\<lambda>i. \<not> bit x i) [0..<64])"

definition clzl :: "u64 \<Rightarrow> nat" where
  "clzl x = length (takeWhile (\<lambda>i. \<not> bit x (63 - i)) [0..<64])"

function find_first_bit_from :: "u64 list \<Rightarrow> nat \<Rightarrow> nat \<Rightarrow> nat \<Rightarrow> nat option" where
  "find_first_bit_from m sz p r =
     (if r < sz then
        do {
          tmp \<leftarrow> aget m (int p);
          if tmp \<noteq> 0 then (let r = r + ctzl tmp in Some (if r < sz then r else sz))
          else find_first_bit_from m sz (Suc p) (r + 64)
        }
      else Some sz)"
  by pat_completeness auto
termination
  by (relation "measure (\<lambda>(m, sz, p, r). sz - r)") auto

declare find_first_bit_from.simps [simp del]

definition find_first_bit :: "u64 list \<Rightarrow> nat \<Rightarrow> nat option" where
  "find_first_bit m sz = find_first_bit_from m sz 0 0"

text \<open>
  \<open>find_next_bit()\<close>: the labels \<open>found_middle\<close> and \<open>found_first\<close>, the loop over single words
  with what follows it, and the loop over four words at a time.
\<close>

definition next_found_middle :: "nat \<Rightarrow> u64 \<Rightarrow> nat" where
  "next_found_middle r tmp = r + ctzl tmp"

definition next_found_first :: "nat \<Rightarrow> nat \<Rightarrow> u64 \<Rightarrow> nat" where
  "next_found_first r sz tmp =
     (let tmp = tmp AND drop_bit (64 - sz) (-1)
      in if tmp = 0 then r + sz else next_found_middle r tmp)"

function next_words :: "u64 list \<Rightarrow> nat \<Rightarrow> nat \<Rightarrow> nat \<Rightarrow> nat option" where
  "next_words m p r sz =
     (if 64 \<le> sz then
        do {
          tmp \<leftarrow> aget m (int p);
          if tmp \<noteq> 0 then Some (next_found_middle r tmp)
          else next_words m (p + 1) (r + 64) (sz - 64)
        }
      else if sz = 0 then Some r
      else do {
        tmp \<leftarrow> aget m (int p);
        Some (next_found_first r sz tmp)
      })"
  by pat_completeness auto
termination
  by (relation "measure (\<lambda>(m, p, r, sz). sz)") auto

declare next_words.simps [simp del]

function next_quads :: "u64 list \<Rightarrow> nat \<Rightarrow> nat \<Rightarrow> nat \<Rightarrow> nat option" where
  "next_quads m p r sz =
     (if 4 * 64 \<le> sz then
        do {
          tmp \<leftarrow> aget m (int p);
          d1 \<leftarrow> aget m (int (p + 1));
          d2 \<leftarrow> aget m (int (p + 2));
          d3 \<leftarrow> aget m (int (p + 3));
          if tmp \<noteq> 0 then Some (next_found_middle r tmp)
          else if d1 OR d2 OR d3 \<noteq> 0 then next_words m p r sz
          else next_quads m (p + 4) (r + 4 * 64) (sz - 4 * 64)
        }
      else next_words m p r sz)"
  by pat_completeness auto
termination
  by (relation "measure (\<lambda>(m, p, r, sz). sz)") auto

declare next_quads.simps [simp del]

definition find_next_bit :: "u64 list \<Rightarrow> nat \<Rightarrow> nat \<Rightarrow> nat option" where
  "find_next_bit m sz off =
     (let p = off div 64; r = off - off mod 64
      in if off \<ge> sz then Some sz
         else
           (let sz = sz - r; off = off mod 64
            in if off \<noteq> 0 then
                 do {
                   tmp \<leftarrow> aget m (int p);
                   let tmp = tmp AND push_bit off (-1);
                   if sz < 64 then Some (next_found_first r sz tmp)
                   else if tmp \<noteq> 0 then Some (next_found_middle r tmp)
                   else next_quads m (p + 1) (r + 64) (sz - 64)
                 }
               else next_quads m p r sz))"

text \<open>\<open>find_next_zero_bit()\<close>.\<close>

definition zero_found_middle :: "nat \<Rightarrow> u64 \<Rightarrow> nat" where
  "zero_found_middle r tmp = r + ctzl (NOT tmp)"

definition zero_found_first :: "nat \<Rightarrow> nat \<Rightarrow> u64 \<Rightarrow> nat" where
  "zero_found_first r sz tmp =
     (let tmp = tmp OR push_bit sz (-1)
      in if tmp = -1 then r + sz else zero_found_middle r tmp)"

function zero_words :: "u64 list \<Rightarrow> nat \<Rightarrow> nat \<Rightarrow> nat \<Rightarrow> nat option" where
  "zero_words m p r sz =
     (if sz div 64 \<noteq> 0 then
        do {
          tmp \<leftarrow> aget m (int p);
          if NOT tmp \<noteq> 0 then Some (zero_found_middle r tmp)
          else zero_words m (p + 1) (r + 64) (sz - 64)
        }
      else if sz = 0 then Some r
      else do {
        tmp \<leftarrow> aget m (int p);
        Some (zero_found_first r sz tmp)
      })"
  by pat_completeness auto
termination
  by (relation "measure (\<lambda>(m, p, r, sz). sz)") (auto simp: div_eq_0_iff)

declare zero_words.simps [simp del]

definition find_next_zero_bit :: "u64 list \<Rightarrow> nat \<Rightarrow> nat \<Rightarrow> nat option" where
  "find_next_zero_bit m sz off =
     (let p = off div 64; r = off - off mod 64
      in if off \<ge> sz then Some sz
         else
           (let sz = sz - r; off = off mod 64
            in if off \<noteq> 0 then
                 do {
                   tmp \<leftarrow> aget m (int p);
                   let tmp = tmp OR drop_bit (64 - off) (-1);
                   if sz < 64 then Some (zero_found_first r sz tmp)
                   else if NOT tmp \<noteq> 0 then Some (zero_found_middle r tmp)
                   else zero_words m (p + 1) (r + 64) (sz - 64)
                 }
               else zero_words m p r sz))"

definition find_first_zero_bit :: "u64 list \<Rightarrow> nat \<Rightarrow> nat option" where
  "find_first_zero_bit m sz = find_next_zero_bit m sz 0"

fun last_words :: "u64 list \<Rightarrow> nat \<Rightarrow> nat \<Rightarrow> nat option" where
  "last_words m sz 0 = Some sz"
| "last_words m sz (Suc w) =
     do {
       tmp \<leftarrow> aget m (int w);
       if tmp \<noteq> 0 then Some (w * 64 + 64 - 1 - clzl tmp) else last_words m sz w
     }"

definition find_last_bit :: "u64 list \<Rightarrow> nat \<Rightarrow> nat option" where
  "find_last_bit m sz =
     (let words = sz div 64
      in if sz mod 64 \<noteq> 0 then
           do {
             x \<leftarrow> aget m (int words);
             let tmp = x AND drop_bit (64 - sz mod 64) (-1);
             if tmp \<noteq> 0 then Some (words * 64 + 64 - 1 - clzl tmp) else last_words m sz words
           }
         else last_words m sz words)"

section \<open>Words\<close>

text \<open>A right shift by \<open>-shift & (w - 1)\<close> of an \<open>unsigned int\<close>.\<close>

definition rol_shift :: "nat \<Rightarrow> u32 \<Rightarrow> nat" where
  "rol_shift w sh = unat (sh AND of_nat (w - 1))"

definition rol8 :: "u8 \<Rightarrow> u32 \<Rightarrow> u8" where
  "rol8 x sh = push_bit (rol_shift 8 sh) x OR drop_bit (rol_shift 8 (- sh)) x"
definition ror8 :: "u8 \<Rightarrow> u32 \<Rightarrow> u8" where
  "ror8 x sh = drop_bit (rol_shift 8 sh) x OR push_bit (rol_shift 8 (- sh)) x"
definition rol16 :: "u16 \<Rightarrow> u32 \<Rightarrow> u16" where
  "rol16 x sh = push_bit (rol_shift 16 sh) x OR drop_bit (rol_shift 16 (- sh)) x"
definition ror16 :: "u16 \<Rightarrow> u32 \<Rightarrow> u16" where
  "ror16 x sh = drop_bit (rol_shift 16 sh) x OR push_bit (rol_shift 16 (- sh)) x"
definition rol32 :: "u32 \<Rightarrow> u32 \<Rightarrow> u32" where
  "rol32 x sh = push_bit (rol_shift 32 sh) x OR drop_bit (rol_shift 32 (- sh)) x"
definition ror32 :: "u32 \<Rightarrow> u32 \<Rightarrow> u32" where
  "ror32 x sh = drop_bit (rol_shift 32 sh) x OR push_bit (rol_shift 32 (- sh)) x"
definition rol64 :: "u64 \<Rightarrow> u32 \<Rightarrow> u64" where
  "rol64 x sh = push_bit (rol_shift 64 sh) x OR drop_bit (rol_shift 64 (- sh)) x"
definition ror64 :: "u64 \<Rightarrow> u32 \<Rightarrow> u64" where
  "ror64 x sh = drop_bit (rol_shift 64 sh) x OR push_bit (rol_shift 64 (- sh)) x"

definition hswap32 :: "u32 \<Rightarrow> u32" where "hswap32 h = rol32 h 16"

definition hswap64 :: "u64 \<Rightarrow> u64" where
  "hswap64 h =
     (let m = 0x0000ffff0000ffff; h = rol64 h 32
      in push_bit 16 (h AND m) OR (drop_bit 16 h AND m))"

definition wswap64 :: "u64 \<Rightarrow> u64" where "wswap64 h = rol64 h 32"

text \<open>The shifts of bit fields are in range where the assertion holds.\<close>

definition extract32 :: "u32 \<Rightarrow> int \<Rightarrow> int \<Rightarrow> u32 option" where
  "extract32 v st len =
     (if st \<ge> 0 \<and> len > 0 \<and> len \<le> 32 - st
      then Some (drop_bit (nat st) v AND drop_bit (nat (32 - len)) (-1)) else None)"

definition extract8 :: "u8 \<Rightarrow> int \<Rightarrow> int \<Rightarrow> u8 option" where
  "extract8 v st len =
     (if st \<ge> 0 \<and> len > 0 \<and> len \<le> 8 - st then map_option ucast (extract32 (ucast v) st len) else None)"

definition extract16 :: "u16 \<Rightarrow> int \<Rightarrow> int \<Rightarrow> u16 option" where
  "extract16 v st len =
     (if st \<ge> 0 \<and> len > 0 \<and> len \<le> 16 - st then map_option ucast (extract32 (ucast v) st len) else None)"

definition extract64 :: "u64 \<Rightarrow> int \<Rightarrow> int \<Rightarrow> u64 option" where
  "extract64 v st len =
     (if st \<ge> 0 \<and> len > 0 \<and> len \<le> 64 - st
      then Some (drop_bit (nat st) v AND drop_bit (nat (64 - len)) (-1)) else None)"

definition sextract32 :: "u32 \<Rightarrow> int \<Rightarrow> int \<Rightarrow> u32 option" where
  "sextract32 v st len =
     (if st \<ge> 0 \<and> len > 0 \<and> len \<le> 32 - st
      then Some (signed_drop_bit (nat (32 - len)) (push_bit (nat (32 - len - st)) v)) else None)"

definition sextract64 :: "u64 \<Rightarrow> int \<Rightarrow> int \<Rightarrow> u64 option" where
  "sextract64 v st len =
     (if st \<ge> 0 \<and> len > 0 \<and> len \<le> 64 - st
      then Some (signed_drop_bit (nat (64 - len)) (push_bit (nat (64 - len - st)) v)) else None)"

definition deposit32 :: "u32 \<Rightarrow> int \<Rightarrow> int \<Rightarrow> u32 \<Rightarrow> u32 option" where
  "deposit32 v st len f =
     (if st \<ge> 0 \<and> len > 0 \<and> len \<le> 32 - st
      then (let mask = push_bit (nat st) (drop_bit (nat (32 - len)) (-1))
            in Some ((v AND NOT mask) OR (push_bit (nat st) f AND mask)))
      else None)"

definition deposit64 :: "u64 \<Rightarrow> int \<Rightarrow> int \<Rightarrow> u64 \<Rightarrow> u64 option" where
  "deposit64 v st len f =
     (if st \<ge> 0 \<and> len > 0 \<and> len \<le> 64 - st
      then (let mask = push_bit (nat st) (drop_bit (nat (64 - len)) (-1))
            in Some ((v AND NOT mask) OR (push_bit (nat st) f AND mask)))
      else None)"

section \<open>What the operations do to the bits\<close>

definition bm_cap :: "'a :: len word list \<Rightarrow> nat" where
  "bm_cap m = length m * LENGTH('a)"

definition bm_bit :: "'a :: len word list \<Rightarrow> nat \<Rightarrow> bool" where
  "bm_bit m n = bit (m ! (n div LENGTH('a))) (n mod LENGTH('a))"

text \<open>The contract of the single-bit operations, at either word width.\<close>

locale bit_array =
  fixes cap :: "'m \<Rightarrow> nat"
    and bitv :: "'m \<Rightarrow> nat \<Rightarrow> bool"
    and tst :: "int \<Rightarrow> 'm \<Rightarrow> bool option"
    and set_op clear_op change_op :: "int \<Rightarrow> 'm \<Rightarrow> 'm option"
  assumes tst: "n < cap m \<Longrightarrow> tst (int n) m = Some (bitv m n)"
    and set_op: "n < cap m \<Longrightarrow> \<exists>t. set_op (int n) m = Some t \<and> cap t = cap m \<and>
        (\<forall>j < cap m. bitv t j = (j = n \<or> bitv m j))"
    and clear_op: "n < cap m \<Longrightarrow> \<exists>t. clear_op (int n) m = Some t \<and> cap t = cap m \<and>
        (\<forall>j < cap m. bitv t j = (j \<noteq> n \<and> bitv m j))"
    and change_op: "n < cap m \<Longrightarrow> \<exists>t. change_op (int n) m = Some t \<and> cap t = cap m \<and>
        (\<forall>j < cap m. bitv t j = (if j = n then \<not> bitv m j else bitv m j))"
begin

lemma test_after_set:
  assumes "n < cap m" "j < cap m"
  shows "\<exists>t. set_op (int n) m = Some t \<and> tst (int j) t = Some (j = n \<or> bitv m j)"
  using set_op [OF assms(1)] tst [of j] assms(2) by fastforce

lemma test_after_clear:
  assumes "n < cap m" "j < cap m"
  shows "\<exists>t. clear_op (int n) m = Some t \<and> tst (int j) t = Some (j \<noteq> n \<and> bitv m j)"
  using clear_op [OF assms(1)] tst [of j] assms(2) by fastforce

lemma change_twice:
  assumes "n < cap m"
  shows "\<exists>t u. change_op (int n) m = Some t \<and> change_op (int n) t = Some u \<and> cap u = cap m \<and>
    (\<forall>j < cap m. bitv u j = bitv m j)"
proof -
  from change_op [OF assms] obtain t where t: "change_op (int n) m = Some t" "cap t = cap m"
    "\<forall>j < cap m. bitv t j = (if j = n then \<not> bitv m j else bitv m j)" by blast
  from change_op [of n t] assms t(2) obtain u where "change_op (int n) t = Some u" "cap u = cap t"
    "\<forall>j < cap t. bitv u j = (if j = n then \<not> bitv t j else bitv t j)" by auto
  with t show ?thesis by auto
qed

end

lemma int_div_nat [simp]: "int n div 64 = int (n div 64)" "int n div 32 = int (n div 32)"
  "nat (int n mod 64) = n mod 64" "nat (int n mod 32) = n mod 32"
  by (simp_all add: zdiv_int nat_mod_distrib)

lemma word_update_nat: "p < length m \<Longrightarrow> word_update f (int p) m = Some (m[p := f (m ! p)])"
  by (simp add: word_update_def aget_nat aset_nat)

lemma bm_index:
  assumes "n < bm_cap (m :: 'a :: len word list)"
  shows "n div LENGTH('a) < length m" "n mod LENGTH('a) < LENGTH('a)"
  using assms by (simp_all add: bm_cap_def less_mult_imp_div_less)

text \<open>A word-wise update seen bit by bit.\<close>

lemma bm_bit_update:
  assumes "p < length (m :: 'a :: len word list)" "j < bm_cap m"
  shows "bm_bit (m[p := x]) j =
    (if j div LENGTH('a) = p then bit x (j mod LENGTH('a)) else bm_bit m j)"
  using assms bm_index [OF assms(2)] by (auto simp: bm_bit_def)

lemma same_bit: "j = n \<longleftrightarrow> j div w = n div w \<and> j mod w = n mod w" for j n w :: nat
  by (metis div_mult_mod_eq)

lemma bm_modify:
  fixes m :: "'a :: len word list"
  assumes n: "n < bm_cap m"
    and f: "\<And>x k. k < LENGTH('a) \<Longrightarrow> bit (f x) k = (if k = n mod LENGTH('a) then g (bit x k) else bit x k)"
  shows "\<exists>t. word_update f (int (n div LENGTH('a))) m = Some t \<and> bm_cap t = bm_cap m \<and>
    (\<forall>j < bm_cap m. bm_bit t j = (if j = n then g (bm_bit m j) else bm_bit m j))"
proof -
  let ?p = "n div LENGTH('a)"
  have p: "?p < length m" using bm_index [OF n] by simp
  have "bm_bit (m[?p := f (m ! ?p)]) j = (if j = n then g (bm_bit m j) else bm_bit m j)" if "j < bm_cap m" for j
    using bm_bit_update [OF p that, of "f (m ! ?p)"] f [of "j mod LENGTH('a)" "m ! ?p"] same_bit [of j n "LENGTH('a)"]
    by (auto simp: bm_bit_def)
  with p show ?thesis by (intro exI [of _ "m[?p := f (m ! ?p)]"]) (simp add: word_update_nat bm_cap_def)
qed

lemma test_word_bit: "1 AND drop_bit k x \<noteq> (0 :: 'a :: len word) \<longleftrightarrow> bit x k"
  by (auto simp: and.commute [of 1] and_one_eq bit_iff_odd_drop_bit odd_iff_mod_2_eq_one)

lemma masked_word: "x AND 2 ^ k \<noteq> (0 :: 'a :: len word) \<longleftrightarrow> bit x k"
  by (simp add: and_exp_eq_0_iff_not_bit)

lemma if_const: "(if P then True else Q) = (P \<or> Q)" "(if P then False else Q) = (\<not> P \<and> Q)"
  by simp_all

interpretation bits64: bit_array bm_cap bm_bit test_bit set_bit clear_bit change_bit
proof
  fix n and m :: "u64 list" assume n: "n < bm_cap m"
  then show "test_bit (int n) m = Some (bm_bit m n)"
    using bm_index [OF n] by (simp add: test_bit_def BIT_WORD_def aget_nat bm_bit_def test_word_bit)
  show "\<exists>t. set_bit (int n) m = Some t \<and> bm_cap t = bm_cap m \<and>
      (\<forall>j < bm_cap m. bm_bit t j = (j = n \<or> bm_bit m j))"
    using bm_modify [OF n, of "\<lambda>x. x OR BIT_MASK (int n)" "\<lambda>_. True"]
    by (simp add: set_bit_def BIT_WORD_def BIT_MASK_def bit_simps if_const disj_commute)
  show "\<exists>t. clear_bit (int n) m = Some t \<and> bm_cap t = bm_cap m \<and>
      (\<forall>j < bm_cap m. bm_bit t j = (j \<noteq> n \<and> bm_bit m j))"
    using bm_modify [OF n, of "\<lambda>x. x AND NOT (BIT_MASK (int n))" "\<lambda>_. False"]
    by (simp add: clear_bit_def BIT_WORD_def BIT_MASK_def bit_simps if_const conj_commute)
  show "\<exists>t. change_bit (int n) m = Some t \<and> bm_cap t = bm_cap m \<and>
      (\<forall>j < bm_cap m. bm_bit t j = (if j = n then \<not> bm_bit m j else bm_bit m j))"
    using bm_modify [OF n, of "\<lambda>x. x XOR BIT_MASK (int n)" Not]
    by (simp add: change_bit_def BIT_WORD_def BIT_MASK_def bit_simps)
qed

interpretation bits32: bit_array bm_cap bm_bit test_bit32 set_bit32 clear_bit32 change_bit32
proof
  fix n and m :: "u32 list" assume n: "n < bm_cap m"
  then show "test_bit32 (int n) m = Some (bm_bit m n)"
    using bm_index [OF n] by (simp add: test_bit32_def BIT32_WORD_def aget_nat bm_bit_def test_word_bit)
  show "\<exists>t. set_bit32 (int n) m = Some t \<and> bm_cap t = bm_cap m \<and>
      (\<forall>j < bm_cap m. bm_bit t j = (j = n \<or> bm_bit m j))"
    using bm_modify [OF n, of "\<lambda>x. x OR BIT32_MASK (int n)" "\<lambda>_. True"]
    by (simp add: set_bit32_def BIT32_WORD_def BIT32_MASK_def bit_simps if_const disj_commute)
  show "\<exists>t. clear_bit32 (int n) m = Some t \<and> bm_cap t = bm_cap m \<and>
      (\<forall>j < bm_cap m. bm_bit t j = (j \<noteq> n \<and> bm_bit m j))"
    using bm_modify [OF n, of "\<lambda>x. x AND NOT (BIT32_MASK (int n))" "\<lambda>_. False"]
    by (simp add: clear_bit32_def BIT32_WORD_def BIT32_MASK_def bit_simps if_const conj_commute)
  show "\<exists>t. change_bit32 (int n) m = Some t \<and> bm_cap t = bm_cap m \<and>
      (\<forall>j < bm_cap m. bm_bit t j = (if j = n then \<not> bm_bit m j else bm_bit m j))"
    using bm_modify [OF n, of "\<lambda>x. x XOR BIT32_MASK (int n)" Not]
    by (simp add: change_bit32_def BIT32_WORD_def BIT32_MASK_def bit_simps)
qed

text \<open>The read-modify-write operations are a test and the plain operation.\<close>

lemma test_and_modify:
  "test_and_set_bit nr m = do { b \<leftarrow> test_bit nr m; t \<leftarrow> set_bit nr m; Some (b, t) }"
  "test_and_clear_bit nr m = do { b \<leftarrow> test_bit nr m; t \<leftarrow> clear_bit nr m; Some (b, t) }"
  "test_and_change_bit nr m = do { b \<leftarrow> test_bit nr m; t \<leftarrow> change_bit nr m; Some (b, t) }"
  "test_and_set_bit32 nr l = do { b \<leftarrow> test_bit32 nr l; t \<leftarrow> set_bit32 nr l; Some (b, t) }"
  "test_and_clear_bit32 nr l = do { b \<leftarrow> test_bit32 nr l; t \<leftarrow> clear_bit32 nr l; Some (b, t) }"
  "test_and_change_bit32 nr l = do { b \<leftarrow> test_bit32 nr l; t \<leftarrow> change_bit32 nr l; Some (b, t) }"
proof -
  have lt: "nat (nr mod 64) < 64" "nat (nr mod 32) < 32" by (simp_all add: nat_less_iff)
  show "test_and_set_bit nr m = do { b \<leftarrow> test_bit nr m; t \<leftarrow> set_bit nr m; Some (b, t) }"
    "test_and_clear_bit nr m = do { b \<leftarrow> test_bit nr m; t \<leftarrow> clear_bit nr m; Some (b, t) }"
    "test_and_change_bit nr m = do { b \<leftarrow> test_bit nr m; t \<leftarrow> change_bit nr m; Some (b, t) }"
    using lt by (cases "aget m (BIT_WORD nr)"; simp add: test_and_set_bit_def test_and_clear_bit_def
        test_and_change_bit_def test_bit_def set_bit_def clear_bit_def change_bit_def word_update_def
        BIT_MASK_def masked_word test_word_bit)+
  show "test_and_set_bit32 nr l = do { b \<leftarrow> test_bit32 nr l; t \<leftarrow> set_bit32 nr l; Some (b, t) }"
    "test_and_clear_bit32 nr l = do { b \<leftarrow> test_bit32 nr l; t \<leftarrow> clear_bit32 nr l; Some (b, t) }"
    "test_and_change_bit32 nr l = do { b \<leftarrow> test_bit32 nr l; t \<leftarrow> change_bit32 nr l; Some (b, t) }"
    using lt by (cases "aget l (BIT32_WORD nr)"; simp add: test_and_set_bit32_def test_and_clear_bit32_def
        test_and_change_bit32_def test_bit32_def set_bit32_def clear_bit32_def change_bit32_def
        word_update_def BIT32_MASK_def masked_word test_word_bit)+
qed

lemma gic_bmp_replace_bit:
  assumes n: "n < bm_cap m"
  shows "\<exists>t. gic_bmp_replace_bit (int n) m v = Some t \<and> bm_cap t = bm_cap m \<and>
    (\<forall>j < bm_cap m. bm_bit t j = (if j = n then bit v 0 else bm_bit m j))"
  using bm_modify [OF n, of "\<lambda>x. (x AND NOT (BIT32_MASK (int n))) OR push_bit (n mod 32) (v AND 1)" "\<lambda>_. bit v 0"]
  by (simp add: gic_bmp_replace_bit_def BIT32_WORD_def BIT32_MASK_def bit_simps)


section \<open>The searches against a scan of the bits\<close>

text \<open>The first position from \<open>off\<close> and below \<open>sz\<close> with the property, or \<open>sz\<close>.\<close>

definition next_ref :: "(nat \<Rightarrow> bool) \<Rightarrow> nat \<Rightarrow> nat \<Rightarrow> nat" where
  "next_ref P sz off = (case find P [off..<sz] of Some n \<Rightarrow> n | None \<Rightarrow> sz)"

lemma next_ref_hit:
  assumes "off \<le> n" "n < sz" "P n" "\<And>k. off \<le> k \<Longrightarrow> k < n \<Longrightarrow> \<not> P k"
  shows "next_ref P sz off = n"
proof -
  have "find P [off..<sz] = Some n"
    unfolding find_Some_iff using assms by (intro exI [of _ "n - off"]) auto
  then show ?thesis by (simp add: next_ref_def)
qed

lemma next_ref_skip:
  assumes "off \<le> off'" "off' \<le> sz" "\<And>k. off \<le> k \<Longrightarrow> k < off' \<Longrightarrow> \<not> P k"
  shows "next_ref P sz off = next_ref P sz off'"
proof -
  have "[off..<sz] = [off..<off'] @ [off'..<sz]"
    using assms(1,2) by (metis le_Suc_ex upt_add_eq_append)
  moreover have "find P ([off..<off'] @ ys) = find P ys" for ys
  proof -
    have "find P (xs @ ys) = find P ys" if "\<forall>x \<in> set xs. \<not> P x" for xs
      using that by (induction xs) auto
    then show ?thesis using assms(3) by simp
  qed
  ultimately show ?thesis by (simp add: next_ref_def)
qed

lemma next_ref_end [simp]: "next_ref P sz sz = sz" "sz \<le> off \<Longrightarrow> next_ref P sz off = sz"
  by (simp_all add: next_ref_def)

lemma takeWhile_upt_first:
  assumes "n < w" "Q n" and c: "c = length (takeWhile (\<lambda>i. \<not> Q i) [0..<w])"
  shows "c < w" "Q c" "\<And>k. k < c \<Longrightarrow> \<not> Q k"
proof -
  let ?t = "takeWhile (\<lambda>i. \<not> Q i) [0..<w]"
  have le: "length ?t \<le> w" using length_takeWhile_le [of "\<lambda>i. \<not> Q i" "[0..<w]"] by simp
  have "length ?t \<noteq> w"
  proof
    assume "length ?t = w"
    then have "?t = [0..<w]" by (metis length_upt diff_zero takeWhile_eq_take take_all order_refl)
    then show False using assms(1,2) by (metis atLeastLessThan_iff le0 set_takeWhileD set_upt)
  qed
  with le show lt: "c < w" using c by simp
  show "Q c" using nth_length_takeWhile [of "\<lambda>i. \<not> Q i" "[0..<w]"] lt by (simp add: c)
  show "\<not> Q k" if "k < c" for k
    using that takeWhile_nth [of k "\<lambda>i. \<not> Q i" "[0..<w]"] set_takeWhileD [of "?t ! k" "\<lambda>i. \<not> Q i" "[0..<w]"]
      nth_mem [of k ?t] lt by (simp add: c)
qed

lemma ctzl_props:
  assumes "x \<noteq> 0"
  shows "ctzl x < 64" "bit x (ctzl x)" "\<And>k. k < ctzl x \<Longrightarrow> \<not> bit x k"
proof -
  obtain n where n: "bit x n" using assms by (auto simp: bit_eq_iff)
  then have "n < 64" using bit_imp_le_length by fastforce
  note c = takeWhile_upt_first [OF this, of "bit x", OF n ctzl_def]
  show "ctzl x < 64" "bit x (ctzl x)" "\<And>k. k < ctzl x \<Longrightarrow> \<not> bit x k" by (fact c)+
qed

lemma clzl_props:
  assumes "x \<noteq> 0"
  shows "clzl x < 64" "bit x (63 - clzl x)" "\<And>k. 63 - clzl x < k \<Longrightarrow> \<not> bit x k"
proof -
  obtain n where n: "bit x n" using assms by (auto simp: bit_eq_iff)
  then have lt: "n < 64" using bit_imp_le_length by fastforce
  have q: "63 - n < 64" "bit x (63 - (63 - n))" using n lt by simp_all
  note c = takeWhile_upt_first [of "63 - n" 64 "\<lambda>i. bit x (63 - i)", OF q clzl_def]
  show "clzl x < 64" "bit x (63 - clzl x)" by (fact c)+
  show "\<not> bit x k" if "63 - clzl x < k" for k
  proof (cases "k < 64")
    case True
    with c(3) [of "63 - k"] c(1) that show ?thesis by simp
  next
    case False
    then show ?thesis using bit_imp_le_length by fastforce
  qed
qed

text \<open>One word of the search: \<open>t\<close> has the wanted positions \<open>lo \<le> k < hi\<close> of the word at \<open>r\<close>.\<close>

lemma word_hit:
  assumes t: "t \<noteq> 0" and bits: "\<And>k. k < 64 \<Longrightarrow> bit t k \<longleftrightarrow> lo \<le> k \<and> k < hi \<and> P (r + k)" and hi: "r + hi \<le> sz"
  shows "next_ref P sz (r + lo) = r + ctzl t"
proof (rule next_ref_hit)
  note c = ctzl_props [OF t]
  show "r + lo \<le> r + ctzl t" "r + ctzl t < sz" "P (r + ctzl t)" using c(1,2) bits [of "ctzl t"] hi by auto
  fix k assume k: "r + lo \<le> k" "k < r + ctzl t"
  then obtain j where j: "k = r + j" using le_Suc_ex [of r k] by auto
  with k have "lo \<le> j" "j < ctzl t" by simp_all
  then show "\<not> P k" using c(1,2) c(3) [of j] bits [of j] bits [of "ctzl t"] j by auto
qed

lemma word_miss:
  assumes bits: "\<And>k. k < 64 \<Longrightarrow> bit (0 :: u64) k \<longleftrightarrow> lo \<le> k \<and> k < hi \<and> P (r + k)"
    and hi: "lo \<le> hi" "hi \<le> 64" "r + hi \<le> sz"
  shows "next_ref P sz (r + lo) = next_ref P sz (r + hi)"
proof (rule next_ref_skip)
  fix k assume "r + lo \<le> k" "k < r + hi"
  then show "\<not> P k" using bits [of "k - r"] hi by auto
qed (use hi in auto)

lemma bm_bit_word: "k < 64 \<Longrightarrow> bm_bit (m :: u64 list) (64 * p + k) = bit (m ! p) k"
  by (simp add: bm_bit_def)

lemma high_mask: "k < 64 \<Longrightarrow> bit (push_bit n (-1 :: u64)) k \<longleftrightarrow> n \<le> k"
  by (auto simp: bit_simps)

lemma low_mask: "k < 64 \<Longrightarrow> n \<le> 64 \<Longrightarrow> bit (drop_bit (64 - n) (-1 :: u64)) k \<longleftrightarrow> k < n"
  by (auto simp: bit_simps)

lemma next_found_first:
  assumes "\<And>k. k < 64 \<Longrightarrow> bit t k \<longleftrightarrow> lo \<le> k \<and> P (r + k)" "lo \<le> sz" "sz < 64"
  shows "next_found_first r sz t = next_ref P (r + sz) (r + lo)"
proof -
  let ?t = "t AND drop_bit (64 - sz) (-1)"
  have bits: "bit ?t k \<longleftrightarrow> lo \<le> k \<and> k < sz \<and> P (r + k)" if "k < 64" for k
    using that assms low_mask [of k sz] by (auto simp: bit_and_iff)
  show ?thesis
  proof (cases "?t = 0")
    case True
    with word_miss [of lo sz P r "r + sz"] bits assms(2,3) show ?thesis
      by (simp add: next_found_first_def)
  next
    case False
    with word_hit [OF False bits] show ?thesis
      by (simp add: next_found_first_def next_found_middle_def)
  qed
qed

lemma next_words:
  fixes m :: "u64 list"
  shows "64 * p + sz \<le> bm_cap m \<Longrightarrow> next_words m p (64 * p) sz = Some (next_ref (bm_bit m) (64 * p + sz) (64 * p))"
proof (induction sz arbitrary: p rule: less_induct)
  case (less sz)
  have bits: "bit (m ! p) k \<longleftrightarrow> 0 \<le> k \<and> k < 64 \<and> bm_bit m (64 * p + k)" if "k < 64" for k
    using that by (simp add: bm_bit_word)
  have rd: "aget m (int p) = Some (m ! p)" if "0 < sz"
    using that less.prems by (intro aget_nat) (simp add: bm_cap_def)
  consider "64 \<le> sz" | "sz = 0" | "0 < sz" "sz < 64" by linarith
  then show ?case
  proof cases
    case 1
    show ?thesis
    proof (cases "m ! p = 0")
      case True
      have "next_words m (p + 1) (64 * (p + 1)) (sz - 64) =
          Some (next_ref (bm_bit m) (64 * (p + 1) + (sz - 64)) (64 * (p + 1)))"
        using 1 less.prems by (intro less.IH) auto
      moreover have "next_ref (bm_bit m) (64 * p + sz) (64 * p + 0) = next_ref (bm_bit m) (64 * p + sz) (64 * p + 64)"
        using bits True 1 by (intro word_miss) simp_all
      ultimately show ?thesis using 1 True rd
        by (simp add: next_words.simps [of m p] algebra_simps)
    next
      case False
      have "next_ref (bm_bit m) (64 * p + sz) (64 * p + 0) = 64 * p + ctzl (m ! p)"
        using bits 1 by (intro word_hit [OF False, where hi = 64]) simp_all
      with 1 False rd show ?thesis by (simp add: next_words.simps [of m p] next_found_middle_def)
    qed
  next
    case 2
    then show ?thesis by (simp add: next_words.simps [of m p])
  next
    case 3
    have "next_found_first (64 * p) sz (m ! p) = next_ref (bm_bit m) (64 * p + sz) (64 * p + 0)"
      using bits 3 by (intro next_found_first) simp_all
    with 3 rd show ?thesis by (simp add: next_words.simps [of m p])
  qed
qed


lemma next_quads:
  fixes m :: "u64 list"
  shows "64 * p + sz \<le> bm_cap m \<Longrightarrow> next_quads m p (64 * p) sz = Some (next_ref (bm_bit m) (64 * p + sz) (64 * p))"
proof (induction sz arbitrary: p rule: less_induct)
  case (less sz)
  show ?case
  proof (cases "4 * 64 \<le> sz")
    case False
    with next_words [OF less.prems] show ?thesis by (simp add: next_quads.simps [of m p])
  next
    case big: True
    have rd: "aget m (int (p + i)) = Some (m ! (p + i))" if "i < 4" for i
      using that less.prems big by (intro aget_nat) (simp add: bm_cap_def)
    have word: "next_ref (bm_bit m) (64 * p + sz) (64 * p) = 64 * p + ctzl (m ! p)" if "m ! p \<noteq> 0"
      using word_hit [OF that, of 0 64 "bm_bit m" "64 * p" "64 * p + sz"] big by (simp add: bm_bit_word)
    show ?thesis
    proof (cases "m ! p = 0 \<and> m ! (p + 1) OR m ! (p + 2) OR m ! (p + 3) = 0")
      case True
      then have z: "m ! (p + i) = 0" if "i < 4" for i
        using that by (auto simp: numeral_eq_Suc less_Suc_eq or_eq_0_iff)
      have "next_ref (bm_bit m) (64 * p + sz) (64 * p) = next_ref (bm_bit m) (64 * p + sz) (64 * p + 4 * 64)"
      proof (rule next_ref_skip)
        fix k assume "64 * p \<le> k" "k < 64 * p + 4 * 64"
        then obtain j where j: "k = 64 * p + j" "j < 4 * 64" using le_Suc_ex [of "64 * p" k] by auto
        then have "k div 64 = p + j div 64" "j div 64 < 4" by auto
        with z [of "j div 64"] show "\<not> bm_bit m k" by (simp add: bm_bit_def)
      qed (use big in auto)
      moreover have "next_quads m (p + 4) (64 * (p + 4)) (sz - 4 * 64) =
          Some (next_ref (bm_bit m) (64 * (p + 4) + (sz - 4 * 64)) (64 * (p + 4)))"
        using big less.prems by (intro less.IH) auto
      ultimately show ?thesis
        using True big rd [of 0] rd [of 1] rd [of 2] rd [of 3]
        by (simp add: next_quads.simps [of m p] algebra_simps)
    next
      case False
      with word next_words [OF less.prems] big rd [of 0] rd [of 1] rd [of 2] rd [of 3] show ?thesis
        by (simp add: next_quads.simps [of m p] next_found_middle_def)
    qed
  qed
qed

lemma split_offset: "off - off mod 64 = 64 * (off div 64)" "off = 64 * (off div 64) + off mod 64" for off :: nat
  by (simp_all add: minus_mod_eq_mult_div)

lemma find_next_bit_correct:
  fixes m :: "u64 list"
  assumes sz: "sz \<le> bm_cap m"
  shows "find_next_bit m sz off = Some (next_ref (bm_bit m) sz off)"
proof (cases "off < sz")
  case False
  then show ?thesis by (simp add: find_next_bit_def)
next
  case True
  define p lo where "p = off div 64" and "lo = off mod 64"
  have off: "off - off mod 64 = 64 * p" "off = 64 * p + lo" "lo < 64"
    using split_offset [of off] by (simp_all add: p_def lo_def)
  obtain n where n: "sz = 64 * p + n" "lo < n" using True off(2) le_Suc_ex [of "64 * p" sz] by auto
  have rd: "aget m (int p) = Some (m ! p)"
    using sz n by (intro aget_nat) (simp add: bm_cap_def)
  have rest: "64 * (p + 1) + (n - 64) \<le> bm_cap m" if "64 \<le> n" using that sz n by simp
  let ?t = "m ! p AND push_bit lo (-1)"
  have bits: "bit ?t k \<longleftrightarrow> lo \<le> k \<and> bm_bit m (64 * p + k)" if "k < 64" for k
    using that high_mask [of k lo] by (auto simp: bit_and_iff bm_bit_word)
  show ?thesis
  proof (cases "lo = 0")
    case True
    then show ?thesis
      using next_quads [of p n m] sz n off \<open>off < sz\<close> by (simp add: find_next_bit_def p_def [symmetric])
  next
    case False
    then have eq: "find_next_bit m sz off =
        (if n < 64 then Some (next_found_first (64 * p) n ?t)
         else if ?t \<noteq> 0 then Some (next_found_middle (64 * p) ?t) else next_quads m (p + 1) (64 * p + 64) (n - 64))"
      using \<open>off < sz\<close> off n rd by (simp add: find_next_bit_def Let_def p_def [symmetric] lo_def [symmetric])
    consider "n < 64" | "64 \<le> n" "?t \<noteq> 0" | "64 \<le> n" "?t = 0" by linarith
    then show ?thesis
    proof cases
      case 1
      with next_found_first [of ?t lo "bm_bit m" "64 * p" n] bits n off eq show ?thesis by simp
    next
      case 2
      have "next_ref (bm_bit m) sz (64 * p + lo) = 64 * p + ctzl ?t"
        using bits 2 n by (intro word_hit [where hi = 64]) simp_all
      with 2 eq off show ?thesis by (simp add: next_found_middle_def)
    next
      case 3
      have "next_ref (bm_bit m) sz (64 * p + lo) = next_ref (bm_bit m) sz (64 * p + 64)"
        using bits 3 n off by (intro word_miss) simp_all
      with 3 eq off n next_quads [OF rest [OF 3(1)]] show ?thesis by (simp add: algebra_simps)
    qed
  qed
qed


text \<open>The search for a zero bit.\<close>

lemma not_bit: "k < 64 \<Longrightarrow> bit (NOT (x :: u64)) k \<longleftrightarrow> \<not> bit x k"
  by (simp add: bit_not_iff)

lemma zero_found_first:
  assumes "\<And>k. k < 64 \<Longrightarrow> \<not> bit t k \<longleftrightarrow> lo \<le> k \<and> P (r + k)" "lo \<le> sz" "sz < 64"
  shows "zero_found_first r sz t = next_ref P (r + sz) (r + lo)"
proof -
  let ?t = "NOT (t OR push_bit sz (-1))"
  have bits: "bit ?t k \<longleftrightarrow> lo \<le> k \<and> k < sz \<and> P (r + k)" if "k < 64" for k
    using assms(1) [OF that] unfolding not_bit [OF that] bit_or_iff high_mask [OF that] by auto
  have full: "t OR push_bit sz (-1) = -1 \<longleftrightarrow> ?t = 0"
    by (metis bit.compl_one bit.double_compl)
  show ?thesis
  proof (cases "?t = 0")
    case True
    with word_miss [of lo sz P r "r + sz"] bits assms(2,3) full show ?thesis
      by (simp add: zero_found_first_def)
  next
    case False
    with word_hit [OF False bits] full show ?thesis
      by (simp add: zero_found_first_def zero_found_middle_def)
  qed
qed

lemma zero_words:
  fixes m :: "u64 list"
  shows "64 * p + sz \<le> bm_cap m \<Longrightarrow>
    zero_words m p (64 * p) sz = Some (next_ref (\<lambda>n. \<not> bm_bit m n) (64 * p + sz) (64 * p))"
proof (induction sz arbitrary: p rule: less_induct)
  case (less sz)
  let ?P = "\<lambda>n. \<not> bm_bit m n"
  have bits: "bit (NOT (m ! p)) k \<longleftrightarrow> 0 \<le> k \<and> k < 64 \<and> ?P (64 * p + k)" if "k < 64" for k
    using that by (simp add: bm_bit_word bit_not_iff)
  have rd: "aget m (int p) = Some (m ! p)" if "0 < sz"
    using that less.prems by (intro aget_nat) (simp add: bm_cap_def)
  consider "64 \<le> sz" | "sz = 0" | "0 < sz" "sz < 64" by linarith
  then show ?case
  proof cases
    case 1
    then have d: "sz div 64 \<noteq> 0" by (simp add: div_eq_0_iff)
    show ?thesis
    proof (cases "NOT (m ! p) = 0")
      case True
      have "zero_words m (p + 1) (64 * (p + 1)) (sz - 64) =
          Some (next_ref ?P (64 * (p + 1) + (sz - 64)) (64 * (p + 1)))"
        using 1 less.prems by (intro less.IH) auto
      moreover have "next_ref ?P (64 * p + sz) (64 * p + 0) = next_ref ?P (64 * p + sz) (64 * p + 64)"
        using bits True 1 by (intro word_miss) simp_all
      ultimately show ?thesis using 1 True rd d
        by (simp add: zero_words.simps [of m p] algebra_simps)
    next
      case False
      have "next_ref ?P (64 * p + sz) (64 * p + 0) = 64 * p + ctzl (NOT (m ! p))"
        using bits 1 by (intro word_hit [OF False, where hi = 64]) simp_all
      with 1 False rd d show ?thesis by (simp add: zero_words.simps [of m p] zero_found_middle_def)
    qed
  next
    case 2
    then show ?thesis by (simp add: zero_words.simps [of m p])
  next
    case 3
    have "zero_found_first (64 * p) sz (m ! p) = next_ref ?P (64 * p + sz) (64 * p + 0)"
      using 3 by (intro zero_found_first) (simp_all add: bm_bit_word)
    with 3 rd show ?thesis by (simp add: zero_words.simps [of m p])
  qed
qed

lemma find_next_zero_bit_correct:
  fixes m :: "u64 list"
  assumes sz: "sz \<le> bm_cap m"
  shows "find_next_zero_bit m sz off = Some (next_ref (\<lambda>n. \<not> bm_bit m n) sz off)"
proof (cases "off < sz")
  case False
  then show ?thesis by (simp add: find_next_zero_bit_def)
next
  case True
  let ?P = "\<lambda>n. \<not> bm_bit m n"
  define p lo where "p = off div 64" and "lo = off mod 64"
  have off: "off - off mod 64 = 64 * p" "off = 64 * p + lo" "lo < 64"
    using split_offset [of off] by (simp_all add: p_def lo_def)
  obtain n where n: "sz = 64 * p + n" "lo < n" using True off(2) le_Suc_ex [of "64 * p" sz] by auto
  have rd: "aget m (int p) = Some (m ! p)"
    using sz n by (intro aget_nat) (simp add: bm_cap_def)
  have rest: "64 * (p + 1) + (n - 64) \<le> bm_cap m" if "64 \<le> n" using that sz n by simp
  let ?t = "m ! p OR drop_bit (64 - lo) (-1)"
  have bits: "\<not> bit ?t k \<longleftrightarrow> lo \<le> k \<and> ?P (64 * p + k)" if "k < 64" for k
    using that low_mask [of k lo] off(3) by (auto simp: bit_or_iff bm_bit_word)
  then have nbits: "bit (NOT ?t) k \<longleftrightarrow> lo \<le> k \<and> k < 64 \<and> ?P (64 * p + k)" if "k < 64" for k
    unfolding not_bit [OF that] using bits [OF that] that by blast
  show ?thesis
  proof (cases "lo = 0")
    case True
    then show ?thesis
      using zero_words [of p n m] sz n off \<open>off < sz\<close> by (simp add: find_next_zero_bit_def p_def [symmetric])
  next
    case False
    then have eq: "find_next_zero_bit m sz off =
        (if n < 64 then Some (zero_found_first (64 * p) n ?t)
         else if NOT ?t \<noteq> 0 then Some (zero_found_middle (64 * p) ?t) else zero_words m (p + 1) (64 * p + 64) (n - 64))"
      using \<open>off < sz\<close> off n rd by (simp add: find_next_zero_bit_def Let_def p_def [symmetric] lo_def [symmetric])
    consider "n < 64" | "64 \<le> n" "NOT ?t \<noteq> 0" | "64 \<le> n" "NOT ?t = 0" by linarith
    then show ?thesis
    proof cases
      case 1
      with zero_found_first [of ?t lo ?P "64 * p" n] bits n off eq show ?thesis by simp
    next
      case 2
      have "next_ref ?P sz (64 * p + lo) = 64 * p + ctzl (NOT ?t)"
        using nbits 2 n by (intro word_hit [where hi = 64]) simp_all
      with 2 eq off show ?thesis by (simp add: zero_found_middle_def)
    next
      case 3
      have "next_ref ?P sz (64 * p + lo) = next_ref ?P sz (64 * p + 64)"
        using nbits 3 n off by (intro word_miss) simp_all
      with 3 eq off n zero_words [OF rest [OF 3(1)]] show ?thesis by (simp add: algebra_simps)
    qed
  qed
qed

text \<open>The first and the last set bit.\<close>

lemma find_first_bit_from_correct:
  fixes m :: "u64 list"
  assumes sz: "sz \<le> bm_cap m"
  shows "find_first_bit_from m sz p (64 * p) = Some (next_ref (bm_bit m) sz (64 * p))"
proof (induction "sz - 64 * p" arbitrary: p rule: less_induct)
  case less
  show ?case
  proof (cases "64 * p < sz")
    case False
    then show ?thesis by (simp add: find_first_bit_from.simps [of m sz p])
  next
    case True
    have rd: "aget m (int p) = Some (m ! p)"
      using sz True by (intro aget_nat) (simp add: bm_cap_def)
    have bits: "bit (m ! p) k \<longleftrightarrow> bm_bit m (64 * p + k)" if "k < 64" for k
      using that by (simp add: bm_bit_word)
    show ?thesis
    proof (cases "m ! p = 0")
      case zero: True
      have IH: "find_first_bit_from m sz (Suc p) (64 * Suc p) = Some (next_ref (bm_bit m) sz (64 * Suc p))"
        using True by (intro less) simp
      have "next_ref (bm_bit m) sz (64 * p) = next_ref (bm_bit m) sz (min sz (64 * Suc p))"
      proof (rule next_ref_skip)
        fix k assume k: "64 * p \<le> k" "k < min sz (64 * Suc p)"
        then obtain j where "k = 64 * p + j" using le_Suc_ex by blast
        with k show "\<not> bm_bit m k" using bits [of j] zero by auto
      qed (use True in auto)
      also have "\<dots> = next_ref (bm_bit m) sz (64 * Suc p)" by (cases "64 * Suc p \<le> sz") auto
      finally show ?thesis using True zero rd IH by (simp add: find_first_bit_from.simps [of m sz p] algebra_simps)
    next
      case False
      note c = ctzl_props [OF False]
      have "next_ref (bm_bit m) sz (64 * p) = (if 64 * p + ctzl (m ! p) < sz then 64 * p + ctzl (m ! p) else sz)"
      proof (cases "64 * p + ctzl (m ! p) < sz")
        case True
        have "next_ref (bm_bit m) sz (64 * p) = 64 * p + ctzl (m ! p)"
        proof (rule next_ref_hit)
          show "bm_bit m (64 * p + ctzl (m ! p))" using bits c by blast
          fix k assume k: "64 * p \<le> k" "k < 64 * p + ctzl (m ! p)"
          then obtain j where "k = 64 * p + j" using le_Suc_ex by blast
          with k show "\<not> bm_bit m k" using bits [of j] c(1) c(3) [of j] by auto
        qed (use True in auto)
        with True show ?thesis by simp
      next
        case False
        have "next_ref (bm_bit m) sz (64 * p) = next_ref (bm_bit m) sz sz"
        proof (rule next_ref_skip)
          fix k assume k: "64 * p \<le> k" "k < sz"
          then obtain j where "k = 64 * p + j" using le_Suc_ex by blast
          with k show "\<not> bm_bit m k" using bits [of j] c(1) c(3) [of j] False by auto
        qed (use True in auto)
        with False show ?thesis by simp
      qed
      with True False rd show ?thesis by (simp add: find_first_bit_from.simps [of m sz p] Let_def)
    qed
  qed
qed

lemma find_first_bit_correct:
  "sz \<le> bm_cap (m :: u64 list) \<Longrightarrow> find_first_bit m sz = Some (next_ref (bm_bit m) sz 0)"
  using find_first_bit_from_correct [of sz m 0] by (simp add: find_first_bit_def)


definition last_ref :: "(nat \<Rightarrow> bool) \<Rightarrow> nat \<Rightarrow> nat" where
  "last_ref P sz = (case find P (rev [0..<sz]) of Some n \<Rightarrow> n | None \<Rightarrow> sz)"

lemma last_ref_hit:
  assumes "n < sz" "P n" "\<And>k. n < k \<Longrightarrow> k < sz \<Longrightarrow> \<not> P k"
  shows "last_ref P sz = n"
proof -
  have "find P (rev [0..<sz]) = Some n"
    unfolding find_Some_iff using assms
    by (intro exI [of _ "sz - Suc n"]) (auto simp: rev_nth)
  then show ?thesis by (simp add: last_ref_def)
qed

lemma last_ref_none: "(\<And>k. k < sz \<Longrightarrow> \<not> P k) \<Longrightarrow> last_ref P sz = sz"
  using find_None_iff [of P "rev [0..<sz]"] by (simp add: last_ref_def)

lemma last_word:
  assumes t: "t \<noteq> 0" and bits: "\<And>k. k < 64 \<Longrightarrow> bit t k \<longleftrightarrow> 64 * w + k < sz \<and> P (64 * w + k)"
    and above: "\<And>k. 64 * w + 64 \<le> k \<Longrightarrow> k < sz \<Longrightarrow> \<not> P k"
  shows "last_ref P sz = w * 64 + 64 - 1 - clzl t"
proof -
  note c = clzl_props [OF t]
  have e: "w * 64 + 64 - 1 - clzl t = 64 * w + (63 - clzl t)" using c(1) by simp
  have n: "64 * w + (63 - clzl t) < sz" "P (64 * w + (63 - clzl t))" using bits [of "63 - clzl t"] c by auto
  show ?thesis
    unfolding e
  proof (rule last_ref_hit [where P = P, OF n])
    fix k assume k: "64 * w + (63 - clzl t) < k" "k < sz"
    show "\<not> P k"
    proof (cases "k < 64 * w + 64")
      case True
      obtain j where "k = 64 * w + j" using k(1) le_Suc_ex [of "64 * w" k] by auto
      with True k bits [of j] c(3) [of j] show ?thesis by auto
    qed (use above k in auto)
  qed
qed

lemma last_words:
  fixes m :: "u64 list"
  assumes sz: "sz \<le> bm_cap m"
  shows "64 * w \<le> sz \<Longrightarrow> (\<And>k. 64 * w \<le> k \<Longrightarrow> k < sz \<Longrightarrow> \<not> bm_bit m k) \<Longrightarrow>
    last_words m sz w = Some (last_ref (bm_bit m) sz)"
proof (induction w)
  case 0
  then show ?case using last_ref_none [of sz "bm_bit m"] by simp
next
  case (Suc w)
  have rd: "aget m (int w) = Some (m ! w)"
    using sz Suc.prems(1) by (intro aget_nat) (simp add: bm_cap_def)
  show ?case
  proof (cases "m ! w = 0")
    case True
    have "\<not> bm_bit m k" if k: "64 * w \<le> k" "k < sz" for k
    proof (cases "k < 64 * w + 64")
      case lt: True
      obtain j where "k = 64 * w + j" using k(1) le_Suc_ex by blast
      with lt True bm_bit_word [of j m w] show ?thesis by simp
    qed (use Suc.prems(2) [of k] k in auto)
    with Suc.IH Suc.prems(1) True rd show ?thesis by simp
  next
    case False
    have "last_ref (bm_bit m) sz = w * 64 + 64 - 1 - clzl (m ! w)"
    proof (rule last_word [OF False])
      show "bit (m ! w) k \<longleftrightarrow> 64 * w + k < sz \<and> bm_bit m (64 * w + k)" if "k < 64" for k
        using that Suc.prems(1) bm_bit_word [OF that, of m w] by simp
      show "\<not> bm_bit m k" if "64 * w + 64 \<le> k" "k < sz" for k
        using that Suc.prems(2) [of k] by simp
    qed
    with False rd show ?thesis by simp
  qed
qed

lemma find_last_bit_correct:
  fixes m :: "u64 list"
  assumes sz: "sz \<le> bm_cap m"
  shows "find_last_bit m sz = Some (last_ref (bm_bit m) sz)"
proof -
  define w n where "w = sz div 64" and "n = sz mod 64"
  have s: "sz = 64 * w + n" "n < 64" by (simp_all add: w_def n_def)
  show ?thesis
  proof (cases "n = 0")
    case True
    with last_words [OF sz, of w] s show ?thesis by (simp add: find_last_bit_def w_def [symmetric] n_def [symmetric])
  next
    case False
    have rd: "aget m (int w) = Some (m ! w)"
      using sz s False by (intro aget_nat) (simp add: bm_cap_def)
    let ?t = "m ! w AND drop_bit (64 - n) (-1)"
    have bits: "bit ?t k \<longleftrightarrow> 64 * w + k < sz \<and> bm_bit m (64 * w + k)" if "k < 64" for k
      using that low_mask [of k n] s by (auto simp: bit_and_iff bm_bit_word)
    have eq: "find_last_bit m sz = (if ?t \<noteq> 0 then Some (w * 64 + 64 - 1 - clzl ?t) else last_words m sz w)"
      using False rd by (simp add: find_last_bit_def Let_def w_def [symmetric] n_def [symmetric])
    show ?thesis
    proof (cases "?t = 0")
      case True
      have "\<not> bm_bit m k" if k: "64 * w \<le> k" "k < sz" for k
      proof -
        obtain j where j: "k = 64 * w + j" using k(1) le_Suc_ex by blast
        with k s have "j < 64" by simp
        from bits [OF this] True k(2) show ?thesis unfolding j by simp
      qed
      then have "last_words m sz w = Some (last_ref (bm_bit m) sz)"
        using s by (intro last_words [OF sz]) auto
      with True eq show ?thesis by simp
    next
      case False
      have "last_ref (bm_bit m) sz = w * 64 + 64 - 1 - clzl ?t"
        by (rule last_word [OF False bits]) (use s in auto)
      with False eq show ?thesis by simp
    qed
  qed
qed

section \<open>Bit fields and rotations\<close>

text \<open>Fields at either width: \<open>n\<close> bits from bit \<open>a\<close>.\<close>

lemma field_mask: "n \<le> LENGTH('a) \<Longrightarrow> k < LENGTH('a) \<Longrightarrow> bit (drop_bit (LENGTH('a) - n) (-1 :: 'a :: len word)) k \<longleftrightarrow> k < n"
  by (auto simp: bit_simps)

lemma field_get:
  assumes "0 < n" "a + n \<le> LENGTH('a)"
  shows "bit (drop_bit a v AND drop_bit (LENGTH('a) - n) (-1 :: 'a :: len word)) k \<longleftrightarrow> k < n \<and> bit v (a + k)"
proof (cases "k < LENGTH('a)")
  case True
  then show ?thesis using field_mask [of n k, where 'a = 'a] assms
    by (auto simp: bit_and_iff bit_drop_bit_eq add.commute)
next
  case False
  then have "\<not> bit v (a + k)" using bit_imp_le_length [of v "a + k"] by auto
  then show ?thesis by (simp add: bit_and_iff bit_drop_bit_eq)
qed

lemma field_put:
  assumes "0 < n" "a + n \<le> LENGTH('a)" "k < LENGTH('a)"
  shows "bit ((v AND NOT (push_bit a (drop_bit (LENGTH('a) - n) (-1)))) OR
      (push_bit a f AND push_bit a (drop_bit (LENGTH('a) - n) (-1 :: 'a :: len word)))) k \<longleftrightarrow>
    (if a \<le> k \<and> k < a + n then bit f (k - a) else bit v k)"
proof -
  have mask: "bit (push_bit a (drop_bit (LENGTH('a) - n) (-1 :: 'a word))) k \<longleftrightarrow> a \<le> k \<and> k < a + n"
    using field_mask [of n "k - a", where 'a = 'a] assms
    by (cases "a \<le> k") (simp_all add: bit_push_bit_iff less_diff_conv2 add.commute)
  show ?thesis
    unfolding bit_or_iff bit_and_iff bit_not_iff mask
    using assms(3) by (auto simp: bit_push_bit_iff)
qed

lemma extract64_field:
  "0 < n \<Longrightarrow> a + n \<le> 64 \<Longrightarrow>
   \<exists>r. extract64 v (int a) (int n) = Some r \<and> (\<forall>k. bit r k \<longleftrightarrow> k < n \<and> bit v (a + k))"
  using field_get [of n a v] by (simp add: extract64_def nat_diff_distrib)

lemma extract32_field:
  "0 < n \<Longrightarrow> a + n \<le> 32 \<Longrightarrow>
   \<exists>r. extract32 v (int a) (int n) = Some r \<and> (\<forall>k. bit r k \<longleftrightarrow> k < n \<and> bit v (a + k))"
  using field_get [of n a v] by (simp add: extract32_def nat_diff_distrib)

lemma deposit64_field:
  "0 < n \<Longrightarrow> a + n \<le> 64 \<Longrightarrow> \<exists>r. deposit64 v (int a) (int n) f = Some r \<and>
     (\<forall>k < 64. bit r k \<longleftrightarrow> (if a \<le> k \<and> k < a + n then bit f (k - a) else bit v k))"
  using field_put [of n a _ v f] by (simp add: deposit64_def Let_def nat_diff_distrib)

lemma deposit32_field:
  "0 < n \<Longrightarrow> a + n \<le> 32 \<Longrightarrow> \<exists>r. deposit32 v (int a) (int n) f = Some r \<and>
     (\<forall>k < 32. bit r k \<longleftrightarrow> (if a \<le> k \<and> k < a + n then bit f (k - a) else bit v k))"
  using field_put [of n a _ v f] by (simp add: deposit32_def Let_def nat_diff_distrib)

lemma sextract64_field:
  assumes "0 < n" "a + n \<le> 64"
  shows "\<exists>r. sextract64 v (int a) (int n) = Some r \<and>
    (\<forall>k < 64. bit r k \<longleftrightarrow> bit v (a + (if k < n then k else n - 1)))"
proof -
  have "bit (signed_drop_bit (64 - n) (push_bit (64 - n - a) v)) k \<longleftrightarrow> bit v (a + (if k < n then k else n - 1))"
    if "k < 64" for k
    using that assms by (auto simp: bit_signed_drop_bit_iff bit_push_bit_iff add.commute)
  with assms show ?thesis by (simp add: sextract64_def nat_diff_distrib)
qed

text \<open>Rotations: the two shifts of a rotation add up to the width.\<close>

lemma rol_shift_mod:
  assumes "e \<le> 32"
  shows "rol_shift (2 ^ e) sh = unat sh mod 2 ^ e"
proof -
  have "of_nat (2 ^ e - 1) = (mask e :: u32)" by (simp add: mask_eq_exp_minus_1 of_nat_diff)
  then have "sh AND of_nat (2 ^ e - 1) = take_bit e sh" by (simp add: take_bit_eq_mask)
  then show ?thesis by (simp only: rol_shift_def unsigned_take_bit_eq) (simp add: take_bit_eq_mod)
qed

lemma rol_shift_neg:
  assumes "e \<le> 32"
  shows "rol_shift (2 ^ e) (- sh) = (2 ^ e - unat sh mod 2 ^ e) mod 2 ^ e"
proof -
  have d: "(2 :: int) ^ e dvd 2 ^ 32" using assms by (rule le_imp_power_dvd)
  have "int (unat (- sh) mod 2 ^ e) = (- uint sh mod 2 ^ 32) mod 2 ^ e"
    by (simp add: zmod_int uint_word_ariths)
  also have "\<dots> = - uint sh mod 2 ^ e" using d by (rule mod_mod_cancel)
  also have "\<dots> = (2 ^ e - uint sh mod 2 ^ e) mod 2 ^ e" by (metis minus_mod_self2 mod_diff_right_eq mod_minus_eq uminus_add_conv_diff add.commute minus_mod_self1)
  also have "\<dots> = int ((2 ^ e - unat sh mod 2 ^ e) mod 2 ^ e)"
  proof -
    have "unat sh mod 2 ^ e \<le> 2 ^ e" by (simp add: less_imp_le)
    then have "int (2 ^ e - unat sh mod 2 ^ e) = 2 ^ e - uint sh mod 2 ^ e"
      by (simp only: of_nat_diff zmod_int) simp
    then show ?thesis by (simp only: zmod_int) simp
  qed
  finally show ?thesis unfolding rol_shift_mod [OF assms] by linarith
qed

lemma rotl_or:
  fixes x :: "'a :: len word"
  assumes "s < LENGTH('a)"
  shows "push_bit s x OR drop_bit ((LENGTH('a) - s) mod LENGTH('a)) x = word_rotl s x"
proof (rule bit_word_eqI)
  fix n assume n: "n < LENGTH('a)"
  have out: "\<not> bit x k" if "LENGTH('a) \<le> k" for k using that bit_imp_le_length [of x k] by auto
  show "bit (push_bit s x OR drop_bit ((LENGTH('a) - s) mod LENGTH('a)) x) n = bit (word_rotl s x) n"
  proof (cases "s = 0 \<or> n < s")
    case True
    with n assms show ?thesis by (auto simp: bit_or_iff bit_push_bit_iff bit_drop_bit_eq bit_word_rotl_iff add.commute)
  next
    case False
    have "n + (LENGTH('a) - s) = (n - s) + LENGTH('a)" using False assms by simp
    then have "(n + (LENGTH('a) - s)) mod LENGTH('a) = n - s" using n by (simp only: mod_add_self2) simp
    with False n assms out show ?thesis
      by (auto simp: bit_or_iff bit_push_bit_iff bit_drop_bit_eq bit_word_rotl_iff add.commute)
  qed
qed

lemma rotr_or:
  fixes x :: "'a :: len word"
  assumes "s < LENGTH('a)"
  shows "drop_bit s x OR push_bit ((LENGTH('a) - s) mod LENGTH('a)) x = word_rotr s x"
proof (cases "s = 0")
  case True
  then show ?thesis by (intro bit_word_eqI) (simp add: bit_word_rotr_iff)
next
  case False
  have "word_rotr s x = word_rotl (LENGTH('a) - s) x"
    using False assms word_rotl_eq_word_rotr [of "LENGTH('a) - s", where 'a = 'a] by simp
  with rotl_or [of "LENGTH('a) - s" x] False assms show ?thesis by (simp add: or.commute)
qed

lemma rotation_shifts:
  assumes "e \<le> 32" "LENGTH('a :: len) = 2 ^ e"
  shows "push_bit (rol_shift (2 ^ e) sh) x OR drop_bit (rol_shift (2 ^ e) (- sh)) (x :: 'a word) = word_rotl (unat sh mod 2 ^ e) x"
    and "drop_bit (rol_shift (2 ^ e) sh) x OR push_bit (rol_shift (2 ^ e) (- sh)) (x :: 'a word) = word_rotr (unat sh mod 2 ^ e) x"
proof -
  have lt: "unat sh mod 2 ^ e < LENGTH('a)" using assms(2) by simp
  show "push_bit (rol_shift (2 ^ e) sh) x OR drop_bit (rol_shift (2 ^ e) (- sh)) x = word_rotl (unat sh mod 2 ^ e) x"
    using rotl_or [OF lt, of x] unfolding assms(2) rol_shift_neg [OF assms(1)] rol_shift_mod [OF assms(1), of sh] .
  show "drop_bit (rol_shift (2 ^ e) sh) x OR push_bit (rol_shift (2 ^ e) (- sh)) x = word_rotr (unat sh mod 2 ^ e) x"
    using rotr_or [OF lt, of x] unfolding assms(2) rol_shift_neg [OF assms(1)] rol_shift_mod [OF assms(1), of sh] .
qed

lemma rotations8:
  "rol8 x sh = word_rotl (unat sh mod 8) x" "ror8 x sh = word_rotr (unat sh mod 8) x"
  using rotation_shifts [of 3 sh x] by (simp_all add: rol8_def ror8_def)

lemma rotations16:
  "rol16 x sh = word_rotl (unat sh mod 16) x" "ror16 x sh = word_rotr (unat sh mod 16) x"
  using rotation_shifts [of 4 sh x] by (simp_all add: rol16_def ror16_def)

lemma rotations32:
  "rol32 x sh = word_rotl (unat sh mod 32) x" "ror32 x sh = word_rotr (unat sh mod 32) x"
  using rotation_shifts [of 5 sh x] by (simp_all add: rol32_def ror32_def)

lemma rotations64:
  "rol64 x sh = word_rotl (unat sh mod 64) x" "ror64 x sh = word_rotr (unat sh mod 64) x"
  using rotation_shifts [of 6 sh x] by (simp_all add: rol64_def ror64_def)

section \<open>Properties\<close>

text \<open>
  C32.  The word-at-a-time searches are linear scans: within the words of the bitmap,
  \<open>find_next_bit\<close>, \<open>find_next_zero_bit\<close>, \<open>find_first_bit\<close> and \<open>find_last_bit\<close> never read
  outside them and return the first (the last) set or clear bit below the size, or the size.
\<close>

theorem bit_searches_are_scans:
  assumes "sz \<le> bm_cap (m :: u64 list)"
  shows "find_next_bit m sz off = Some (next_ref (bm_bit m) sz off) \<and>
    find_next_zero_bit m sz off = Some (next_ref (\<lambda>n. \<not> bm_bit m n) sz off) \<and>
    find_first_bit m sz = Some (next_ref (bm_bit m) sz 0) \<and>
    find_last_bit m sz = Some (last_ref (bm_bit m) sz)"
  using assms by (simp add: find_next_bit_correct find_next_zero_bit_correct find_first_bit_correct find_last_bit_correct)

theorem bit_searches_are_scans_witness:
  "find_next_bit [0, 0x100] 128 3 = Some 72 \<and> find_next_zero_bit [0, 0x100] 128 72 = Some 73 \<and>
   find_first_bit [0, 0x100] 128 = Some 72 \<and> find_last_bit [0, 0x100] 128 = Some 72"
proof -
  have "find_next_zero_bit [0, 0x100] 128 72 = Some 73" by code_simp
  moreover have "next_ref (bm_bit [0, 0x100 :: u64]) 128 3 = 72" "next_ref (bm_bit [0, 0x100 :: u64]) 128 0 = 72"
    "last_ref (bm_bit [0, 0x100 :: u64]) 128 = 72" by code_simp+
  ultimately show ?thesis using bit_searches_are_scans [of 128 "[0, 0x100]" 3] by (simp add: bm_cap_def)
qed

text \<open>
  \<open>test_and_set_bit\<close>, \<open>test_and_clear_bit\<close> and \<open>test_and_change_bit\<close> report the bit as it was
  and change that bit only, in the 64-bit and in the 32-bit arrays.
\<close>

lemma test_and_modify_one_bit:
  assumes "n < bm_cap (m :: u64 list)" "k < bm_cap (l :: u32 list)"
  shows "(\<exists>t. test_and_set_bit (int n) m = Some (bm_bit m n, t) \<and> bm_cap t = bm_cap m \<and>
      (\<forall>j < bm_cap m. bm_bit t j = (j = n \<or> bm_bit m j))) \<and>
    (\<exists>t. test_and_clear_bit (int n) m = Some (bm_bit m n, t) \<and> bm_cap t = bm_cap m \<and>
      (\<forall>j < bm_cap m. bm_bit t j = (j \<noteq> n \<and> bm_bit m j))) \<and>
    (\<exists>t. test_and_change_bit (int n) m = Some (bm_bit m n, t) \<and> bm_cap t = bm_cap m \<and>
      (\<forall>j < bm_cap m. bm_bit t j = (if j = n then \<not> bm_bit m j else bm_bit m j))) \<and>
    (\<exists>t. test_and_set_bit32 (int k) l = Some (bm_bit l k, t) \<and> bm_cap t = bm_cap l \<and>
      (\<forall>j < bm_cap l. bm_bit t j = (j = k \<or> bm_bit l j))) \<and>
    (\<exists>t. test_and_clear_bit32 (int k) l = Some (bm_bit l k, t) \<and> bm_cap t = bm_cap l \<and>
      (\<forall>j < bm_cap l. bm_bit t j = (j \<noteq> k \<and> bm_bit l j))) \<and>
    (\<exists>t. test_and_change_bit32 (int k) l = Some (bm_bit l k, t) \<and> bm_cap t = bm_cap l \<and>
      (\<forall>j < bm_cap l. bm_bit t j = (if j = k then \<not> bm_bit l j else bm_bit l j)))"
proof -
  note pick = bits64.set_op [OF assms(1)] bits64.clear_op [OF assms(1)] bits64.change_op [OF assms(1)]
    bits32.set_op [OF assms(2)] bits32.clear_op [OF assms(2)] bits32.change_op [OF assms(2)]
  show ?thesis
    unfolding test_and_modify bits64.tst [OF assms(1)] bits32.tst [OF assms(2)]
    by (intro conjI) (use pick in force)+
qed

lemma test_and_modify_one_bit_witness:
  "\<exists>t. test_and_clear_bit (int 65) [0, 6] = Some (bm_bit [0, 6 :: u64] 65, t) \<and> bm_cap t = bm_cap [0, 6 :: u64] \<and>
     (\<forall>j < bm_cap [0, 6 :: u64]. bm_bit t j = (j \<noteq> 65 \<and> bm_bit [0, 6 :: u64] j))"
  using test_and_modify_one_bit [of 65 "[0, 6]" 0 "[0]"] by (simp add: bm_cap_def)

lemma field_round_trip:
  assumes n: "0 < n" "a + n \<le> 64"
  shows "\<exists>r. deposit64 v (int a) (int n) f = Some r \<and> extract64 r (int a) (int n) = extract64 f 0 (int n) \<and>
      (\<forall>k < 64. \<not> (a \<le> k \<and> k < a + n) \<longrightarrow> bit r k = bit v k) \<and>
      (\<exists>s. sextract64 r (int a) (int n) = Some s \<and> (\<forall>k < 64. bit s k = bit f (min k (n - 1))))"
proof -
  obtain r where r: "deposit64 v (int a) (int n) f = Some r"
    "\<And>k. k < 64 \<Longrightarrow> bit r k \<longleftrightarrow> (if a \<le> k \<and> k < a + n then bit f (k - a) else bit v k)"
    using deposit64_field [OF n] by blast
  obtain x where x: "extract64 r (int a) (int n) = Some x" "\<And>k. bit x k \<longleftrightarrow> k < n \<and> bit r (a + k)"
    using extract64_field [OF n] by blast
  obtain y where y: "extract64 f 0 (int n) = Some y" "\<And>k. bit y k \<longleftrightarrow> k < n \<and> bit f k"
    using extract64_field [OF n(1), of 0 f] n(2) by auto
  obtain s where s: "sextract64 r (int a) (int n) = Some s"
    "\<And>k. k < 64 \<Longrightarrow> bit s k \<longleftrightarrow> bit r (a + (if k < n then k else n - 1))"
    using sextract64_field [OF n] by blast
  have "x = y" using n r(2) by (intro bit_word_eqI) (auto simp: x(2) y(2))
  moreover have "bit s k = bit f (min k (n - 1))" if "k < 64" for k
  proof (cases "k < n")
    case True
    then have "min k (n - 1) = k" by simp
    with True n s(2) [OF that] r(2) [of "a + k"] show ?thesis by simp
  next
    case False
    then have "min k (n - 1) = n - 1" by simp
    moreover have "a \<le> a + (n - 1)" "a + (n - 1) < a + n" "a + (n - 1) < 64" "a + (n - 1) - a = n - 1" using n by simp_all
    ultimately show ?thesis using False s(2) [OF that] r(2) [of "a + (n - 1)"] by metis
  qed
  ultimately show ?thesis using r s(1) x(1) y(1) by auto
qed

text \<open>
  A field read back after \<open>deposit64\<close> is the value written, cut to the field's width, and the
  bits outside the field keep their values; \<open>sextract64\<close> reads the same field with its top bit
  extended.  A field that does not lie inside the word fails the assertion of each of the three.
\<close>

lemma deposit_then_extract:
  "if 0 < n \<and> a + n \<le> 64
   then \<exists>r. deposit64 v (int a) (int n) f = Some r \<and> extract64 r (int a) (int n) = extract64 f 0 (int n) \<and>
      (\<forall>k < 64. \<not> (a \<le> k \<and> k < a + n) \<longrightarrow> bit r k = bit v k) \<and>
      (\<exists>s. sextract64 r (int a) (int n) = Some s \<and> (\<forall>k < 64. bit s k = bit f (min k (n - 1))))
   else deposit64 v (int a) (int n) f = None \<and> extract64 v (int a) (int n) = None \<and>
      sextract64 v (int a) (int n) = None"
  using field_round_trip [of n a v f] by (auto simp: deposit64_def extract64_def sextract64_def)

lemma deposit_then_extract_witness:
  "\<exists>r. deposit64 0xFFFF (int 4) (int 8) 0x12 = Some r \<and> extract64 r (int 4) (int 8) = extract64 0x12 0 (int 8)"
  using deposit_then_extract [of 8 4 "0xFFFF" "0x12"] by fastforce

text \<open>
  The C rotations are rotations for every shift count, the count 0 and counts of the width or
  more included: rotating left and then right, or right and then left, by the same count gives
  back the value, at each of the four widths.
\<close>

lemma rotations_are_inverse:
  "ror8 (rol8 a sh) sh = a \<and> rol8 (ror8 a sh) sh = a \<and> ror16 (rol16 b sh) sh = b \<and> rol16 (ror16 b sh) sh = b \<and>
   ror32 (rol32 c sh) sh = c \<and> rol32 (ror32 c sh) sh = c \<and> ror64 (rol64 d sh) sh = d \<and> rol64 (ror64 d sh) sh = d"
  by (simp add: rotations8 rotations16 rotations32 rotations64)

end
