(* ===== verification/Qemu_Bitmap.thy ===== *)
theory Qemu_Bitmap
  imports Qemu_Bitops
begin

text \<open>
  The bitmaps of \<open>util/bitmap.c\<close> and \<open>include/qemu/bitmap.h\<close>: an array of 64-bit words with the
  operations on ranges of bits.  A pointer into a bitmap is the index of its word; an access
  outside the array is the abort \<open>None\<close>.  Sizes are natural numbers, except where the source
  asserts that they are not negative.  The atomic accesses of the source are single updates of a
  word; concurrent updates between them are not modelled.
\<close>

section \<open>Masks, whole-word loops\<close>

definition BITS_TO_LONGS :: "nat \<Rightarrow> nat" where
  "BITS_TO_LONGS nr = (nr + 63) div 64"

definition BITMAP_FIRST_WORD_MASK :: "nat \<Rightarrow> u64" where
  "BITMAP_FIRST_WORD_MASK start = push_bit (start mod 64) (-1)"

definition BITMAP_LAST_WORD_MASK :: "nat \<Rightarrow> u64" where
  "BITMAP_LAST_WORD_MASK nbits = drop_bit ((64 - nbits mod 64) mod 64) (-1)"

definition small_nbits :: "nat \<Rightarrow> bool" where
  "small_nbits nbits \<longleftrightarrow> nbits \<le> 64"

text \<open>\<open>ctpopl()\<close>: a compiler builtin, the number of set bits.\<close>

definition ctpopl :: "u64 \<Rightarrow> nat" where
  "ctpopl x = length (filter (bit x) [0..<64])"

text \<open>\<open>for (k = ...; k < lim; ++k) if (f(k)) return ...\<close>: whether the loop returned early.\<close>

fun scan_words :: "(nat \<Rightarrow> bool option) \<Rightarrow> nat \<Rightarrow> nat \<Rightarrow> bool option" where
  "scan_words f k 0 = Some False"
| "scan_words f k (Suc n) = do { b \<leftarrow> f k; if b then Some True else scan_words f (Suc k) n }"

text \<open>\<open>for (k = ...; k < nr; k++) result |= (dst[k] = f(k))\<close>.\<close>

fun store_words :: "(nat \<Rightarrow> u64 option) \<Rightarrow> nat \<Rightarrow> nat \<Rightarrow> u64 list \<Rightarrow> u64 \<Rightarrow> (u64 list \<times> u64) option" where
  "store_words f k 0 dst result = Some (dst, result)"
| "store_words f k (Suc n) dst result = do {
     v \<leftarrow> f k;
     dst \<leftarrow> aset dst (int k) v;
     store_words f (Suc k) n dst (result OR v)
   }"

definition word2 :: "(u64 \<Rightarrow> u64 \<Rightarrow> u64) \<Rightarrow> u64 list \<Rightarrow> u64 list \<Rightarrow> nat \<Rightarrow> u64 option" where
  "word2 f a b k = do { x \<leftarrow> aget a (int k); y \<leftarrow> aget b (int k); Some (f x y) }"

text \<open>The test of all whole words, then of the partial word at the end.\<close>

definition scan_bits :: "(nat \<Rightarrow> u64 option) \<Rightarrow> nat \<Rightarrow> bool option" where
  "scan_bits f bits = do {
     hit \<leftarrow> scan_words (\<lambda>k. do { w \<leftarrow> f k; Some (w \<noteq> 0) }) 0 (bits div 64);
     if hit then Some True
     else if bits mod 64 \<noteq> 0 then do {
       w \<leftarrow> f (bits div 64);
       Some (w AND BITMAP_LAST_WORD_MASK bits \<noteq> 0)
     }
     else Some False
   }"

definition slow_bitmap_empty :: "u64 list \<Rightarrow> nat \<Rightarrow> bool option" where
  "slow_bitmap_empty bitmap bits = map_option Not (scan_bits (\<lambda>k. aget bitmap (int k)) bits)"

definition slow_bitmap_full :: "u64 list \<Rightarrow> nat \<Rightarrow> bool option" where
  "slow_bitmap_full bitmap bits = map_option Not (scan_bits (\<lambda>k. map_option NOT (aget bitmap (int k))) bits)"

text \<open>The inequality of two whole words is written as their exclusive or being nonzero.\<close>

definition slow_bitmap_equal :: "u64 list \<Rightarrow> u64 list \<Rightarrow> nat \<Rightarrow> bool option" where
  "slow_bitmap_equal bitmap1 bitmap2 bits = map_option Not (scan_bits (word2 (XOR) bitmap1 bitmap2) bits)"

definition slow_bitmap_intersects :: "u64 list \<Rightarrow> u64 list \<Rightarrow> nat \<Rightarrow> bool option" where
  "slow_bitmap_intersects bitmap1 bitmap2 bits = scan_bits (word2 (AND) bitmap1 bitmap2) bits"

definition slow_bitmap_complement :: "u64 list \<Rightarrow> u64 list \<Rightarrow> nat \<Rightarrow> u64 list option" where
  "slow_bitmap_complement dst src bits = do {
     (dst, _) \<leftarrow> store_words (\<lambda>k. map_option NOT (aget src (int k))) 0 (bits div 64) dst 0;
     if bits mod 64 \<noteq> 0 then do {
       w \<leftarrow> aget src (int (bits div 64));
       aset dst (int (bits div 64)) (NOT w AND BITMAP_LAST_WORD_MASK bits)
     }
     else Some dst
   }"

definition slow_bitmap_and :: "u64 list \<Rightarrow> u64 list \<Rightarrow> u64 list \<Rightarrow> nat \<Rightarrow> (u64 list \<times> bool) option" where
  "slow_bitmap_and dst bitmap1 bitmap2 bits =
     map_option (\<lambda>(d, r). (d, r \<noteq> 0)) (store_words (word2 (AND) bitmap1 bitmap2) 0 (BITS_TO_LONGS bits) dst 0)"

definition slow_bitmap_or :: "u64 list \<Rightarrow> u64 list \<Rightarrow> u64 list \<Rightarrow> nat \<Rightarrow> u64 list option" where
  "slow_bitmap_or dst bitmap1 bitmap2 bits =
     map_option fst (store_words (word2 (OR) bitmap1 bitmap2) 0 (BITS_TO_LONGS bits) dst 0)"

definition slow_bitmap_xor :: "u64 list \<Rightarrow> u64 list \<Rightarrow> u64 list \<Rightarrow> nat \<Rightarrow> u64 list option" where
  "slow_bitmap_xor dst bitmap1 bitmap2 bits =
     map_option fst (store_words (word2 (XOR) bitmap1 bitmap2) 0 (BITS_TO_LONGS bits) dst 0)"

definition slow_bitmap_andnot :: "u64 list \<Rightarrow> u64 list \<Rightarrow> u64 list \<Rightarrow> nat \<Rightarrow> (u64 list \<times> bool) option" where
  "slow_bitmap_andnot dst bitmap1 bitmap2 bits =
     map_option (\<lambda>(d, r). (d, r \<noteq> 0))
       (store_words (word2 (\<lambda>x y. x AND NOT y) bitmap1 bitmap2) 0 (BITS_TO_LONGS bits) dst 0)"

fun count_words :: "u64 list \<Rightarrow> nat \<Rightarrow> nat \<Rightarrow> nat \<Rightarrow> nat option" where
  "count_words bitmap k 0 result = Some result"
| "count_words bitmap k (Suc n) result = do {
     w \<leftarrow> aget bitmap (int k);
     count_words bitmap (Suc k) n (result + ctpopl w)
   }"

definition slow_bitmap_count_one :: "u64 list \<Rightarrow> nat \<Rightarrow> nat option" where
  "slow_bitmap_count_one bitmap nbits = do {
     result \<leftarrow> count_words bitmap 0 (nbits div 64) 0;
     if nbits mod 64 \<noteq> 0 then do {
       w \<leftarrow> aget bitmap (int (nbits div 64));
       Some (result + ctpopl (w AND BITMAP_LAST_WORD_MASK nbits))
     }
     else Some result
   }"

section \<open>Ranges of bits\<close>

text \<open>
  \<open>bitmap_set()\<close> and \<open>bitmap_clear()\<close> are one loop with a different update of the word: the first
  word from bit \<open>start % 64\<close> on, then whole words while they fit, then the partial word.
\<close>

function range_words :: "(u64 \<Rightarrow> u64 \<Rightarrow> u64) \<Rightarrow> nat \<Rightarrow> u64 list \<Rightarrow> nat \<Rightarrow> nat \<Rightarrow> nat \<Rightarrow> u64 \<Rightarrow> u64 list option" where
  "range_words upd sz m p nr bits msk =
     (if bits \<le> nr then do {
        w \<leftarrow> aget m (int p);
        m \<leftarrow> aset m (int p) (upd msk w);
        range_words upd sz m (p + 1) (nr - bits) 64 (-1)
      }
      else if nr \<noteq> 0 then do {
        w \<leftarrow> aget m (int p);
        aset m (int p) (upd (msk AND BITMAP_LAST_WORD_MASK sz) w)
      }
      else Some m)"
  by pat_completeness auto
termination
  by (relation "measure (\<lambda>(upd, sz, m, p, nr, bits, msk). 2 * nr + (if bits = 0 then 1 else 0))") auto

declare range_words.simps [simp del]

definition bitmap_set :: "u64 list \<Rightarrow> int \<Rightarrow> int \<Rightarrow> u64 list option" where
  "bitmap_set m start nr =
     (if 0 \<le> start \<and> 0 \<le> nr
      then range_words (\<lambda>msk x. x OR msk) (nat (start + nr)) m (nat start div 64) (nat nr)
        (64 - nat start mod 64) (BITMAP_FIRST_WORD_MASK (nat start))
      else None)"

definition bitmap_clear :: "u64 list \<Rightarrow> int \<Rightarrow> int \<Rightarrow> u64 list option" where
  "bitmap_clear m start nr =
     (if 0 \<le> start \<and> 0 \<le> nr
      then range_words (\<lambda>msk x. x AND NOT msk) (nat (start + nr)) m (nat start div 64) (nat nr)
        (64 - nat start mod 64) (BITMAP_FIRST_WORD_MASK (nat start))
      else None)"

text \<open>
  \<open>bitmap_set_atomic()\<close>, \<open>bitmap_test_and_clear()\<close> and \<open>bitmap_test_and_clear_atomic()\<close> have three
  phases: the first word when the range goes beyond it, then the whole words when the position is
  at a word boundary, then the rest.  They differ in the update of a word, and in the mask that is
  kept after the first phase (\<open>keep_mask\<close>): \<open>bitmap_set_atomic()\<close> and
  \<open>bitmap_test_and_clear_atomic()\<close> reset it to all ones, \<open>bitmap_test_and_clear()\<close> does not.
  \<open>dirty\<close> is whether a bit under a mask was set before its update.
\<close>

function whole_words :: "(u64 \<Rightarrow> u64 \<Rightarrow> u64) \<Rightarrow> u64 list \<Rightarrow> nat \<Rightarrow> nat \<Rightarrow> bool \<Rightarrow> (u64 list \<times> nat \<times> nat \<times> bool) option" where
  "whole_words upd m p nr dirty =
     (if 64 \<le> nr then do {
        w \<leftarrow> aget m (int p);
        m \<leftarrow> aset m (int p) (upd (-1) w);
        whole_words upd m (p + 1) (nr - 64) (dirty \<or> w \<noteq> 0)
      }
      else Some (m, p, nr, dirty))"
  by pat_completeness auto
termination
  by (relation "measure (\<lambda>(upd, m, p, nr, dirty). nr)") auto

declare whole_words.simps [simp del]

definition rest_word :: "(u64 \<Rightarrow> u64 \<Rightarrow> u64) \<Rightarrow> u64 \<Rightarrow> u64 list \<Rightarrow> nat \<Rightarrow> bool \<Rightarrow> (bool \<times> u64 list) option" where
  "rest_word upd msk m p dirty = do {
     w \<leftarrow> aget m (int p);
     m \<leftarrow> aset m (int p) (upd msk w);
     Some (dirty \<or> w AND msk \<noteq> 0, m)
   }"

definition range_phases :: "bool \<Rightarrow> (u64 \<Rightarrow> u64 \<Rightarrow> u64) \<Rightarrow> u64 list \<Rightarrow> int \<Rightarrow> int \<Rightarrow> (bool \<times> u64 list) option" where
  "range_phases keep_mask upd m start nr =
     (if 0 \<le> start \<and> 0 \<le> nr then do {
        let p = nat start div 64;
        let sz = nat (start + nr);
        let bits = 64 - nat start mod 64;
        let msk = BITMAP_FIRST_WORD_MASK (nat start);
        let nr = nat nr;
        (m, p, nr, bits, msk, dirty) \<leftarrow>
          (if bits < nr then do {
             w \<leftarrow> aget m (int p);
             m \<leftarrow> aset m (int p) (upd msk w);
             Some (m, p + 1, nr - bits, 64, if keep_mask then msk else -1, w AND msk \<noteq> 0)
           }
           else Some (m, p, nr, bits, msk, False));
        (m, p, nr, dirty) \<leftarrow> (if bits = 64 then whole_words upd m p nr dirty else Some (m, p, nr, dirty));
        if nr \<noteq> 0 then rest_word upd (msk AND BITMAP_LAST_WORD_MASK sz) m p dirty else Some (dirty, m)
      }
      else None)"

definition bitmap_set_atomic :: "u64 list \<Rightarrow> int \<Rightarrow> int \<Rightarrow> u64 list option" where
  "bitmap_set_atomic m start nr = map_option snd (range_phases False (\<lambda>msk x. x OR msk) m start nr)"

definition bitmap_test_and_clear :: "u64 list \<Rightarrow> int \<Rightarrow> int \<Rightarrow> (bool \<times> u64 list) option" where
  "bitmap_test_and_clear m start nr = range_phases True (\<lambda>msk x. x AND NOT msk) m start nr"

definition bitmap_test_and_clear_atomic :: "u64 list \<Rightarrow> int \<Rightarrow> int \<Rightarrow> (bool \<times> u64 list) option" where
  "bitmap_test_and_clear_atomic m start nr = range_phases False (\<lambda>msk x. x AND NOT msk) m start nr"

fun copy_clear_words :: "u64 list \<Rightarrow> u64 list \<Rightarrow> nat \<Rightarrow> nat \<Rightarrow> (u64 list \<times> u64 list) option" where
  "copy_clear_words dst src k 0 = Some (dst, src)"
| "copy_clear_words dst src k (Suc n) = do {
     w \<leftarrow> aget src (int k);
     src \<leftarrow> aset src (int k) 0;
     dst \<leftarrow> aset dst (int k) w;
     copy_clear_words dst src (Suc k) n
   }"

text \<open>The loop \<open>while (nr > 0) ... nr -= 64\<close> runs once per started word.\<close>

definition bitmap_copy_and_clear_atomic :: "u64 list \<Rightarrow> u64 list \<Rightarrow> nat \<Rightarrow> (u64 list \<times> u64 list) option" where
  "bitmap_copy_and_clear_atomic dst src nr = copy_clear_words dst src 0 (BITS_TO_LONGS nr)"

text \<open>\<open>ALIGN_MASK(x, mask)\<close>; the search for an aligned run of clear bits.\<close>

definition ALIGN_MASK :: "u64 \<Rightarrow> u64 \<Rightarrow> u64" where
  "ALIGN_MASK x msk = (x + msk) AND NOT msk"

partial_function (option) bitmap_find_next_zero_area :: "u64 list \<Rightarrow> u64 \<Rightarrow> u64 \<Rightarrow> u64 \<Rightarrow> u64 \<Rightarrow> u64 option" where
  "bitmap_find_next_zero_area m sz start nr align_mask = do {
     z \<leftarrow> find_next_zero_bit m (unat sz) (unat start);
     let index = ALIGN_MASK (of_nat z) align_mask;
     let e = index + nr;
     if sz < e then Some e
     else do {
       i \<leftarrow> find_next_bit m (unat e) (unat index);
       if of_nat i < e then bitmap_find_next_zero_area m sz (of_nat i + 1) nr align_mask
       else Some index
     }
   }"

section \<open>The inline operations of the header\<close>

text \<open>\<open>memset\<close> and \<open>memcpy\<close> of whole words, refused where they leave an array.\<close>

definition fill_words :: "u64 \<Rightarrow> nat \<Rightarrow> u64 list \<Rightarrow> u64 list option" where
  "fill_words v n dst = (if n \<le> length dst then Some (replicate n v @ drop n dst) else None)"

definition copy_words :: "u64 list \<Rightarrow> u64 list \<Rightarrow> nat \<Rightarrow> u64 list option" where
  "copy_words dst src n = (if n \<le> length dst \<and> n \<le> length src then Some (take n src @ drop n dst) else None)"

definition bitmap_new :: "nat \<Rightarrow> u64 list" where
  "bitmap_new nbits = replicate (BITS_TO_LONGS nbits) 0"

definition bitmap_zero :: "u64 list \<Rightarrow> nat \<Rightarrow> u64 list option" where
  "bitmap_zero dst nbits =
     (if small_nbits nbits then aset dst 0 0 else fill_words 0 (BITS_TO_LONGS nbits) dst)"

definition bitmap_fill :: "u64 list \<Rightarrow> nat \<Rightarrow> u64 list option" where
  "bitmap_fill dst nbits = do {
     let nlongs = BITS_TO_LONGS nbits;
     dst \<leftarrow> (if \<not> small_nbits nbits then fill_words (-1) (nlongs - 1) dst else Some dst);
     aset dst (int nlongs - 1) (BITMAP_LAST_WORD_MASK nbits)
   }"

definition bitmap_copy :: "u64 list \<Rightarrow> u64 list \<Rightarrow> nat \<Rightarrow> u64 list option" where
  "bitmap_copy dst src nbits =
     (if small_nbits nbits then do { w \<leftarrow> aget src 0; aset dst 0 w }
      else copy_words dst src (BITS_TO_LONGS nbits))"

text \<open>A bitmap of at most 64 bits is its first word.\<close>

definition store2 :: "(u64 \<Rightarrow> u64 \<Rightarrow> u64) \<Rightarrow> u64 list \<Rightarrow> u64 list \<Rightarrow> u64 list \<Rightarrow> (u64 list \<times> bool) option" where
  "store2 f dst src1 src2 = do { w \<leftarrow> word2 f src1 src2 0; dst \<leftarrow> aset dst 0 w; Some (dst, w \<noteq> 0) }"

definition bitmap_and :: "u64 list \<Rightarrow> u64 list \<Rightarrow> u64 list \<Rightarrow> nat \<Rightarrow> (u64 list \<times> bool) option" where
  "bitmap_and dst src1 src2 nbits =
     (if small_nbits nbits then store2 (AND) dst src1 src2 else slow_bitmap_and dst src1 src2 nbits)"

definition bitmap_or :: "u64 list \<Rightarrow> u64 list \<Rightarrow> u64 list \<Rightarrow> nat \<Rightarrow> u64 list option" where
  "bitmap_or dst src1 src2 nbits =
     (if small_nbits nbits then map_option fst (store2 (OR) dst src1 src2) else slow_bitmap_or dst src1 src2 nbits)"

definition bitmap_xor :: "u64 list \<Rightarrow> u64 list \<Rightarrow> u64 list \<Rightarrow> nat \<Rightarrow> u64 list option" where
  "bitmap_xor dst src1 src2 nbits =
     (if small_nbits nbits then map_option fst (store2 (XOR) dst src1 src2) else slow_bitmap_xor dst src1 src2 nbits)"

definition bitmap_andnot :: "u64 list \<Rightarrow> u64 list \<Rightarrow> u64 list \<Rightarrow> nat \<Rightarrow> (u64 list \<times> bool) option" where
  "bitmap_andnot dst src1 src2 nbits =
     (if small_nbits nbits then store2 (\<lambda>x y. x AND NOT y) dst src1 src2 else slow_bitmap_andnot dst src1 src2 nbits)"

definition bitmap_complement :: "u64 list \<Rightarrow> u64 list \<Rightarrow> nat \<Rightarrow> u64 list option" where
  "bitmap_complement dst src nbits =
     (if small_nbits nbits then do { w \<leftarrow> aget src 0; aset dst 0 (NOT w AND BITMAP_LAST_WORD_MASK nbits) }
      else slow_bitmap_complement dst src nbits)"

definition bitmap_equal :: "u64 list \<Rightarrow> u64 list \<Rightarrow> nat \<Rightarrow> bool option" where
  "bitmap_equal src1 src2 nbits =
     (if small_nbits nbits
      then do { w \<leftarrow> word2 (XOR) src1 src2 0; Some (w AND BITMAP_LAST_WORD_MASK nbits = 0) }
      else slow_bitmap_equal src1 src2 nbits)"

definition bitmap_empty :: "u64 list \<Rightarrow> nat \<Rightarrow> bool option" where
  "bitmap_empty src nbits =
     (if small_nbits nbits then do { w \<leftarrow> aget src 0; Some (w AND BITMAP_LAST_WORD_MASK nbits = 0) }
      else slow_bitmap_empty src nbits)"

definition bitmap_full :: "u64 list \<Rightarrow> nat \<Rightarrow> bool option" where
  "bitmap_full src nbits =
     (if small_nbits nbits then do { w \<leftarrow> aget src 0; Some (NOT w AND BITMAP_LAST_WORD_MASK nbits = 0) }
      else slow_bitmap_full src nbits)"

definition bitmap_intersects :: "u64 list \<Rightarrow> u64 list \<Rightarrow> nat \<Rightarrow> bool option" where
  "bitmap_intersects src1 src2 nbits =
     (if small_nbits nbits
      then do { w \<leftarrow> word2 (AND) src1 src2 0; Some (w AND BITMAP_LAST_WORD_MASK nbits \<noteq> 0) }
      else slow_bitmap_intersects src1 src2 nbits)"

definition bitmap_count_one :: "u64 list \<Rightarrow> nat \<Rightarrow> nat option" where
  "bitmap_count_one bitmap nbits =
     (if nbits = 0 then Some 0
      else if small_nbits nbits then do { w \<leftarrow> aget bitmap 0; Some (ctpopl (w AND BITMAP_LAST_WORD_MASK nbits)) }
      else slow_bitmap_count_one bitmap nbits)"

definition bitmap_count_one_with_offset :: "u64 list \<Rightarrow> nat \<Rightarrow> nat \<Rightarrow> int option" where
  "bitmap_count_one_with_offset bitmap offset nbits = do {
     let aligned_offset = offset div 64 * 64;
     let redundant_bits = offset - aligned_offset;
     let bits_to_count = nbits + redundant_bits;
     let bitmap_start = drop (aligned_offset div 64) bitmap;
     a \<leftarrow> bitmap_count_one bitmap_start bits_to_count;
     b \<leftarrow> bitmap_count_one bitmap_start redundant_bits;
     Some (int a - int b)
   }"

text \<open>\<open>g_renew()\<close> keeps the words that fit; the words it adds hold \<open>junk\<close>.\<close>

definition bitmap_zero_extend :: "(nat \<Rightarrow> u64) \<Rightarrow> u64 list \<Rightarrow> nat \<Rightarrow> nat \<Rightarrow> u64 list option" where
  "bitmap_zero_extend junk old old_nbits new_nbits =
     bitmap_clear (map (\<lambda>i. if i < length old then old ! i else junk i) [0..<BITS_TO_LONGS new_nbits])
       (int old_nbits) (int new_nbits - int old_nbits)"

text \<open>On a little-endian host.\<close>

definition bitmap_to_from_le :: "u64 list \<Rightarrow> u64 list \<Rightarrow> nat \<Rightarrow> u64 list option" where
  "bitmap_to_from_le dst src nbits = copy_words dst src (BITS_TO_LONGS nbits)"

definition bitmap_from_le :: "u64 list \<Rightarrow> u64 list \<Rightarrow> nat \<Rightarrow> u64 list option" where
  "bitmap_from_le dst src nbits = bitmap_to_from_le dst src nbits"

definition bitmap_to_le :: "u64 list \<Rightarrow> u64 list \<Rightarrow> nat \<Rightarrow> u64 list option" where
  "bitmap_to_le dst src nbits = bitmap_to_from_le dst src nbits"

section \<open>Copies at a bit offset\<close>

function copy_src_words :: "u64 list \<Rightarrow> nat \<Rightarrow> u64 list \<Rightarrow> nat \<Rightarrow> nat \<Rightarrow> nat \<Rightarrow> u64 list option" where
  "copy_src_words dst d src p shift nbits = do {
     let right_mask = push_bit shift 1 - 1;
     let left_mask = NOT right_mask;
     if 64 \<le> nbits then do {
       w \<leftarrow> aget src (int p);
       w1 \<leftarrow> aget src (int (p + 1));
       dst \<leftarrow> aset dst (int d) (drop_bit shift (w AND left_mask) OR push_bit (64 - shift) (w1 AND right_mask));
       copy_src_words dst (d + 1) src (p + 1) shift (nbits - 64)
     }
     else if 64 - shift < nbits then do {
       w \<leftarrow> aget src (int p);
       w1 \<leftarrow> aget src (int (p + 1));
       let last_mask = push_bit (nbits - (64 - shift)) 1 - 1;
       aset dst (int d) (drop_bit shift (w AND left_mask) OR push_bit (64 - shift) (w1 AND last_mask))
     }
     else if nbits \<noteq> 0 then do {
       w \<leftarrow> aget src (int p);
       let last_mask = push_bit nbits 1 - 1;
       aset dst (int d) (drop_bit shift w AND last_mask)
     }
     else Some dst
   }"
  by pat_completeness auto
termination
  by (relation "measure (\<lambda>(dst, d, src, p, shift, nbits). nbits)") auto

declare copy_src_words.simps [simp del]

definition bitmap_copy_with_src_offset :: "u64 list \<Rightarrow> u64 list \<Rightarrow> nat \<Rightarrow> nat \<Rightarrow> u64 list option" where
  "bitmap_copy_with_src_offset dst src shift nbits =
     (if shift mod 64 = 0 then bitmap_copy dst (drop (shift div 64) src) nbits
      else copy_src_words dst 0 src (shift div 64) (shift mod 64) nbits)"

function copy_dst_words :: "u64 list \<Rightarrow> nat \<Rightarrow> u64 list \<Rightarrow> nat \<Rightarrow> nat \<Rightarrow> nat \<Rightarrow> u64 list option" where
  "copy_dst_words dst d src p shift nbits = do {
     let right_mask = push_bit (64 - shift) 1 - 1;
     let left_mask = NOT right_mask;
     if 64 \<le> nbits then do {
       w \<leftarrow> aget src (int p);
       x \<leftarrow> aget dst (int d);
       dst \<leftarrow> aset dst (int d) (x OR push_bit shift (w AND right_mask));
       dst \<leftarrow> aset dst (int (d + 1)) (drop_bit (64 - shift) (w AND left_mask));
       copy_dst_words dst (d + 1) src (p + 1) shift (nbits - 64)
     }
     else if 64 - shift < nbits then do {
       w \<leftarrow> aget src (int p);
       x \<leftarrow> aget dst (int d);
       dst \<leftarrow> aset dst (int d) (x OR push_bit shift (w AND right_mask));
       let last_mask = push_bit (64 - shift) (push_bit (nbits - (64 - shift)) 1 - 1);
       aset dst (int (d + 1)) (drop_bit (64 - shift) (w AND last_mask))
     }
     else if nbits \<noteq> 0 then do {
       w \<leftarrow> aget src (int p);
       x \<leftarrow> aget dst (int d);
       let last_mask = push_bit nbits 1 - 1;
       aset dst (int d) (x OR push_bit shift (w AND last_mask))
     }
     else Some dst
   }"
  by pat_completeness auto
termination
  by (relation "measure (\<lambda>(dst, d, src, p, shift, nbits). nbits)") auto

declare copy_dst_words.simps [simp del]

definition bitmap_copy_with_dst_offset :: "u64 list \<Rightarrow> u64 list \<Rightarrow> nat \<Rightarrow> nat \<Rightarrow> u64 list option" where
  "bitmap_copy_with_dst_offset dst src shift nbits =
     (if shift mod 64 = 0
      then map_option (\<lambda>d. take (shift div 64) dst @ d) (bitmap_copy (drop (shift div 64) dst) src nbits)
      else do {
        x \<leftarrow> aget dst (int (shift div 64));
        dst \<leftarrow> aset dst (int (shift div 64)) (x AND (push_bit (shift mod 64) 1 - 1));
        copy_dst_words dst (shift div 64) src 0 (shift mod 64) nbits
      })"

section \<open>Range operations on the bits\<close>

lemma first_word_mask: "k < 64 \<Longrightarrow> bit (BITMAP_FIRST_WORD_MASK s) k \<longleftrightarrow> s mod 64 \<le> k"
  by (auto simp: BITMAP_FIRST_WORD_MASK_def bit_simps)

lemma last_word_mask: "k < 64 \<Longrightarrow> bit (BITMAP_LAST_WORD_MASK e) k \<longleftrightarrow> e mod 64 = 0 \<or> k < e mod 64"
proof (cases "e mod 64 = 0")
  case True
  then show "k < 64 \<Longrightarrow> ?thesis" by (simp add: BITMAP_LAST_WORD_MASK_def)
next
  case False
  then have "(64 - e mod 64) mod 64 = 64 - e mod 64" by simp
  moreover assume "k < 64"
  ultimately show ?thesis using False by (simp add: BITMAP_LAST_WORD_MASK_def bit_mask_iff)
qed

text \<open>Every bit of the bitmap in \<open>S\<close> is changed by \<open>f\<close>, and no other bit; some bit in \<open>S\<close> is set.\<close>

definition touched :: "(bool \<Rightarrow> bool \<Rightarrow> bool) \<Rightarrow> nat set \<Rightarrow> u64 list \<Rightarrow> u64 list \<Rightarrow> bool" where
  "touched f S m t \<longleftrightarrow> length t = length m \<and> (\<forall>j < bm_cap m. bm_bit t j = f (j \<in> S) (bm_bit m j))"

definition some_set :: "nat set \<Rightarrow> u64 list \<Rightarrow> bool" where
  "some_set S m \<longleftrightarrow> (\<exists>j \<in> S. bm_bit m j)"

lemma some_set_word:
  assumes "\<And>k. k < 64 \<Longrightarrow> bit msk k \<longleftrightarrow> 64 * p + k \<in> S" "\<And>j. j \<in> S \<Longrightarrow> j div 64 = p"
  shows "m ! p AND msk \<noteq> 0 \<longleftrightarrow> some_set S m"
proof -
  have "m ! p AND msk \<noteq> 0 \<longleftrightarrow> (\<exists>k < 64. bit (m ! p) k \<and> 64 * p + k \<in> S)"
    using assms(1) by (auto simp: bit_eq_iff bit_and_iff dest: bit_imp_le_length)
  also have "\<dots> \<longleftrightarrow> some_set S m"
    unfolding some_set_def
  proof (intro iffI; elim exE bexE)
    fix k assume "k < 64 \<and> bit (m ! p) k \<and> 64 * p + k \<in> S"
    then show "\<exists>j \<in> S. bm_bit m j" by (intro bexI [of _ "64 * p + k"]) (simp_all add: bm_bit_word)
  next
    fix j assume "j \<in> S" "bm_bit m j"
    with assms(2) [of j] have "j = 64 * p + j mod 64" "bit (m ! p) (j mod 64)" by (auto simp: bm_bit_def)
    with \<open>j \<in> S\<close> show "\<exists>k < 64. bit (m ! p) k \<and> 64 * p + k \<in> S" by (intro exI [of _ "j mod 64"]) simp
  qed
  finally show ?thesis .
qed

text \<open>The words a range of bits covers: its first word, its last word, a word between them.\<close>

lemma first_word:
  "k < 64 \<Longrightarrow> r < 64 \<Longrightarrow> bit (BITMAP_FIRST_WORD_MASK (64 * p + r)) k \<longleftrightarrow> 64 * p + k \<in> {64 * p + r..<64 * p + 64}"
  by (simp add: first_word_mask)

lemma partial_word:
  assumes "k < 64" "r < 64" "0 < l" "l \<le> 64"
  shows "bit (BITMAP_FIRST_WORD_MASK (64 * q + r) AND BITMAP_LAST_WORD_MASK (64 * p + l)) k \<longleftrightarrow>
    64 * p + k \<in> {64 * p + r..<64 * p + l}"
proof (cases "l = 64")
  case True
  then show ?thesis using assms by (auto simp: bit_and_iff first_word_mask last_word_mask)
next
  case False
  then show ?thesis using assms by (auto simp: bit_and_iff first_word_mask last_word_mask)
qed

lemma first_word_aligned: "BITMAP_FIRST_WORD_MASK (64 * p) = -1"
  by (simp add: BITMAP_FIRST_WORD_MASK_def)

lemma word_of_range: "j \<in> {64 * p + r..<64 * p + l} \<Longrightarrow> l \<le> 64 \<Longrightarrow> j div 64 = (p :: nat)"
  by (auto intro!: div_nat_eqI)

lemma range_phases_nat:
  "range_phases keep upd m (int s) (int nr) =
     do {
        (m, p, n, bits, msk, dirty) \<leftarrow>
          (if 64 - s mod 64 < nr then do {
             w \<leftarrow> aget m (int (s div 64));
             m \<leftarrow> aset m (int (s div 64)) (upd (BITMAP_FIRST_WORD_MASK s) w);
             Some (m, s div 64 + 1, nr - (64 - s mod 64), 64, if keep then BITMAP_FIRST_WORD_MASK s else -1,
               w AND BITMAP_FIRST_WORD_MASK s \<noteq> 0)
           }
           else Some (m, s div 64, nr, 64 - s mod 64, BITMAP_FIRST_WORD_MASK s, False));
        (m, p, n, dirty) \<leftarrow> (if bits = 64 then whole_words upd m p n dirty else Some (m, p, n, dirty));
        if n \<noteq> 0 then rest_word upd (msk AND BITMAP_LAST_WORD_MASK (s + nr)) m p dirty else Some (dirty, m)
      }"
  by (simp add: range_phases_def Let_def nat_int_add)

text \<open>The bits that keeping the first word's mask for the last word leaves out.\<close>

definition skipped :: "nat \<Rightarrow> nat \<Rightarrow> nat set" where
  "skipped s e = (if s div 64 < e div 64 then {64 * (e div 64)..<64 * (e div 64) + s mod 64} else {})"

text \<open>
  The contract of an update of a word under a mask: bit by bit, the bits outside the mask are
  kept, and two updates amount to one under the union of the masks.
\<close>

locale masked_update =
  fixes upd :: "u64 \<Rightarrow> u64 \<Rightarrow> u64" and f :: "bool \<Rightarrow> bool \<Rightarrow> bool"
  assumes upd_bit: "k < 64 \<Longrightarrow> bit (upd msk x) k = f (bit msk k) (bit x k)"
    and f_id: "f False b = b"
    and f_twice: "f a (f b c) = f (a \<or> b) c"
begin

lemma touched_none: "touched f {} m m"
  by (simp add: touched_def f_id)

lemma touched_trans: "touched f S m t \<Longrightarrow> touched f T t u \<Longrightarrow> S \<union> T = R \<Longrightarrow> touched f R m u"
  by (auto simp: touched_def f_twice bm_cap_def disj_commute)

lemma touched_cap: "touched f S m t \<Longrightarrow> bm_cap t = bm_cap m \<and> length t = length m"
  by (simp add: touched_def bm_cap_def)

lemma touched_bit: "touched f S m t \<Longrightarrow> j < bm_cap m \<Longrightarrow> j \<notin> S \<Longrightarrow> bm_bit t j = bm_bit m j"
  by (simp add: touched_def f_id)

lemma touched_word:
  assumes "p < length m" "\<And>k. k < 64 \<Longrightarrow> bit msk k \<longleftrightarrow> 64 * p + k \<in> S" "\<And>j. j \<in> S \<Longrightarrow> j div 64 = p"
  shows "touched f S m (m[p := upd msk (m ! p)])"
  unfolding touched_def
proof (intro conjI allI impI)
  show "length (m[p := upd msk (m ! p)]) = length m" by simp
  fix j assume "j < bm_cap m"
  then have lt: "j div 64 < length m" by (simp add: bm_cap_def less_mult_imp_div_less)
  show "bm_bit (m[p := upd msk (m ! p)]) j = f (j \<in> S) (bm_bit m j)"
  proof (cases "j div 64 = p")
    case True
    then have "bit msk (j mod 64) \<longleftrightarrow> j \<in> S" using assms(2) [of "j mod 64"] by (simp flip: True)
    with True assms(1) show ?thesis by (simp add: bm_bit_def upd_bit)
  next
    case False
    then have "j \<notin> S" using assms(3) by auto
    with False show ?thesis by (simp add: bm_bit_def f_id)
  qed
qed

text \<open>The loop of \<open>bitmap_set()\<close> and \<open>bitmap_clear()\<close>, from any position.\<close>

lemma range_words_touched:
  "r < 64 \<Longrightarrow> 64 * p + r + nr \<le> bm_cap m \<Longrightarrow>
   \<exists>t. range_words upd (64 * p + r + nr) m p nr (64 - r) (BITMAP_FIRST_WORD_MASK (64 * p + r)) = Some t \<and>
       touched f {64 * p + r..<64 * p + r + nr} m t"
proof (induction nr arbitrary: m p r rule: less_induct)
  case (less nr)
  let ?M = "BITMAP_FIRST_WORD_MASK (64 * p + r)"
  have p: "p < length m" if "0 < nr" using less.prems that by (simp add: bm_cap_def)
  consider "64 - r \<le> nr" | "nr < 64 - r" "nr \<noteq> 0" | "nr = 0" by linarith
  then show ?case
  proof cases
    case 1
    then have pos: "0 < nr" using less.prems by simp
    let ?m = "m[p := upd ?M (m ! p)]"
    have t: "touched f {64 * p + r..<64 * p + 64} m ?m"
      by (rule touched_word) (use less.prems p pos first_word word_of_range in auto)
    have e: "64 * (p + 1) + 0 + (nr - (64 - r)) = 64 * p + r + nr" using 1 less.prems by simp
    have lt: "nr - (64 - r) < nr" "64 * p + r + nr \<le> bm_cap ?m"
      using less.prems 1 pos touched_cap [OF t] by linarith+
    obtain u where u: "range_words upd (64 * p + r + nr) ?m (p + 1) (nr - (64 - r)) 64 (-1) = Some u"
      "touched f {64 * (p + 1)..<64 * p + r + nr} ?m u"
      using less.IH [OF lt(1), of 0 "p + 1" ?m, unfolded e, OF _ lt(2)] first_word_aligned [of "p + 1"] by auto
    from t u(2) have "touched f {64 * p + r..<64 * p + r + nr} m u"
      by (rule touched_trans) (use 1 less.prems in auto)
    with u(1) 1 p pos show ?thesis by (subst range_words.simps) (simp add: array_simps)
  next
    case 2
    have "touched f {64 * p + r..<64 * p + (r + nr)} m (m[p := upd (?M AND BITMAP_LAST_WORD_MASK (64 * p + (r + nr))) (m ! p)])"
      by (rule touched_word) (use 2 p less.prems partial_word [of _ r "r + nr" p p] word_of_range [of _ p r "r + nr"] in auto)
    with 2 p show ?thesis by (subst range_words.simps) (simp add: array_simps add.assoc)
  next
    case 3
    with less.prems show ?thesis by (subst range_words.simps) (simp add: touched_none)
  qed
qed

lemma some_set_touched:
  "touched f S m t \<Longrightarrow> T \<inter> S = {} \<Longrightarrow> T \<subseteq> {..<bm_cap m} \<Longrightarrow> some_set T t = some_set T m"
  using touched_bit [of S m t] unfolding some_set_def by blast

text \<open>The whole words, and the three phases.\<close>

lemma whole_words_touched:
  "64 * p + nr \<le> bm_cap m \<Longrightarrow>
   \<exists>t. whole_words upd m p nr d =
         Some (t, p + nr div 64, nr mod 64, d \<or> some_set {64 * p..<64 * (p + nr div 64)} m) \<and>
       touched f {64 * p..<64 * (p + nr div 64)} m t"
proof (induction nr arbitrary: m p d rule: less_induct)
  case (less nr)
  show ?case
  proof (cases "64 \<le> nr")
    case True
    let ?S = "{64 * p + 0..<64 * p + 64}" and ?T = "{64 * (p + 1)..<64 * (p + nr div 64)}"
    let ?m = "m[p := upd (-1) (m ! p)]" and ?d = "d \<or> m ! p \<noteq> 0"
    have p: "p < length m" using less.prems True by (simp add: bm_cap_def)
    have t: "touched f ?S m ?m"
      by (rule touched_word) (use p word_of_range [of _ p 0 64] in auto)
    have hit: "m ! p \<noteq> 0 \<longleftrightarrow> some_set ?S m"
      using some_set_word [of "-1" p ?S m] word_of_range [of _ p 0 64] by auto
    have q: "p + 1 + (nr - 64) div 64 = p + nr div 64" "(nr - 64) mod 64 = nr mod 64"
      using True by (simp_all add: le_div_geq le_mod_geq)
    have lt: "nr - 64 < nr" "64 * (p + 1) + (nr - 64) \<le> bm_cap ?m"
      using less.prems True touched_cap [OF t] by auto
    obtain u where u: "whole_words upd ?m (p + 1) (nr - 64) ?d =
         Some (u, p + nr div 64, nr mod 64, ?d \<or> some_set ?T ?m)" "touched f ?T ?m u"
      using less.IH [OF lt(1), of "p + 1" ?m ?d, OF lt(2), unfolded q] by auto
    have c: "64 * (p + nr div 64) \<le> bm_cap m" using less.prems times_div_less_eq_dividend [of 64 nr] by (simp add: distrib_left)
    have "some_set ?T ?m = some_set ?T m"
      by (rule some_set_touched [OF t]) (use c in auto)
    moreover have "0 < nr div 64" using True by (simp add: div_greater_zero_iff)
    then have un: "?S \<union> ?T = {64 * p..<64 * (p + nr div 64)}" by auto
    then have "some_set {64 * p..<64 * (p + nr div 64)} m \<longleftrightarrow> some_set ?S m \<or> some_set ?T m"
      unfolding some_set_def by blast
    moreover have "touched f {64 * p..<64 * (p + nr div 64)} m u" using t u(2) un by (rule touched_trans)
    ultimately show ?thesis
      using u(1) p True hit by (subst whole_words.simps) (simp add: array_simps disj_assoc)
  next
    case False
    then show ?thesis by (subst whole_words.simps) (simp add: touched_none some_set_def)
  qed
qed

lemma rest_touched:
  assumes "r < 64" "l \<le> 64" "64 * p + l \<le> bm_cap m"
  shows "\<exists>t. (if l \<noteq> 0 then rest_word upd (BITMAP_FIRST_WORD_MASK (64 * q + r) AND BITMAP_LAST_WORD_MASK (64 * p + l)) m p d
        else Some (d, m)) = Some (d \<or> some_set {64 * p + r..<64 * p + l} m, t) \<and>
    touched f {64 * p + r..<64 * p + l} m t"
proof (cases "l = 0")
  case True
  then show ?thesis by (simp add: some_set_def touched_none)
next
  case False
  then have p: "p < length m" using assms(3) by (simp add: bm_cap_def)
  let ?M = "BITMAP_FIRST_WORD_MASK (64 * q + r) AND BITMAP_LAST_WORD_MASK (64 * p + l)" and ?S = "{64 * p + r..<64 * p + l}"
  have bits: "bit ?M k \<longleftrightarrow> 64 * p + k \<in> ?S" if "k < 64" for k
    using partial_word [of k r l q p] that assms False by simp
  have inw: "j div 64 = p" if "j \<in> ?S" for j using word_of_range [OF that assms(2)] .
  show ?thesis
    using touched_word [OF p, of ?M ?S, OF bits inw] some_set_word [of ?M p ?S m, OF bits inw] False p
    by (simp add: rest_word_def array_simps)
qed

lemma range_phases_long:
  assumes r: "r < 64" and nr: "64 - r < nr" and cap: "64 * p + r + nr \<le> bm_cap m"
    and S: "S = {64 * p + r..<64 * p + r + nr} - (if keep then skipped (64 * p + r) (64 * p + r + nr) else {})"
  shows "\<exists>t. range_phases keep upd m (int (64 * p + r)) (int nr) = Some (some_set S m, t) \<and> touched f S m t"
proof -
  define n q l lo where "n = nr - (64 - r)" and "q = p + 1 + n div 64" and "l = n mod 64" and "lo = (if keep then r else 0)"
  let ?M = "BITMAP_FIRST_WORD_MASK (64 * p + r)"
  let ?A = "{64 * p + r..<64 * p + 64}" and ?B = "{64 * (p + 1)..<64 * q}" and ?C = "{64 * q + lo..<64 * q + l}"
  let ?m = "m[p := upd ?M (m ! p)]"
  have n: "n + 64 = nr + r" using r nr by (simp add: n_def)
  have "64 * (n div 64) + l = n" by (simp add: l_def)
  moreover have "64 * q = 64 * p + 64 + 64 * (n div 64)" by (simp add: q_def)
  ultimately have e: "64 * p + r + nr = 64 * q + l" using n by linarith
  have l: "l < 64" "lo < 64" by (simp_all add: l_def lo_def r)
  have p: "p < length m" using cap nr r by (simp add: bm_cap_def)
  have a: "touched f ?A m ?m"
    by (rule touched_word) (use r p first_word word_of_range [of _ p r 64] in auto)
  have hit: "m ! p AND ?M \<noteq> 0 \<longleftrightarrow> some_set ?A m"
    by (rule some_set_word) (use r first_word word_of_range [of _ p r 64] in auto)
  define d where "d \<longleftrightarrow> m ! p AND ?M \<noteq> 0"
  have "64 * (p + 1) + n \<le> bm_cap ?m" using cap n touched_cap [OF a] by simp
  from whole_words_touched [OF this, of d] obtain t where t:
    "whole_words upd ?m (p + 1) n d = Some (t, q, l, d \<or> some_set ?B ?m)" "touched f ?B ?m t"
    by (auto simp: q_def l_def)
  have caps: "bm_cap t = bm_cap m" using touched_cap [OF a] touched_cap [OF t(2)] by simp
  let ?K = "if keep then ?M else -1"
  have K: "?K = BITMAP_FIRST_WORD_MASK (64 * p + lo)" by (simp add: lo_def first_word_aligned)
  obtain u where u: "(if l \<noteq> 0 then rest_word upd (?K AND BITMAP_LAST_WORD_MASK (64 * q + l)) t q (d \<or> some_set ?B ?m)
      else Some (d \<or> some_set ?B ?m, t)) = Some ((d \<or> some_set ?B ?m) \<or> some_set ?C t, u)" "touched f ?C t u"
    using rest_touched [of lo l q t p "d \<or> some_set ?B ?m"] l cap e caps unfolding K by auto
  have run: "range_phases keep upd m (int (64 * p + r)) (int nr) = Some ((d \<or> some_set ?B ?m) \<or> some_set ?C t, u)"
    unfolding u(1) [symmetric] range_phases_nat e using t(1) p r nr
    by (simp add: array_simps n_def [symmetric] d_def [symmetric] del: of_nat_Suc)
  have b: "some_set ?B ?m = some_set ?B m" by (rule some_set_touched [OF a]) (use cap e in auto)
  have ab: "touched f (?A \<union> ?B) m t" using a t(2) by (rule touched_trans) simp
  have c: "some_set ?C t = some_set ?C m" by (rule some_set_touched [OF ab]) (use cap e in \<open>auto simp: q_def\<close>)
  have "(64 * p + r) div 64 = p" "(64 * p + r) mod 64 = r" "(64 * q + l) div 64 = q" using r l by simp_all
  then have un: "?A \<union> ?B \<union> ?C = S"
    unfolding S e using r nr l by (auto simp: skipped_def lo_def q_def)
  have "touched f S m u" using touched_trans [OF ab u(2) un] .
  moreover have "((d \<or> some_set ?B ?m) \<or> some_set ?C t) = some_set S m"
    unfolding un [symmetric] b c d_def hit by (auto simp: some_set_def)
  ultimately show ?thesis using run by simp
qed

lemma range_phases_short:
  assumes r: "r < 64" and nr: "nr \<le> 64 - r" and cap: "64 * p + r + nr \<le> bm_cap m"
    and S: "S = {64 * p + r..<64 * p + r + nr}"
  shows "\<exists>t. range_phases keep upd m (int (64 * p + r)) (int nr) = Some (some_set S m, t) \<and> touched f S m t"
proof (cases "r = 0")
  case True
  define q l where "q = p + nr div 64" and "l = nr mod 64"
  have e: "64 * p + nr = 64 * q + l" by (simp add: q_def l_def)
  let ?B = "{64 * p..<64 * q}" and ?C = "{64 * q + 0..<64 * q + l}"
  obtain t where t: "whole_words upd m p nr False = Some (t, q, l, some_set ?B m)" "touched f ?B m t"
    using whole_words_touched [of p nr m False] cap True by (auto simp: q_def l_def)
  obtain u where u: "(if l \<noteq> 0 then rest_word upd (BITMAP_FIRST_WORD_MASK (64 * p + 0) AND BITMAP_LAST_WORD_MASK (64 * q + l)) t q (some_set ?B m)
      else Some (some_set ?B m, t)) = Some (some_set ?B m \<or> some_set ?C t, u)" "touched f ?C t u"
    using rest_touched [of 0 l q t p "some_set ?B m"] cap True e touched_cap [OF t(2)] by (auto simp: l_def)
  have run: "range_phases keep upd m (int (64 * p + r)) (int nr) = Some (some_set ?B m \<or> some_set ?C t, u)"
    unfolding u(1) [symmetric] range_phases_nat True using t(1) nr True e by simp
  have c: "some_set ?C t = some_set ?C m" by (rule some_set_touched [OF t(2)]) (use cap e True in auto)
  have "?B \<union> ?C = {64 * p..<64 * p + nr}" unfolding e by (auto simp: q_def)
  then have un: "?B \<union> ?C = S" using S True by simp
  have "touched f S m u" using touched_trans [OF t(2) u(2) un] .
  moreover have "(some_set ?B m \<or> some_set ?C t) = some_set S m"
    unfolding un [symmetric] c by (auto simp: some_set_def)
  ultimately show ?thesis using run by simp
next
  case False
  show ?thesis
  proof (cases "nr = 0")
    case True
    moreover have "64 - r \<noteq> 64" using r False by simp
    ultimately show ?thesis using r unfolding range_phases_nat by (simp add: S touched_none some_set_def)
  next
    case nz: False
    have "64 - r \<noteq> 64" "\<not> 64 - r < nr" using False r nr by simp_all
    with False nz r rest_touched [of r "r + nr" p m p False] nr cap show ?thesis
      unfolding range_phases_nat by (simp add: S add.assoc)
  qed
qed

lemma range_phases_touched:
  fixes s nr :: nat
  assumes "s + nr \<le> bm_cap m" "S = {s..<s + nr} - (if keep then skipped s (s + nr) else {})"
  shows "\<exists>t. range_phases keep upd m (int s) (int nr) = Some (some_set S m, t) \<and> touched f S m t"
proof -
  define p r where "p = s div 64" and "r = s mod 64"
  have s: "s = 64 * p + r" "r < 64" by (simp_all add: p_def r_def)
  show ?thesis
  proof (cases "64 - r < nr")
    case True
    then show ?thesis using assms unfolding s(1) by (intro range_phases_long [OF s(2)])
  next
    case False
    then have "(s + nr) div 64 \<le> p + 1" using s by (simp add: div_le_mono [of _ "64 * (p + 1)" 64, simplified])
    then have "{s..<s + nr} \<inter> skipped s (s + nr) = {}"
      using False s by (auto simp: skipped_def p_def [symmetric])
    then have "S = {s..<s + nr}" using assms(2) by auto
    with False assms(1) show ?thesis unfolding s(1) by (intro range_phases_short [OF s(2)]) simp_all
  qed
qed

end

interpretation set_bits: masked_update "\<lambda>msk x. x OR msk" "(\<or>)"
  by unfold_locales (auto simp: bit_simps)

interpretation clear_bits: masked_update "\<lambda>msk x. x AND NOT msk" "\<lambda>a b. \<not> a \<and> b"
  by unfold_locales (auto simp: bit_simps)

lemma bm_eqI:
  assumes "length t = length (u :: u64 list)" "\<And>j. j < bm_cap t \<Longrightarrow> bm_bit t j = bm_bit u j"
  shows "t = u"
proof (rule nth_equalityI [OF assms(1)])
  fix i assume i: "i < length t"
  show "t ! i = u ! i"
  proof (rule bit_word_eqI)
    fix k assume "k < LENGTH(64)"
    moreover from this i have "64 * i + k < bm_cap t" by (simp add: bm_cap_def)
    ultimately show "bit (t ! i) k = bit (u ! i) k" using assms(2) [of "64 * i + k"] by (simp add: bm_bit_word)
  qed
qed

lemma touched_unique: "touched f S m t \<Longrightarrow> touched f S m u \<Longrightarrow> t = u"
  by (rule bm_eqI) (auto simp: touched_def bm_cap_def)

lemma range_words_correct:
  fixes s nr :: nat
  assumes "s + nr \<le> bm_cap m"
  shows "\<exists>t. bitmap_set m (int s) (int nr) = Some t \<and> touched (\<or>) {s..<s + nr} m t"
    and "\<exists>t. bitmap_clear m (int s) (int nr) = Some t \<and> touched (\<lambda>a b. \<not> a \<and> b) {s..<s + nr} m t"
  using set_bits.range_words_touched [of "s mod 64" "s div 64" nr m]
    clear_bits.range_words_touched [of "s mod 64" "s div 64" nr m] assms
  by (simp_all add: bitmap_set_def bitmap_clear_def nat_int_add)

section \<open>Comparisons and counts\<close>

text \<open>The words of a bitmap-valued function, tested up to a bit position.\<close>

lemma scan_words_some:
  "(\<And>k. a \<le> k \<Longrightarrow> k < a + n \<Longrightarrow> g k = Some (h k)) \<Longrightarrow> scan_words g a n = Some (\<exists>k. a \<le> k \<and> k < a + n \<and> h k)"
proof (induction n arbitrary: a)
  case 0
  then show ?case by simp
next
  case (Suc n)
  have "scan_words g (Suc a) n = Some (\<exists>k. Suc a \<le> k \<and> k < Suc a + n \<and> h k)" by (rule Suc.IH) (use Suc.prems in simp)
  moreover have "(\<exists>k. a \<le> k \<and> k < a + Suc n \<and> h k) \<longleftrightarrow> h a \<or> (\<exists>k. Suc a \<le> k \<and> k < Suc a + n \<and> h k)"
    by (metis Suc_leD Suc_leI add_Suc_right add_Suc le_eq_less_or_eq less_add_Suc1)
  moreover have "g a = Some (h a)" using Suc.prems by simp
  ultimately show ?case by simp
qed

lemma word_nonzero: "x \<noteq> 0 \<longleftrightarrow> (\<exists>i < 64. bit (x :: u64) i)"
  by (auto simp: bit_eq_iff dest: bit_imp_le_length)

lemma scan_bits_some:
  assumes g: "\<And>k. k < BITS_TO_LONGS n \<Longrightarrow> g k = Some (w k)"
  shows "scan_bits g n = Some (\<exists>j < n. bit (w (j div 64)) (j mod 64))"
proof -
  define q r where "q = n div 64" and "r = n mod 64"
  have n: "n = 64 * q + r" "r < 64" by (simp_all add: q_def r_def)
  have up: "BITS_TO_LONGS n = (if r = 0 then q else Suc q)" using n by (auto simp: BITS_TO_LONGS_def)
  have gk: "g k = Some (w k)" if "k < q \<or> k = q \<and> 0 < r" for k using g [of k] that by (auto simp: up)
  have "bit (BITMAP_LAST_WORD_MASK n) i \<longleftrightarrow> i < r" if "0 < r" "i < 64" for i
    using last_word_mask [of i n] that unfolding r_def [symmetric] by simp
  then have lz: "w q AND BITMAP_LAST_WORD_MASK n \<noteq> 0 \<longleftrightarrow> (\<exists>i < r. bit (w q) i)" if "0 < r"
    using that n(2) unfolding word_nonzero bit_and_iff by (meson less_trans)
  have whole: "scan_words (\<lambda>k. do { x \<leftarrow> g k; Some (x \<noteq> 0) }) 0 q = Some (\<exists>k < q. w k \<noteq> 0)"
    using scan_words_some [of 0 q "\<lambda>k. do { x \<leftarrow> g k; Some (x \<noteq> 0) }" "\<lambda>k. w k \<noteq> 0"] gk by simp
  have "(\<exists>j < n. bit (w (j div 64)) (j mod 64)) \<longleftrightarrow> (\<exists>k < q. \<exists>i < 64. bit (w k) i) \<or> (\<exists>i < r. bit (w q) i)"
  proof (intro iffI; elim exE conjE disjE)
    fix j assume j: "j < n" "bit (w (j div 64)) (j mod 64)"
    have "j div 64 < q \<or> j div 64 = q \<and> j mod 64 < r"
      using j(1) n split_offset(2) [of j] by (metis add_less_cancel_left div_le_mono div_less_iff_less_mult le_neq_implies_less less_imp_le q_def)
    then show "(\<exists>k < q. \<exists>i < 64. bit (w k) i) \<or> (\<exists>i < r. bit (w q) i)"
      using j(2) by (metis mod_less_divisor zero_less_numeral)
  next
    fix k i assume "k < q" "(i :: nat) < 64" "bit (w k) i"
    then show "\<exists>j < n. bit (w (j div 64)) (j mod 64)" using n by (intro exI [of _ "64 * k + i"]) simp
  next
    fix i assume "i < r" "bit (w q) i"
    then show "\<exists>j < n. bit (w (j div 64)) (j mod 64)" using n by (intro exI [of _ "64 * q + i"]) simp
  qed
  also have "\<dots> \<longleftrightarrow> (\<exists>k < q. w k \<noteq> 0) \<or> r \<noteq> 0 \<and> w q AND BITMAP_LAST_WORD_MASK n \<noteq> 0"
    using lz word_nonzero by (cases "r = 0") simp_all
  finally show ?thesis
    using whole gk [of q] unfolding scan_bits_def q_def [symmetric] r_def [symmetric] by auto
qed

lemma small_scan:
  assumes "0 < n" "n \<le> 64" "g 0 = Some x"
  shows "scan_bits g n = Some (x AND BITMAP_LAST_WORD_MASK n \<noteq> 0)"
proof (cases "n = 64")
  case True
  have "BITMAP_LAST_WORD_MASK 64 = -1" by (simp add: BITMAP_LAST_WORD_MASK_def)
  with True assms show ?thesis by (simp add: scan_bits_def)
next
  case False
  with assms show ?thesis by (simp add: scan_bits_def)
qed

lemma longs_in: "k < BITS_TO_LONGS n \<Longrightarrow> n \<le> bm_cap (m :: u64 list) \<Longrightarrow> k < length m"
  by (auto simp: BITS_TO_LONGS_def bm_cap_def)

lemma inline_is_slow:
  assumes "0 < n" "a \<noteq> []" "b \<noteq> []"
  shows "bitmap_empty a n = slow_bitmap_empty a n" "bitmap_full a n = slow_bitmap_full a n"
    "bitmap_equal a b n = slow_bitmap_equal a b n" "bitmap_intersects a b n = slow_bitmap_intersects a b n"
proof -
  have g: "aget a 0 = Some (a ! 0)" "aget b 0 = Some (b ! 0)" using assms by (simp_all add: aget_def)
  have w: "word2 f a b 0 = Some (f (a ! 0) (b ! 0))" for f by (simp add: word2_def g)
  note small = small_scan [OF assms(1)]
  show "bitmap_empty a n = slow_bitmap_empty a n"
    using small [of "\<lambda>k. aget a (int k)"] g by (auto simp: bitmap_empty_def slow_bitmap_empty_def small_nbits_def)
  show "bitmap_full a n = slow_bitmap_full a n"
    using small [of "\<lambda>k. map_option NOT (aget a (int k))"] g by (auto simp: bitmap_full_def slow_bitmap_full_def small_nbits_def)
  show "bitmap_equal a b n = slow_bitmap_equal a b n"
    using small [of "word2 (XOR) a b"] w by (auto simp: bitmap_equal_def slow_bitmap_equal_def small_nbits_def)
  show "bitmap_intersects a b n = slow_bitmap_intersects a b n"
    using small [of "word2 (AND) a b"] w by (auto simp: bitmap_intersects_def slow_bitmap_intersects_def small_nbits_def)
qed

lemma slow_scans:
  assumes "n \<le> bm_cap a" "n \<le> bm_cap b"
  shows "slow_bitmap_empty a n = Some (\<forall>j < n. \<not> bm_bit a j)"
    "slow_bitmap_full a n = Some (\<forall>j < n. bm_bit a j)"
    "slow_bitmap_equal a b n = Some (\<forall>j < n. bm_bit a j = bm_bit b j)"
    "slow_bitmap_intersects a b n = Some (\<exists>j < n. bm_bit a j \<and> bm_bit b j)"
proof -
  have g: "aget a (int k) = Some (a ! k)" "aget b (int k) = Some (b ! k)" if "k < BITS_TO_LONGS n" for k
    using longs_in [OF that] assms by (simp_all add: array_simps)
  have w: "word2 f a b k = Some (f (a ! k) (b ! k))" if "k < BITS_TO_LONGS n" for k f
    using g [OF that] by (simp add: word2_def)
  show "slow_bitmap_empty a n = Some (\<forall>j < n. \<not> bm_bit a j)"
    unfolding slow_bitmap_empty_def by (subst scan_bits_some [OF g(1)]) (auto simp: bm_bit_def)
  show "slow_bitmap_full a n = Some (\<forall>j < n. bm_bit a j)"
    unfolding slow_bitmap_full_def
    by (subst scan_bits_some [where w = "\<lambda>k. NOT (a ! k)"]) (auto simp: g bm_bit_def bit_not_iff)
  show "slow_bitmap_equal a b n = Some (\<forall>j < n. bm_bit a j = bm_bit b j)"
    unfolding slow_bitmap_equal_def by (subst scan_bits_some [OF w]) (auto simp: bm_bit_def bit_xor_iff)
  show "slow_bitmap_intersects a b n = Some (\<exists>j < n. bm_bit a j \<and> bm_bit b j)"
    unfolding slow_bitmap_intersects_def by (subst scan_bits_some [OF w]) (auto simp: bm_bit_def bit_and_iff)
qed

text \<open>The number of set bits in a range of positions.\<close>

definition ones :: "u64 list \<Rightarrow> nat \<Rightarrow> nat \<Rightarrow> nat" where
  "ones m a b = card {j. a \<le> j \<and> j < b \<and> bm_bit m j}"

lemma ones_split: "a \<le> b \<Longrightarrow> b \<le> c \<Longrightarrow> ones m a c = ones m a b + ones m b c"
  unfolding ones_def by (subst card_Un_disjoint [symmetric]) (auto intro!: arg_cong [where f = card])

lemma ones_empty [simp]: "ones m a a = 0"
  by (simp add: ones_def)

lemma ctpopl_card: "ctpopl x = card {i. i < 64 \<and> bit x i}"
proof -
  have "ctpopl x = card (set (filter (bit x) [0..<64]))"
    unfolding ctpopl_def by (rule distinct_card [symmetric]) simp
  also have "set (filter (bit x) [0..<64]) = {i. i < 64 \<and> bit x i}" by auto
  finally show ?thesis .
qed

lemma ones_word:
  assumes "l \<le> 64"
  shows "ones m (64 * k) (64 * k + l) = card {i. i < l \<and> bit (m ! k) i}"
proof -
  have "{j. 64 * k \<le> j \<and> j < 64 * k + l \<and> bm_bit m j} = (+) (64 * k) ` {i. i < l \<and> bit (m ! k) i}" (is "?A = _ ` ?B")
  proof (intro set_eqI iffI)
    fix j assume "j \<in> ?A"
    then have j: "64 * k \<le> j" "j - 64 * k < l" "bm_bit m j" by auto
    then have "bit (m ! k) (j - 64 * k)" using bm_bit_word [of "j - 64 * k" m k] assms by simp
    with j show "j \<in> (+) (64 * k) ` ?B" by (intro image_eqI [of _ _ "j - 64 * k"]) auto
  next
    fix j assume "j \<in> (+) (64 * k) ` ?B"
    then show "j \<in> ?A" using assms by (auto simp: bm_bit_word)
  qed
  then show ?thesis unfolding ones_def by (simp add: card_image)
qed

lemma ctpopl_word: "ctpopl (m ! k) = ones m (64 * k) (64 * k + 64)"
  by (simp add: ctpopl_card ones_word)

lemma ctpopl_partial:
  assumes "0 < l" "l \<le> 64"
  shows "ctpopl (m ! k AND BITMAP_LAST_WORD_MASK (64 * q + l)) = ones m (64 * k) (64 * k + l)"
proof -
  have "bit (BITMAP_LAST_WORD_MASK (64 * q + l)) i \<longleftrightarrow> i < l" if "i < 64" for i
    using last_word_mask [OF that, of "64 * q + l"] that assms by (cases "l = 64") auto
  then have "{i. i < 64 \<and> bit (m ! k AND BITMAP_LAST_WORD_MASK (64 * q + l)) i} = {i. i < l \<and> bit (m ! k) i}"
    using assms by (auto simp: bit_and_iff)
  with assms show ?thesis by (simp add: ctpopl_card ones_word)
qed

lemma count_words_ones:
  "k + n \<le> length m \<Longrightarrow> count_words m k n r = Some (r + ones m (64 * k) (64 * (k + n)))"
proof (induction n arbitrary: k r)
  case 0
  then show ?case by simp
next
  case (Suc n)
  then have "count_words m (Suc k) n (r + ctpopl (m ! k)) = Some (r + ctpopl (m ! k) + ones m (64 * Suc k) (64 * (Suc k + n)))"
    by (intro Suc.IH) simp
  moreover have "ones m (64 * k) (64 * (k + Suc n)) = ctpopl (m ! k) + ones m (64 * Suc k) (64 * (Suc k + n))"
    using ones_split [of "64 * k" "64 * k + 64" "64 * (k + Suc n)" m] by (simp add: ctpopl_word add.commute)
  ultimately show ?case using Suc.prems by (simp add: array_simps)
qed

lemma slow_count: "n \<le> bm_cap m \<Longrightarrow> slow_bitmap_count_one m n = Some (ones m 0 n)"
proof -
  assume cap: "n \<le> bm_cap m"
  define q r where "q = n div 64" and "r = n mod 64"
  have n: "n = 64 * q + r" "r < 64" by (simp_all add: q_def r_def)
  have whole: "count_words m 0 q 0 = Some (ones m 0 (64 * q))"
    using count_words_ones [of 0 q m 0] cap n by (simp add: bm_cap_def)
  show ?thesis
  proof (cases "r = 0")
    case True
    with whole n show ?thesis by (simp add: slow_bitmap_count_one_def)
  next
    case False
    then have "q < length m" using cap n by (simp add: bm_cap_def)
    moreover have "ones m 0 n = ones m 0 (64 * q) + ones m (64 * q) (64 * q + r)"
      unfolding n(1) by (rule ones_split) simp_all
    ultimately show ?thesis using whole False n ctpopl_partial [of r m q q]
      by (simp add: slow_bitmap_count_one_def array_simps)
  qed
qed

lemma count_one: "n \<le> bm_cap m \<Longrightarrow> bitmap_count_one m n = Some (ones m 0 n)"
proof -
  assume cap: "n \<le> bm_cap m"
  consider "n = 0" | "0 < n" "n \<le> 64" | "64 < n" by linarith
  then show ?thesis
  proof cases
    case 2
    then have "0 < length m" using cap by (auto simp: bm_cap_def)
    with 2 ctpopl_partial [of n m 0 0] show ?thesis
      by (simp add: bitmap_count_one_def small_nbits_def aget_def)
  qed (use cap slow_count in \<open>simp_all add: bitmap_count_one_def small_nbits_def\<close>)
qed

lemma ones_drop: "ones (drop p m) a b = ones m (64 * p + a) (64 * p + b)" if "64 * p + b \<le> bm_cap m"
proof -
  have bit: "bm_bit (drop p m) j = bm_bit m (64 * p + j)" if "j < b" for j
    using that \<open>64 * p + b \<le> bm_cap m\<close> by (simp add: bm_bit_def bm_cap_def)
  have "{j. 64 * p + a \<le> j \<and> j < 64 * p + b \<and> bm_bit m j} =
      (+) (64 * p) ` {j. a \<le> j \<and> j < b \<and> bm_bit (drop p m) j}" (is "?A = _ ` ?B")
  proof (intro set_eqI iffI)
    fix j assume "j \<in> ?A"
    then have "a \<le> j - 64 * p" "j - 64 * p < b" "bm_bit m (64 * p + (j - 64 * p))" "j = 64 * p + (j - 64 * p)" by auto
    then show "j \<in> (+) (64 * p) ` ?B" by (intro image_eqI [of _ _ "j - 64 * p"]) (simp_all add: bit)
  qed (auto simp: bit)
  then show ?thesis unfolding ones_def by (simp add: card_image)
qed

lemma count_one_with_offset:
  assumes "off + n \<le> bm_cap m"
  shows "bitmap_count_one_with_offset m off n = Some (int (ones m off (off + n)))"
proof -
  define p r where "p = off div 64" and "r = off mod 64"
  have off: "off = 64 * p + r" "off div 64 * 64 = 64 * p" "off - 64 * p = r" by (simp_all add: p_def r_def minus_mult_div_eq_mod)
  have cap: "n + r \<le> bm_cap (drop p m)" using assms off(1) by (simp add: bm_cap_def)
  have "ones m (64 * p) (64 * p + (n + r)) = ones m (64 * p) (64 * p + r) + ones m off (off + n)"
    using ones_split [of "64 * p" off "off + n" m] off(1) by (simp add: ac_simps)
  moreover have "ones (drop p m) 0 (n + r) = ones m (64 * p) (64 * p + (n + r))" "ones (drop p m) 0 r = ones m (64 * p) (64 * p + r)"
    using ones_drop [of p "n + r" m 0] ones_drop [of p r m 0] assms off(1) by simp_all
  ultimately show ?thesis
    unfolding bitmap_count_one_with_offset_def Let_def off(2,3)
    using count_one [OF cap] count_one [of r "drop p m"] cap by simp
qed

section \<open>Copies at an offset\<close>

lemma ones_mask:
  "k < 64 \<Longrightarrow> bit (push_bit n 1 - 1 :: u64) k \<longleftrightarrow> k < n" "k < 64 \<Longrightarrow> bit (2 ^ n - 1 :: u64) k \<longleftrightarrow> k < n"
  by (simp_all add: mask_eq_exp_minus_1 [symmetric] bit_mask_iff)

lemma bm_bit_shift:
  fixes m :: "u64 list"
  assumes "sh < 64" "k < 64"
  shows "bm_bit m (64 * p + sh + k) = (if k < 64 - sh then bit (m ! p) (sh + k) else bit (m ! (p + 1)) (k - (64 - sh)))"
proof (cases "k < 64 - sh")
  case True
  then show ?thesis using bm_bit_word [of "sh + k" m p] by (simp add: add.assoc)
next
  case False
  moreover have "64 * p + sh + k = 64 * (p + 1) + (k - (64 - sh))" using False assms by simp
  moreover have "k - (64 - sh) < 64" using assms by simp
  ultimately show ?thesis using bm_bit_word [of "k - (64 - sh)" m "p + 1"] by metis
qed

text \<open>Two neighbouring words put together, as both copy loops of the source do.\<close>

lemma joined_bit:
  assumes "0 < sh" "sh < 64" "k < 64" "\<And>i. i < 64 \<Longrightarrow> bit lo i \<longleftrightarrow> i < l"
  shows "bit (drop_bit sh (w AND NOT (push_bit sh 1 - 1)) OR push_bit (64 - sh) (w1 AND (lo :: u64))) k \<longleftrightarrow>
    (if k < 64 - sh then bit w (sh + k) else k - (64 - sh) < l \<and> bit w1 (k - (64 - sh)))"
proof (cases "k < 64 - sh")
  case True
  then have "sh + k < 64" by simp
  with True show ?thesis by (simp add: bit_or_iff bit_drop_bit_eq bit_push_bit_iff bit_and_iff bit_not_iff ones_mask)
next
  case False
  then have "\<not> bit w (sh + k)" using bit_imp_le_length [of w "sh + k"] by auto
  moreover have "k - (64 - sh) < 64" using assms by simp
  ultimately show ?thesis using False assms
    by (auto simp: bit_or_iff bit_drop_bit_eq bit_push_bit_iff bit_and_iff)
qed

lemma bm_bit_set_word:
  "d < length m \<Longrightarrow> bm_bit (m[d := v]) j = (if j div 64 = d then bit v (j mod 64) else bm_bit (m :: u64 list) j)"
  by (simp add: bm_bit_def)

lemma copy_src_words_bits:
  assumes sh: "0 < sh" "sh < 64"
  shows "64 * d + nbits \<le> bm_cap dst \<Longrightarrow> 64 * p + sh + nbits \<le> bm_cap src \<Longrightarrow>
    \<exists>t. copy_src_words dst d src p sh nbits = Some t \<and> length t = length dst \<and>
      (\<forall>j < nbits. bm_bit t (64 * d + j) = bm_bit src (64 * p + sh + j)) \<and>
      (\<forall>j < 64 * d. bm_bit t j = bm_bit dst j)"
proof (induction nbits arbitrary: dst d p rule: less_induct)
  case (less nbits)
  have reads: "d < length dst \<and> p < length src" if "0 < nbits" using that less.prems by (auto simp: bm_cap_def)
  have next_read: "p + 1 < length src" if "64 - sh < nbits" using that less.prems sh by (auto simp: bm_cap_def)
  have low: "j div 64 \<noteq> d" if "j < 64 * d" for j using that by (simp add: less_mult_imp_div_less mult.commute)
  consider "64 \<le> nbits" | "64 - sh < nbits" "nbits < 64" | "nbits \<le> 64 - sh" "0 < nbits" | "nbits = 0" using sh by linarith
  then show ?case
  proof cases
    case 1
    let ?v = "drop_bit sh (src ! p AND NOT (push_bit sh 1 - 1)) OR push_bit (64 - sh) (src ! (p + 1) AND (push_bit sh 1 - 1))"
    let ?dst = "dst[d := ?v]"
    have v: "bit ?v k = bm_bit src (64 * p + sh + k)" if "k < 64" for k
      using joined_bit [OF sh that, of "push_bit sh 1 - 1" sh] ones_mask(1) [of _ sh] bm_bit_shift [OF sh(2) that, of src p] that
      by auto
    have lt: "nbits - 64 < nbits" "64 * (d + 1) + (nbits - 64) \<le> bm_cap ?dst" "64 * (p + 1) + sh + (nbits - 64) \<le> bm_cap src"
      using 1 less.prems by (simp_all add: bm_cap_def)
    obtain t where t: "copy_src_words ?dst (d + 1) src (p + 1) sh (nbits - 64) = Some t" "length t = length dst"
      "\<And>j. j < nbits - 64 \<Longrightarrow> bm_bit t (64 * (d + 1) + j) = bm_bit src (64 * (p + 1) + sh + j)"
      "\<And>j. j < 64 * (d + 1) \<Longrightarrow> bm_bit t j = bm_bit ?dst j"
      using less.IH [OF lt] by auto
    have "bm_bit t (64 * d + j) = bm_bit src (64 * p + sh + j)" if "j < nbits" for j
    proof (cases "j < 64")
      case True
      then show ?thesis using t(4) [of "64 * d + j"] reads 1 v [OF True] by (simp add: bm_bit_set_word)
    next
      case False
      then have "64 * (d + 1) + (j - 64) = 64 * d + j" "64 * (p + 1) + sh + (j - 64) = 64 * p + sh + j" by simp_all
      with t(3) [of "j - 64"] False that show ?thesis by (metis diff_less_mono not_less)
    qed
    moreover have "bm_bit t j = bm_bit dst j" if "j < 64 * d" for j
      using t(4) [of j] that low reads 1 by (simp add: bm_bit_set_word)
    ultimately show ?thesis using t(1,2) 1 reads next_read sh
      by (subst copy_src_words.simps) (simp add: array_simps Let_def del: of_nat_Suc of_nat_add)
  next
    case 2
    let ?l = "nbits - (64 - sh)"
    let ?v = "drop_bit sh (src ! p AND NOT (push_bit sh 1 - 1)) OR push_bit (64 - sh) (src ! (p + 1) AND (push_bit ?l 1 - 1))"
    have "bit ?v k = bm_bit src (64 * p + sh + k)" if "k < nbits" for k
      using joined_bit [OF sh, of k "push_bit ?l 1 - 1" ?l] ones_mask(1) [of _ ?l] bm_bit_shift [OF sh(2), of k src p] that 2
      by auto
    with 2 reads next_read low show ?thesis
      by (subst copy_src_words.simps) (simp add: array_simps Let_def bm_bit_set_word del: of_nat_Suc of_nat_add)
  next
    case 3
    have "bit (drop_bit sh (src ! p) AND (push_bit nbits 1 - 1)) k = bm_bit src (64 * p + sh + k)" if "k < nbits" for k
      using bm_bit_shift [OF sh(2), of k src p] that 3 sh by (simp add: bit_and_iff bit_drop_bit_eq ones_mask)
    moreover have "\<not> 64 \<le> nbits" using 3 sh by simp
    ultimately show ?thesis using 3 sh reads low
      by (subst copy_src_words.simps) (simp add: array_simps Let_def bm_bit_set_word)
  next
    case 4
    then show ?thesis by (subst copy_src_words.simps) (simp add: Let_def)
  qed
qed

text \<open>
  The destination loop: the word it writes into has nothing above the offset yet, and it leaves
  the next word in that state.
\<close>

definition clear_above :: "nat \<Rightarrow> u64 \<Rightarrow> bool" where
  "clear_above sh x \<longleftrightarrow> (\<forall>k. sh \<le> k \<longrightarrow> k < 64 \<longrightarrow> \<not> bit x k)"

lemma lower_part:
  assumes "sh < 64" "k < 64" "clear_above sh x" "\<And>i. i < 64 \<Longrightarrow> bit lo i \<longleftrightarrow> i < l"
  shows "bit (x OR push_bit sh (w AND (lo :: u64))) k \<longleftrightarrow> (if k < sh then bit x k else k - sh < l \<and> bit w (k - sh))"
  using assms by (auto simp: clear_above_def bit_or_iff bit_push_bit_iff bit_and_iff)

lemma upper_part:
  assumes "0 < sh" "sh < 64" "k < 64" "\<And>i. i < 64 \<Longrightarrow> 64 - sh \<le> i \<Longrightarrow> bit hi i \<longleftrightarrow> i < 64 - sh + l"
  shows "bit (drop_bit (64 - sh) (w AND (hi :: u64))) k \<longleftrightarrow> k < sh \<and> k < l \<and> bit w (64 - sh + k)"
proof (cases "k < sh")
  case True
  then show ?thesis using assms by (auto simp: bit_drop_bit_eq bit_and_iff)
next
  case False
  then have "\<not> bit w (64 - sh + k)" using bit_imp_le_length [of w "64 - sh + k"] assms by auto
  with False show ?thesis by (simp add: bit_drop_bit_eq bit_and_iff)
qed

text \<open>The bits of one source word, over the two destination words it goes to.\<close>

lemma split_word:
  assumes "0 < sh" "sh < 64" "d + 1 < length (m :: u64 list)" "j < 64"
  shows "bm_bit (m[d := x, d + 1 := y]) (64 * d + sh + j) = (if j < 64 - sh then bit x (sh + j) else bit y (j - (64 - sh)))"
  using bm_bit_shift [OF assms(2,4), of "m[d := x, d + 1 := y]" d] assms(3) by simp

lemma low_bits:
  assumes "j < 64 * d + sh" "sh \<le> 64" "\<And>i. i < d \<Longrightarrow> t ! i = m ! i" "\<And>k. k < sh \<Longrightarrow> bit (t ! d) k = bit (m ! d) k"
  shows "bm_bit t j = bm_bit (m :: u64 list) j"
proof (cases "j < 64 * d")
  case True
  then have "j div 64 < d" by (simp add: less_mult_imp_div_less mult.commute)
  with assms(3) show ?thesis by (simp add: bm_bit_def)
next
  case False
  then obtain k where k: "j = 64 * d + k" by (metis le_add_diff_inverse not_less)
  with assms show ?thesis by (simp add: bm_bit_word)
qed

lemma copy_dst_words_bits:
  assumes sh: "0 < sh" "sh < 64"
  shows "64 * d + sh + nbits \<le> bm_cap dst \<Longrightarrow> 64 * p + nbits \<le> bm_cap src \<Longrightarrow> clear_above sh (dst ! d) \<Longrightarrow>
    \<exists>t. copy_dst_words dst d src p sh nbits = Some t \<and> length t = length dst \<and>
      (\<forall>j < nbits. bm_bit t (64 * d + sh + j) = bm_bit src (64 * p + j)) \<and>
      (\<forall>j < 64 * d + sh. bm_bit t j = bm_bit dst j)"
proof (induction nbits arbitrary: dst d p rule: less_induct)
  case (less nbits)
  have reads: "d < length dst \<and> p < length src" if "0 < nbits" using that less.prems sh by (auto simp: bm_cap_def)
  have next_write: "d + 1 < length dst" if "64 - sh < nbits" using that less.prems sh by (auto simp: bm_cap_def)
  let ?w = "src ! p" and ?R = "push_bit (64 - sh) 1 - 1 :: u64"
  let ?x = "dst ! d OR push_bit sh (?w AND ?R)"
  have x: "bit ?x k \<longleftrightarrow> (if k < sh then bit (dst ! d) k else bit ?w (k - sh))" if "k < 64" for k
    using lower_part [OF sh(2) that less.prems(3), of ?R "64 - sh" ?w] ones_mask(1) [of _ "64 - sh"] that by auto
  have low: "bm_bit (dst[d := v, d + 1 := y]) j = bm_bit dst j" "bm_bit (dst[d := v]) j = bm_bit dst j"
    if "j < 64 * d + sh" "\<And>k. k < sh \<Longrightarrow> bit v k = bit (dst ! d) k" "0 < nbits" for j v y
    by (rule low_bits [OF that(1)]; use that(2,3) reads sh in simp)+
  consider "64 \<le> nbits" | "64 - sh < nbits" "nbits < 64" | "nbits \<le> 64 - sh" "0 < nbits" | "nbits = 0" using sh by linarith
  then show ?case
  proof cases
    case 1
    let ?y = "drop_bit (64 - sh) (?w AND NOT ?R)"
    let ?dst = "dst[d := ?x, d + 1 := ?y]"
    have y: "bit ?y k \<longleftrightarrow> k < sh \<and> bit ?w (64 - sh + k)" if "k < 64" for k
      using upper_part [OF sh that, of "NOT ?R" 64 ?w] ones_mask(1) [of _ "64 - sh"] sh that by (auto simp: bit_not_iff)
    have nw: "d + 1 < length dst" using 1 next_write sh by simp
    have lt: "nbits - 64 < nbits" "64 * (d + 1) + sh + (nbits - 64) \<le> bm_cap ?dst" "64 * (p + 1) + (nbits - 64) \<le> bm_cap src"
      "clear_above sh (?dst ! (d + 1))"
      using 1 less.prems nw y by (simp_all add: bm_cap_def clear_above_def)
    obtain t where t: "copy_dst_words ?dst (d + 1) src (p + 1) sh (nbits - 64) = Some t" "length t = length dst"
      "\<And>j. j < nbits - 64 \<Longrightarrow> bm_bit t (64 * (d + 1) + sh + j) = bm_bit src (64 * (p + 1) + j)"
      "\<And>j. j < 64 * (d + 1) + sh \<Longrightarrow> bm_bit t j = bm_bit ?dst j"
      using less.IH [OF lt] by auto
    have "bm_bit t (64 * d + sh + j) = bm_bit src (64 * p + j)" if "j < nbits" for j
    proof (cases "j < 64")
      case True
      then have "j + sh - 64 < sh" using sh by linarith
      with True show ?thesis
        using t(4) [of "64 * d + sh + j"] split_word [OF sh nw True, of ?x ?y] x y sh by (simp add: bm_bit_word)
    next
      case False
      then have "64 * (d + 1) + sh + (j - 64) = 64 * d + sh + j" "64 * (p + 1) + (j - 64) = 64 * p + j" by simp_all
      with t(3) [of "j - 64"] False that show ?thesis by (metis diff_less_mono not_less)
    qed
    moreover have "bm_bit t j = bm_bit dst j" if "j < 64 * d + sh" for j
      using t(4) [of j] low(1) [OF that, of ?x ?y] that x sh 1 by simp
    ultimately show ?thesis using t(1,2) 1 reads nw
      by (subst copy_dst_words.simps) (simp add: array_simps Let_def del: of_nat_Suc of_nat_add)
  next
    case 2
    let ?l = "nbits - (64 - sh)"
    let ?y = "drop_bit (64 - sh) (?w AND push_bit (64 - sh) (push_bit ?l 1 - 1))"
    have y: "bit ?y k \<longleftrightarrow> k < sh \<and> k < ?l \<and> bit ?w (64 - sh + k)" if "k < 64" for k
      by (rule upper_part [OF sh that]) (use ones_mask(1) [of _ ?l] in \<open>auto simp: bit_push_bit_iff\<close>)
    have nw: "d + 1 < length dst" using 2 next_write by simp
    have "bm_bit (dst[d := ?x, d + 1 := ?y]) (64 * d + sh + j) = bm_bit src (64 * p + j)" if "j < nbits" for j
    proof -
      have "j + sh - 64 < sh" "\<not> j < 64 - sh \<Longrightarrow> j - (64 - sh) < ?l" using sh 2 that by linarith+
      with split_word [OF sh nw, of j ?x ?y] x y sh 2 that show ?thesis by (simp add: bm_bit_word)
    qed
    moreover have "bm_bit (dst[d := ?x, d + 1 := ?y]) j = bm_bit dst j" if "j < 64 * d + sh" for j
      using low(1) [OF that, of ?x ?y] x sh 2 by simp
    ultimately show ?thesis using 2 reads nw
      by (subst copy_dst_words.simps) (simp add: array_simps Let_def del: of_nat_Suc of_nat_add)
  next
    case 3
    let ?v = "dst ! d OR push_bit sh (?w AND (push_bit nbits 1 - 1))"
    have v: "bit ?v k \<longleftrightarrow> (if k < sh then bit (dst ! d) k else k - sh < nbits \<and> bit ?w (k - sh))" if "k < 64" for k
      by (rule lower_part [OF sh(2) that less.prems(3)]) (use ones_mask(1) in auto)
    have "bm_bit (dst[d := ?v]) (64 * d + sh + j) = bm_bit src (64 * p + j)" if "j < nbits" for j
      using that 3 sh reads bm_bit_word [of "sh + j" "dst[d := ?v]" d] v [of "sh + j"] by (simp add: bm_bit_word add.assoc)
    moreover have "bm_bit (dst[d := ?v]) j = bm_bit dst j" if "j < 64 * d + sh" for j
      using low(2) [OF that, of ?v] v sh 3 by simp
    moreover have "\<not> 64 \<le> nbits" using 3 sh by simp
    ultimately show ?thesis using 3 sh reads
      by (subst copy_dst_words.simps) (simp add: array_simps Let_def)
  next
    case 4
    then show ?thesis by (subst copy_dst_words.simps) (simp add: Let_def)
  qed
qed

lemma copy_words_bits:
  assumes "0 < n" "n \<le> bm_cap dst" "n \<le> bm_cap src"
  shows "\<exists>t. bitmap_copy dst src n = Some t \<and> length t = length dst \<and> (\<forall>j < n. bm_bit t j = bm_bit src j)"
proof (cases "n \<le> 64")
  case True
  then have "dst \<noteq> []" "src \<noteq> []" using assms by (auto simp: bm_cap_def)
  with True assms show ?thesis
    by (intro exI [of _ "dst[0 := src ! 0]"]) (simp add: bitmap_copy_def small_nbits_def aget_def aset_def bm_bit_def)
next
  case False
  have k: "BITS_TO_LONGS n \<le> length dst" "BITS_TO_LONGS n \<le> length src"
    using assms by (simp_all add: BITS_TO_LONGS_def bm_cap_def)
  have "bm_bit (take (BITS_TO_LONGS n) src @ drop (BITS_TO_LONGS n) dst) j = bm_bit src j" if "j < n" for j
  proof -
    have "j div 64 < BITS_TO_LONGS n" using that by (simp add: BITS_TO_LONGS_def less_mult_imp_div_less)
    with k show ?thesis by (simp add: bm_bit_def nth_append)
  qed
  with False k show ?thesis by (simp add: bitmap_copy_def small_nbits_def copy_words_def)
qed

lemma bm_bit_drop: "bm_bit (drop q m) j = bm_bit m (64 * q + j)" if "64 * q + j < bm_cap (m :: u64 list)"
  using that by (simp add: bm_bit_def bm_cap_def)

lemma copy_with_src_offset:
  assumes "0 < n" "n \<le> bm_cap dst" "s + n \<le> bm_cap src"
  shows "\<exists>t. bitmap_copy_with_src_offset dst src s n = Some t \<and> length t = length dst \<and>
    (\<forall>j < n. bm_bit t j = bm_bit src (s + j))"
proof (cases "s mod 64 = 0")
  case True
  then have s: "64 * (s div 64) = s" by auto
  have "n \<le> bm_cap (drop (s div 64) src)" using assms(3) s by (simp add: bm_cap_def)
  from copy_words_bits [OF assms(1,2) this] s True bm_bit_drop [of "s div 64" _ src] assms(3) show ?thesis
    by (auto simp: bitmap_copy_with_src_offset_def)
next
  case False
  have s: "64 * (s div 64) + s mod 64 = s" by simp
  with copy_src_words_bits [of "s mod 64" 0 n dst "s div 64" src] False assms show ?thesis
    by (simp add: bitmap_copy_with_src_offset_def)
qed

lemma copy_with_dst_offset:
  assumes "0 < n" "s + n \<le> bm_cap dst" "n \<le> bm_cap src"
  shows "\<exists>t. bitmap_copy_with_dst_offset dst src s n = Some t \<and> length t = length dst \<and>
    (\<forall>j < n. bm_bit t (s + j) = bm_bit src j) \<and> (\<forall>j < s. bm_bit t j = bm_bit dst j)"
proof (cases "s mod 64 = 0")
  case True
  define q where "q = s div 64"
  have s: "s = 64 * q" using True by (auto simp: q_def)
  have q: "q \<le> length dst" using assms(2) s by (simp add: bm_cap_def)
  have "n \<le> bm_cap (drop q dst)" using assms(2) s by (simp add: bm_cap_def)
  from copy_words_bits [OF assms(1) this assms(3)] obtain t where t: "bitmap_copy (drop q dst) src n = Some t"
    "length t = length dst - q" "\<And>j. j < n \<Longrightarrow> bm_bit t j = bm_bit src j" by auto
  have "bm_bit (take q dst @ t) (s + j) = bm_bit t j" for j using q s by (simp add: bm_bit_def nth_append)
  moreover have "bm_bit (take q dst @ t) j = bm_bit dst j" if "j < s" for j
    using that q s by (simp add: bm_bit_def nth_append less_mult_imp_div_less mult.commute)
  ultimately show ?thesis using t q True by (simp add: bitmap_copy_with_dst_offset_def q_def [symmetric])
next
  case False
  define q r where "q = s div 64" and "r = s mod 64"
  have s: "64 * q + r = s" "0 < r" "r < 64" using False by (simp_all add: q_def r_def)
  let ?x = "dst ! q AND (push_bit r 1 - 1)"
  have q: "q < length dst" using assms(1,2) s by (simp add: bm_cap_def)
  have "clear_above r (dst[q := ?x] ! q)" using q ones_mask(1) [of _ r] by (simp add: clear_above_def bit_and_iff)
  from copy_dst_words_bits [OF s(2,3), of q n "dst[q := ?x]" 0 src, OF _ _ this] assms s(1) obtain t where t:
    "copy_dst_words (dst[q := ?x]) q src 0 r n = Some t" "length t = length dst"
    "\<And>j. j < n \<Longrightarrow> bm_bit t (s + j) = bm_bit src j" "\<And>j. j < s \<Longrightarrow> bm_bit t j = bm_bit (dst[q := ?x]) j"
    by (auto simp: bm_cap_def)
  have "bm_bit (dst[q := ?x]) j = bm_bit dst j" if "j < s" for j
    by (rule low_bits [of j q r]) (use that s q ones_mask(1) [of _ r] in \<open>auto simp: bit_and_iff\<close>)
  with t q False show ?thesis
    by (auto simp: bitmap_copy_with_dst_offset_def q_def [symmetric] r_def [symmetric] array_simps)
qed

section \<open>The search for a run of clear bits\<close>

lemma unat_less_64: "unat (w :: u64) < 2 ^ 64"
  by (rule less_le_trans [OF unsigned_less]) simp

lemma unat_of_nat_64: "n < 2 ^ 64 \<Longrightarrow> unat (of_nat n :: u64) = n"
  by (simp add: unsigned_of_nat take_bit_nat_eq_self)

lemma unat_mask_64: "k < 64 \<Longrightarrow> unat (mask k :: u64) = 2 ^ k - 1"
proof -
  assume "k < 64"
  have "unat (of_nat (mask k) :: u64) = mask (min 64 k)"
    by (simp only: unsigned_of_nat take_bit_of_mask) simp
  with \<open>k < 64\<close> show ?thesis by (simp add: mask_eq_exp_minus_1)
qed

lemma align_mask_up:
  assumes "k < 64" "unat x + 2 ^ k < 2 ^ 64"
  shows "unat (ALIGN_MASK x (mask k)) = (unat x + 2 ^ k - 1) div 2 ^ k * 2 ^ k"
proof -
  have s: "unat (x + mask k) = unat x + 2 ^ k - 1"
    using assms unat_mask_64 [OF assms(1)] by (subst unat_word_ariths(1)) simp
  have "x + mask k AND NOT (mask k) = push_bit k (drop_bit k (x + mask k))"
    by (rule bit_word_eqI) (auto simp: bit_simps)
  moreover have t: "take_bit 64 (unat (x + mask k)) = unat (x + mask k)"
    by (rule take_bit_nat_eq_self [OF unat_less_64])
  ultimately have "unat (ALIGN_MASK x (mask k)) = take_bit 64 (push_bit k (drop_bit k (unat (x + mask k))))"
    by (simp add: ALIGN_MASK_def unsigned_push_bit_eq unsigned_drop_bit_eq t)
  also have "... = unat (x + mask k) div 2 ^ k * 2 ^ k mod 2 ^ 64"
    by (simp only: push_bit_eq_mult drop_bit_eq_div take_bit_eq_mod)
  also have "... = unat (x + mask k) div 2 ^ k * 2 ^ k"
    using le_less_trans [OF div_times_less_eq_dividend [of "unat (x + mask k)" "2 ^ k"] unat_less_64 [of "x + mask k"]] by simp
  finally show ?thesis using s by simp
qed

lemma next_ref_props:
  "next_ref P sz off \<le> max sz off" "next_ref P sz off < sz \<Longrightarrow> P (next_ref P sz off)" "off \<le> sz \<Longrightarrow> off \<le> next_ref P sz off"
  "off \<le> j \<Longrightarrow> j < next_ref P sz off \<Longrightarrow> j < sz \<Longrightarrow> \<not> P j"
proof -
  have f: "find P [off..<sz] = Some n \<Longrightarrow> off \<le> n \<and> n < sz \<and> P n \<and> (\<forall>j. off \<le> j \<and> j < n \<longrightarrow> \<not> P j)" for n
  proof -
    assume "find P [off..<sz] = Some n"
    then obtain i where i: "i < length [off..<sz]" "P ([off..<sz] ! i)" "n = [off..<sz] ! i" "\<forall>j < i. \<not> P ([off..<sz] ! j)"
      unfolding find_Some_iff by blast
    then have n: "n = off + i" "n < sz" "P n" by auto
    have "\<not> P j" if "off \<le> j" "j < n" for j
      using i(4) that n by (auto dest: spec [of _ "j - off"])
    with n show ?thesis by auto
  qed
  have g: "find P [off..<sz] = None \<Longrightarrow> off \<le> j \<Longrightarrow> j < sz \<Longrightarrow> \<not> P j" for j
    unfolding find_None_iff by auto
  show "next_ref P sz off \<le> max sz off" "next_ref P sz off < sz \<Longrightarrow> P (next_ref P sz off)" "off \<le> sz \<Longrightarrow> off \<le> next_ref P sz off"
    "off \<le> j \<Longrightarrow> j < next_ref P sz off \<Longrightarrow> j < sz \<Longrightarrow> \<not> P j"
    using f g by (auto simp: next_ref_def split: option.split_asm option.split)
qed


definition zero_area :: "u64 list \<Rightarrow> nat \<Rightarrow> nat \<Rightarrow> nat \<Rightarrow> nat \<Rightarrow> nat \<Rightarrow> bool" where
  "zero_area m sz start nr k i \<longleftrightarrow> 2 ^ k dvd i \<and> start \<le> i \<and> i + nr \<le> sz \<and> list_all (\<lambda>j. \<not> bm_bit m j) [i..<i + nr]"

lemma round_up_least:
  fixes x j d :: nat
  assumes "0 < d"
  shows "x \<le> (x + d - 1) div d * d" "d dvd j \<Longrightarrow> x \<le> j \<Longrightarrow> (x + d - 1) div d * d \<le> j" "(x + d - 1) div d * d < x + d"
proof -
  have e: "(x + d - 1) div d * d + (x + d - 1) mod d = x + d - 1" by simp
  have l: "(x + d - 1) mod d < d" using assms by simp
  show "x \<le> (x + d - 1) div d * d" using e l by linarith
  show "(x + d - 1) div d * d < x + d" using e assms by linarith
  assume "d dvd j" "x \<le> j"
  then obtain q where q: "j = q * d" by (metis dvd_def mult.commute)
  have "x + d - 1 < (q + 1) * d" using \<open>x \<le> j\<close> q assms by simp
  then have "(x + d - 1) div d < q + 1" by (simp add: less_mult_imp_div_less)
  then show "(x + d - 1) div d * d \<le> j" using q by (simp add: mult_le_mono1)
qed

lemma find_zero_area:
  assumes cap: "unat sz \<le> bm_cap m" and nr: "0 < nr" and k: "k < 64" and fit: "unat sz + unat nr + 2 ^ k < 2 ^ 64"
  shows "\<exists>r. bitmap_find_next_zero_area m sz start nr (mask k) = Some r \<and>
    (if r \<le> sz then zero_area m (unat sz) (unat start) (unat nr) k (unat r) \<and>
       (\<forall>i. zero_area m (unat sz) (unat start) (unat nr) k i \<longrightarrow> unat r \<le> i)
     else \<forall>i. \<not> zero_area m (unat sz) (unat start) (unat nr) k i)"
proof (induction "unat sz - unat start" arbitrary: start rule: less_induct)
  case less
  let ?A = "zero_area m (unat sz) (unat start) (unat nr) k"
  define z where "z = next_ref (\<lambda>n. \<not> bm_bit m n) (unat sz) (unat start)"
  define x where "x = ALIGN_MASK (of_nat z) (mask k)"
  define e where "e = x + nr"
  have z: "z \<le> unat sz" unfolding z_def by (cases "unat start \<le> unat sz") (use next_ref_props(1) [of "\<lambda>n. \<not> bm_bit m n" "unat sz" "unat start"] in auto)
  have uz: "unat (of_nat z :: u64) = z" using le_less_trans [OF z unat_less_64] by (rule unat_of_nat_64)
  have x: "unat x = (z + 2 ^ k - 1) div 2 ^ k * 2 ^ k"
    using align_mask_up [OF k, of "of_nat z"] z fit by (simp add: x_def uz)
  have e: "unat e = unat x + unat nr"
    using x round_up_least(3) [of "2 ^ k" z] z fit unfolding e_def by (subst unat_word_ariths(1)) simp
  have cand: "unat x \<le> i" if "?A i" for i
  proof -
    have "z \<le> i"
    proof (rule ccontr)
      assume "\<not> z \<le> i"
      with that z next_ref_props(4) [of "unat start" i "\<lambda>n. \<not> bm_bit m n" "unat sz"] nr
      show False by (auto simp: zero_area_def list_all_iff z_def word_less_nat_alt)
    qed
    then show ?thesis using x round_up_least(2) [of "2 ^ k" i z] that by (simp add: zero_area_def list_all_iff)
  qed
  have step: "bitmap_find_next_zero_area m sz start nr (mask k) =
      (if sz < e then Some e
       else do { i \<leftarrow> find_next_bit m (unat e) (unat x);
                 if of_nat i < e then bitmap_find_next_zero_area m sz (of_nat i + 1) nr (mask k) else Some x })"
    using cap by (subst bitmap_find_next_zero_area.simps) (simp add: find_next_zero_bit_correct Let_def cong: if_cong flip: z_def x_def e_def)
  show ?case
  proof (cases "sz < e")
    case True
    have "\<not> ?A i" for i
      using cand [of i] True e by (auto simp: zero_area_def list_all_iff word_less_nat_alt)
    with True show ?thesis unfolding step by (simp add: word_le_nat_alt word_less_nat_alt)
  next
    case False
    define i where "i = next_ref (bm_bit m) (unat e) (unat x)"
    have es: "unat e \<le> unat sz" using False by (simp add: word_less_nat_alt)
    have i: "find_next_bit m (unat e) (unat x) = Some i" using es cap by (simp add: find_next_bit_correct i_def)
    have ie: "i \<le> unat e" "unat x \<le> i" "unat (of_nat i :: u64) = i"
      using next_ref_props(1,3) [where P = "bm_bit m" and sz = "unat e" and off = "unat x"] e unat_of_nat_64 [OF le_less_trans [OF _ unat_less_64 [of e]]]
      by (auto simp: i_def max_def split: if_splits)
    have sx: "unat start \<le> unat x"
    proof (cases "unat start \<le> unat sz")
      case True
      then have "unat start \<le> z" using next_ref_props(3) by (simp add: z_def)
      with x round_up_least(1) [of "2 ^ k" z] show ?thesis by simp
    next
      case False
      then have "z = unat sz" by (simp add: z_def)
      with x round_up_least(1) [of "2 ^ k" z] e es nr show ?thesis by (simp add: word_less_nat_alt)
    qed
    show ?thesis
    proof (cases "i < unat e")
      case True
      have st: "unat start \<le> i" using sx ie by simp
      have u: "unat (of_nat i + 1 :: u64) = i + 1"
        using ie(3) True es fit by (subst unat_word_ariths(1)) simp
      have blocked: "bm_bit m i" using True next_ref_props(2) by (simp add: i_def)
      have same: "zero_area m (unat sz) (i + 1) (unat nr) k j \<longleftrightarrow> ?A j" for j
      proof -
        have "\<not> ?A j" if "j \<le> i"
        proof
          assume A: "?A j"
          with that cand [OF A] True e have "i \<in> set [j..<j + unat nr]" by simp
          with A blocked show False by (simp add: zero_area_def list_all_iff)
        qed
        then show ?thesis using st by (cases "j \<le> i") (auto simp: zero_area_def not_less_eq_eq)
      qed
      have "unat sz - unat (of_nat i + 1 :: u64) < unat sz - unat start" using st True es u by linarith
      note IH = less [OF this, unfolded u same]
      have "bitmap_find_next_zero_area m sz start nr (mask k) = bitmap_find_next_zero_area m sz (of_nat i + 1) nr (mask k)"
        unfolding step using False i True ie(3) by (simp add: word_less_nat_alt)
      with IH show ?thesis by simp
    next
      case False
      with ie have "i = unat e" by simp
      then have clear: "\<not> bm_bit m j" if "unat x \<le> j" "j < unat x + unat nr" for j
        using next_ref_props(4) [of "unat x" j "bm_bit m" "unat e"] that e by (simp add: i_def)
      then have "?A (unat x)" using x sx e es by (simp add: zero_area_def list_all_iff)
      then show ?thesis
        unfolding step using \<open>\<not> sz < e\<close> i False ie(3) cand e es by (simp add: word_less_nat_alt word_le_nat_alt)
    qed
  qed
qed

section \<open>Properties\<close>

text \<open>
  C36.  Inside a bitmap, \<open>bitmap_set\<close> sets and \<open>bitmap_clear\<close> clears exactly the bits of the range,
  whatever words it covers; \<open>bitmap_set_atomic\<close> gives the same bitmap as \<open>bitmap_set\<close>, and
  \<open>bitmap_test_and_clear_atomic\<close> the same as \<open>bitmap_clear\<close>, reporting whether the range held a set
  bit.
\<close>

theorem bitmap_range_operations:
  assumes "s + nr \<le> bm_cap (m :: u64 list)"
  shows "\<exists>t u. bitmap_set m (int s) (int nr) = Some t \<and> touched (\<or>) {s..<s + nr} m t \<and>
    bitmap_set_atomic m (int s) (int nr) = Some t \<and>
    bitmap_clear m (int s) (int nr) = Some u \<and> touched (\<lambda>a b. \<not> a \<and> b) {s..<s + nr} m u \<and>
    bitmap_test_and_clear_atomic m (int s) (int nr) = Some (some_set {s..<s + nr} m, u)"
proof -
  obtain t where t: "bitmap_set m (int s) (int nr) = Some t" "touched (\<or>) {s..<s + nr} m t"
    using range_words_correct(1) [OF assms] by blast
  obtain u where u: "bitmap_clear m (int s) (int nr) = Some u" "touched (\<lambda>a b. \<not> a \<and> b) {s..<s + nr} m u"
    using range_words_correct(2) [OF assms] by blast
  have "bitmap_set_atomic m (int s) (int nr) = Some t"
    using set_bits.range_phases_touched [OF assms, of "{s..<s + nr}" False] touched_unique [OF _ t(2)]
    by (auto simp: bitmap_set_atomic_def)
  moreover have "bitmap_test_and_clear_atomic m (int s) (int nr) = Some (some_set {s..<s + nr} m, u)"
    using clear_bits.range_phases_touched [OF assms, of "{s..<s + nr}" False] touched_unique [OF _ u(2)]
    by (auto simp: bitmap_test_and_clear_atomic_def)
  ultimately show ?thesis using t u by blast
qed

theorem bitmap_range_operations_witness:
  "\<exists>t u. bitmap_set [0, 1, 0] (int 60) (int 80) = Some t \<and> touched (\<or>) {60..<60 + 80} [0, 1, 0] t \<and>
    bitmap_set_atomic [0, 1, 0] (int 60) (int 80) = Some t \<and>
    bitmap_clear [0, 1, 0] (int 60) (int 80) = Some u \<and> touched (\<lambda>a b. \<not> a \<and> b) {60..<60 + 80} [0, 1, 0] u \<and>
    bitmap_test_and_clear_atomic [0, 1, 0] (int 60) (int 80) = Some (some_set {60..<60 + 80} [0, 1, 0], u)"
  by (rule bitmap_range_operations) (simp add: bm_cap_def)

text \<open>
  C37.  \<open>bitmap_test_and_clear\<close> does not do what its atomic variant does: when the range leaves its
  first word, the bits of the last word below the offset of the first bit within its word are
  neither tested nor cleared.
\<close>

theorem test_and_clear_skips_bits:
  assumes "s + nr \<le> bm_cap (m :: u64 list)"
  shows "\<exists>t. bitmap_test_and_clear m (int s) (int nr) = Some (some_set ({s..<s + nr} - skipped s (s + nr)) m, t) \<and>
    touched (\<lambda>a b. \<not> a \<and> b) ({s..<s + nr} - skipped s (s + nr)) m t"
  using clear_bits.range_phases_touched [OF assms, of "{s..<s + nr} - skipped s (s + nr)" True]
  by (simp add: bitmap_test_and_clear_def)

theorem test_and_clear_skips_bits_witness:
  "(\<exists>t. bitmap_test_and_clear [0, 1] (int 4) (int 61) = Some (some_set ({4..<4 + 61} - skipped 4 (4 + 61)) [0, 1], t) \<and>
      touched (\<lambda>a b. \<not> a \<and> b) ({4..<4 + 61} - skipped 4 (4 + 61)) [0, 1] t) \<and>
    64 \<in> skipped 4 (4 + 61) \<and>
    bitmap_test_and_clear [0, 1] 4 61 = Some (False, [0, 1]) \<and> bitmap_test_and_clear_atomic [0, 1] 4 61 = Some (True, [0, 0])"
proof (intro conjI)
  show "bitmap_test_and_clear [0, 1] 4 61 = Some (False, [0, 1])" by code_simp
  show "bitmap_test_and_clear_atomic [0, 1] 4 61 = Some (True, [0, 0])" by code_simp
qed (rule test_and_clear_skips_bits, simp_all add: bm_cap_def skipped_def)

text \<open>
  For a positive number of bits that the bitmaps hold, \<open>bitmap_empty\<close>, \<open>bitmap_full\<close>,
  \<open>bitmap_equal\<close> and \<open>bitmap_intersects\<close> decide what they say of the bits below that number and
  nothing above it, by the short way for at most 64 bits and by the loop for more.
\<close>

lemma bitmap_comparisons:
  assumes "0 < n" "n \<le> bm_cap a" "n \<le> bm_cap b"
  shows "bitmap_empty a n = Some (\<forall>j < n. \<not> bm_bit a j) \<and> bitmap_full a n = Some (\<forall>j < n. bm_bit a j) \<and>
    bitmap_equal a b n = Some (\<forall>j < n. bm_bit a j = bm_bit b j) \<and>
    bitmap_intersects a b n = Some (\<exists>j < n. bm_bit a j \<and> bm_bit b j)"
proof -
  have "a \<noteq> []" "b \<noteq> []" using assms by (auto simp: bm_cap_def)
  with inline_is_slow [OF assms(1)] slow_scans [OF assms(2,3)] show ?thesis by simp
qed

lemma bitmap_comparisons_witness:
  "bitmap_empty [0, 0x80] 71 = Some (\<forall>j < 71. \<not> bm_bit [0, 0x80 :: u64] j) \<and> bitmap_empty [0, 0x80] 71 = Some True \<and>
   bitmap_empty [0, 0x80] 72 = Some False"
proof -
  have "bitmap_empty [0, 0x80] 71 = Some True" "bitmap_empty [0, 0x80] 72 = Some False" by code_simp+
  with bitmap_comparisons [of 71 "[0, 0x80]" "[0, 0]"] show ?thesis by (simp add: bm_cap_def)
qed

text \<open>
  \<open>bitmap_count_one\<close> counts the set bits below a position, and \<open>bitmap_count_one_with_offset\<close>
  those of a range that starts anywhere in a word.
\<close>

lemma bitmap_counts:
  assumes "off + n \<le> bm_cap m"
  shows "bitmap_count_one m n = Some (card {j. j < n \<and> bm_bit m j}) \<and>
    bitmap_count_one_with_offset m off n = Some (int (card {j. off \<le> j \<and> j < off + n \<and> bm_bit m j}))"
  using count_one [of n m] count_one_with_offset [OF assms] assms by (simp add: ones_def)

lemma bitmap_counts_witness:
  "bitmap_count_one [0xF0, 3] 65 = Some (card {j. j < 65 \<and> bm_bit [0xF0, 3 :: u64] j}) \<and>
   bitmap_count_one_with_offset [0xF0, 3] 5 65 = Some (int (card {j. 5 \<le> j \<and> j < 5 + 65 \<and> bm_bit [0xF0, 3 :: u64] j}))"
  by (rule bitmap_counts) (simp add: bm_cap_def)

text \<open>
  Bits copied into a bitmap at any offset and copied back from that offset are the bits that
  were copied, and the bits of the bitmap below the offset keep their values.
\<close>

lemma offset_copy_round_trip:
  assumes "0 < n" "s + n \<le> bm_cap buf" "n \<le> bm_cap src" "n \<le> bm_cap dst"
  shows "\<exists>b t. bitmap_copy_with_dst_offset buf src s n = Some b \<and> (\<forall>j < s. bm_bit b j = bm_bit buf j) \<and>
    bitmap_copy_with_src_offset dst b s n = Some t \<and> (\<forall>j < n. bm_bit t j = bm_bit src j)"
proof -
  obtain b where b: "bitmap_copy_with_dst_offset buf src s n = Some b" "length b = length buf"
    "\<forall>j < n. bm_bit b (s + j) = bm_bit src j" "\<forall>j < s. bm_bit b j = bm_bit buf j"
    using copy_with_dst_offset [OF assms(1-3)] by blast
  have "s + n \<le> bm_cap b" using assms(2) b(2) by (simp add: bm_cap_def)
  from copy_with_src_offset [OF assms(1,4) this] b show ?thesis by auto
qed

lemma offset_copy_round_trip_witness:
  "\<exists>b t. bitmap_copy_with_dst_offset [-1, -1, -1] [5, 9] 70 66 = Some b \<and> (\<forall>j < 70. bm_bit b j = bm_bit [-1, -1, -1 :: u64] j) \<and>
    bitmap_copy_with_src_offset [0, 0] b 70 66 = Some t \<and> (\<forall>j < 66. bm_bit t j = bm_bit [5, 9 :: u64] j)"
  by (rule offset_copy_round_trip) (simp_all add: bm_cap_def)

text \<open>
  A bitmap that is extended keeps its bits and has every new bit clear, whatever the memory
  that the reallocation added held; shrinking one fails the assertion on the length.
\<close>

lemma zero_extend_hides_junk:
  assumes "a \<le> bm_cap old"
  shows "if a \<le> b then \<exists>t. bitmap_zero_extend junk old a b = Some t \<and> length t = BITS_TO_LONGS b \<and>
      (\<forall>j < b. bm_bit t j = (j < a \<and> bm_bit old j))
    else bitmap_zero_extend junk old a b = None"
proof (cases "a \<le> b")
  case True
  let ?m = "map (\<lambda>i. if i < length old then old ! i else junk i) [0..<BITS_TO_LONGS b]"
  have cap: "a + (b - a) \<le> bm_cap ?m" using True by (simp add: bm_cap_def BITS_TO_LONGS_def)
  obtain t where t: "bitmap_clear ?m (int a) (int (b - a)) = Some t" "touched (\<lambda>a b. \<not> a \<and> b) {a..<a + (b - a)} ?m t"
    using range_words_correct(2) [OF cap] by blast
  have "bm_bit ?m j = bm_bit old j" if "j < a" for j
  proof -
    have "j div 64 < length old" "j div 64 < BITS_TO_LONGS b"
      using that assms True by (auto simp: bm_cap_def BITS_TO_LONGS_def less_mult_imp_div_less)
    then show ?thesis by (simp add: bm_bit_def)
  qed
  with t True cap show ?thesis
    by (auto simp: bitmap_zero_extend_def touched_def of_nat_diff)
next
  case False
  then show ?thesis by (simp add: bitmap_zero_extend_def bitmap_clear_def)
qed

lemma zero_extend_hides_junk_witness:
  "\<exists>t. bitmap_zero_extend (\<lambda>i. -1) [-1] 3 130 = Some t \<and> length t = BITS_TO_LONGS 130 \<and>
      (\<forall>j < 130. bm_bit t j = (j < 3 \<and> bm_bit [-1 :: u64] j))"
  using zero_extend_hides_junk [of 3 "[-1]" 130 "\<lambda>i. -1"] by (simp add: bm_cap_def)

text \<open>
  C35.  The search for a run of at least one clear bit returns, and returns the least aligned position from the
  start on at which the requested number of bits is clear and inside the bitmap, or a number above
  the size if there is none; the sizes must not make the sums wrap around.
\<close>

theorem zero_area_search:
  assumes "unat sz \<le> bm_cap m" "0 < nr" "k < 64" "unat sz + unat nr + 2 ^ k < 2 ^ 64"
  shows "case bitmap_find_next_zero_area m sz start nr (mask k) of
      None \<Rightarrow> False
    | Some r \<Rightarrow>
        if r \<le> sz then zero_area m (unat sz) (unat start) (unat nr) k (unat r) \<and>
          (\<forall>i. zero_area m (unat sz) (unat start) (unat nr) k i \<longrightarrow> unat r \<le> i)
        else (\<forall>i. \<not> zero_area m (unat sz) (unat start) (unat nr) k i)"
  using find_zero_area [OF assms, of start] by (auto split: option.split)

theorem zero_area_search_witness: "bitmap_find_next_zero_area [0x101] 64 0 7 (mask 2) = Some 12"
proof -
  have a: "zero_area [0x101] 64 0 7 2 12" by code_simp
  have f: "filter (zero_area [0x101] 64 0 7 2) [0..<13] = [12]" by code_simp
  obtain r where r: "bitmap_find_next_zero_area [0x101] 64 0 7 (mask 2) = Some r" "zero_area [0x101] 64 0 7 2 (unat r)" "unat r \<le> 12"
    using zero_area_search [of 64 "[0x101]" 7 2 0] a
    by (auto simp: bm_cap_def split: option.split_asm if_split_asm)
  then have "unat r \<in> set (filter (zero_area [0x101] 64 0 7 2) [0..<13])" by simp
  with f have "unat r = unat (12 :: u64)" by simp
  then have "r = 12" by (simp only: word_unat_eq_iff)
  with r(1) show ?thesis by simp
qed

end
