(* ===== verification/Gzvm_Uapi.thy ===== *)
theory Gzvm_Uapi
  imports Gzvm_Prelude
begin

text \<open>
  The kernel interface of the GenieZone driver (\<open>linux-headers/linux/gzvm.h\<close>): its constants, the
  structures the accelerator fills in, and the host calls QEMU issues.

  The kernel itself is not part of the repository.  It is a parameter of the model: a
  \<open>kernel\<close> answers a host call from the calls that were made before, so any behaviour of the
  driver, including one that changes over time, is an instance.  The calls issued so far, in
  order, are the \<^emph>\<open>history\<close> every operation threads through.
\<close>

section \<open>Constants\<close>

definition GZVM_CAP_ARM_VM_IPA_SIZE :: u64 where "GZVM_CAP_ARM_VM_IPA_SIZE = 0xa5"
definition GZVM_CAP_ENABLE_IDLE :: u64 where "GZVM_CAP_ENABLE_IDLE = 0x9203"

text \<open>\<open>FIELD_PREP(GENMASK_ULL(63, 48), 0x0030)\<close> and the plain constants beside it.\<close>

definition GENMASK_ULL :: "nat \<Rightarrow> nat \<Rightarrow> u64" where
  "GENMASK_ULL h l = push_bit l (drop_bit (63 - h) (NOT 0))"

fun ctz_from :: "nat \<Rightarrow> nat \<Rightarrow> u64 \<Rightarrow> nat" where
  "ctz_from 0 i x = i"
| "ctz_from (Suc n) i x = (if bit x i then i else ctz_from n (Suc i) x)"

definition FIELD_PREP :: "u64 \<Rightarrow> u64 \<Rightarrow> u64" where
  "FIELD_PREP m v = push_bit (ctz_from 64 0 m) v AND m"

definition GZVM_REG_SIZE_U64 :: u64 where
  "GZVM_REG_SIZE_U64 = FIELD_PREP (GENMASK_ULL 63 48) 0x0030"
definition GZVM_REG_ARM64 :: u64 where "GZVM_REG_ARM64 = 0x6000000000000000"
definition GZVM_REG_ARM_CORE :: u64 where "GZVM_REG_ARM_CORE = 0x00100000"
definition GZVM_REG_ARM64_SYSREG :: u64 where "GZVM_REG_ARM64_SYSREG = 0x00130000"

definition GZVM_USER_MEM_REGION_GUEST_MEM :: u32 where "GZVM_USER_MEM_REGION_GUEST_MEM = 1"
definition GZVM_USER_MEM_REGION_PROTECT_FW :: u32 where "GZVM_USER_MEM_REGION_PROTECT_FW = 2"

definition GZVM_IRQ_VCPU_MASK :: u32 where "GZVM_IRQ_VCPU_MASK = 0xff"
definition GZVM_IRQ_TYPE_CPU :: u32 where "GZVM_IRQ_TYPE_CPU = 0"
definition GZVM_IRQ_TYPE_SPI :: u32 where "GZVM_IRQ_TYPE_SPI = 1"
definition GZVM_IRQ_TYPE_PPI :: u32 where "GZVM_IRQ_TYPE_PPI = 2"
definition GZVM_IRQ_CPU_IRQ :: u32 where "GZVM_IRQ_CPU_IRQ = 0"
definition GZVM_IRQ_CPU_FIQ :: u32 where "GZVM_IRQ_CPU_FIQ = 1"
definition GZVM_IRQ_VCPU2_SHIFT :: nat where "GZVM_IRQ_VCPU2_SHIFT = 28"
definition GZVM_IRQ_VCPU2_MASK :: u32 where "GZVM_IRQ_VCPU2_MASK = 0xf"
definition GZVM_IRQ_TYPE_SHIFT :: nat where "GZVM_IRQ_TYPE_SHIFT = 24"
definition GZVM_IRQ_TYPE_MASK :: u32 where "GZVM_IRQ_TYPE_MASK = 0xf"
definition GZVM_IRQ_VCPU_SHIFT :: nat where "GZVM_IRQ_VCPU_SHIFT = 16"
definition GZVM_IRQ_NUM_SHIFT :: nat where "GZVM_IRQ_NUM_SHIFT = 0"
definition GZVM_IRQ_NUM_MASK :: u32 where "GZVM_IRQ_NUM_MASK = 0xffff"

definition GZVM_DEV_TYPE_ARM_VGIC_V3_DIST :: u32 where "GZVM_DEV_TYPE_ARM_VGIC_V3_DIST = 0"
definition GZVM_DEV_TYPE_ARM_VGIC_V3_REDIST :: u32 where "GZVM_DEV_TYPE_ARM_VGIC_V3_REDIST = 1"

definition GZVM_EXIT_UNKNOWN :: u32 where "GZVM_EXIT_UNKNOWN = 0x92920000"
definition GZVM_EXIT_MMIO :: u32 where "GZVM_EXIT_MMIO = 0x92920001"
definition GZVM_EXIT_HYPERCALL :: u32 where "GZVM_EXIT_HYPERCALL = 0x92920002"
definition GZVM_EXIT_IRQ :: u32 where "GZVM_EXIT_IRQ = 0x92920003"
definition GZVM_EXIT_EXCEPTION :: u32 where "GZVM_EXIT_EXCEPTION = 0x92920004"
definition GZVM_EXIT_DEBUG :: u32 where "GZVM_EXIT_DEBUG = 0x92920005"
definition GZVM_EXIT_FAIL_ENTRY :: u32 where "GZVM_EXIT_FAIL_ENTRY = 0x92920006"
definition GZVM_EXIT_INTERNAL_ERROR :: u32 where "GZVM_EXIT_INTERNAL_ERROR = 0x92920007"
definition GZVM_EXIT_SYSTEM_EVENT :: u32 where "GZVM_EXIT_SYSTEM_EVENT = 0x92920008"
definition GZVM_EXIT_SHUTDOWN :: u32 where "GZVM_EXIT_SHUTDOWN = 0x92920009"
definition GZVM_EXIT_GZ :: u32 where "GZVM_EXIT_GZ = 0x9292000a"
definition GZVM_EXIT_IDLE :: u32 where "GZVM_EXIT_IDLE = 0x9292000b"
definition GZVM_EXIT_IPI :: u32 where "GZVM_EXIT_IPI = 0x9292000d"

definition GZVM_SYSTEM_EVENT_SHUTDOWN :: u32 where "GZVM_SYSTEM_EVENT_SHUTDOWN = 1"
definition GZVM_SYSTEM_EVENT_RESET :: u32 where "GZVM_SYSTEM_EVENT_RESET = 2"
definition GZVM_SYSTEM_EVENT_CRASH :: u32 where "GZVM_SYSTEM_EVENT_CRASH = 3"
definition GZVM_SYSTEM_EVENT_WAKEUP :: u32 where "GZVM_SYSTEM_EVENT_WAKEUP = 4"
definition GZVM_SYSTEM_EVENT_SUSPEND :: u32 where "GZVM_SYSTEM_EVENT_SUSPEND = 5"
definition GZVM_SYSTEM_EVENT_SEV_TERM :: u32 where "GZVM_SYSTEM_EVENT_SEV_TERM = 6"
definition GZVM_SYSTEM_EVENT_S2IDLE :: u32 where "GZVM_SYSTEM_EVENT_S2IDLE = 7"

definition GZVM_IRQFD_FLAG_DEASSIGN :: u32 where "GZVM_IRQFD_FLAG_DEASSIGN = 1"
definition GZVM_IRQFD_FLAG_RESAMPLE :: u32 where "GZVM_IRQFD_FLAG_RESAMPLE = 2"
definition GZVM_IOEVENTFD_FLAG_DATAMATCH :: u32 where "GZVM_IOEVENTFD_FLAG_DATAMATCH = 1"
definition GZVM_IOEVENTFD_FLAG_PIO :: u32 where "GZVM_IOEVENTFD_FLAG_PIO = 2"
definition GZVM_IOEVENTFD_FLAG_DEASSIGN :: u32 where "GZVM_IOEVENTFD_FLAG_DEASSIGN = 4"

lemmas gzvm_exit_defs =
  GZVM_EXIT_UNKNOWN_def GZVM_EXIT_MMIO_def GZVM_EXIT_HYPERCALL_def GZVM_EXIT_IRQ_def
  GZVM_EXIT_EXCEPTION_def GZVM_EXIT_DEBUG_def GZVM_EXIT_FAIL_ENTRY_def
  GZVM_EXIT_INTERNAL_ERROR_def GZVM_EXIT_SYSTEM_EVENT_def GZVM_EXIT_SHUTDOWN_def
  GZVM_EXIT_GZ_def GZVM_EXIT_IDLE_def GZVM_EXIT_IPI_def

lemmas gzvm_system_event_defs =
  GZVM_SYSTEM_EVENT_SHUTDOWN_def GZVM_SYSTEM_EVENT_RESET_def GZVM_SYSTEM_EVENT_CRASH_def
  GZVM_SYSTEM_EVENT_WAKEUP_def GZVM_SYSTEM_EVENT_SUSPEND_def GZVM_SYSTEM_EVENT_SEV_TERM_def
  GZVM_SYSTEM_EVENT_S2IDLE_def

lemmas gzvm_irq_defs =
  GZVM_IRQ_VCPU_MASK_def GZVM_IRQ_TYPE_CPU_def GZVM_IRQ_TYPE_SPI_def GZVM_IRQ_TYPE_PPI_def
  GZVM_IRQ_CPU_IRQ_def GZVM_IRQ_CPU_FIQ_def GZVM_IRQ_VCPU2_SHIFT_def GZVM_IRQ_VCPU2_MASK_def
  GZVM_IRQ_TYPE_SHIFT_def GZVM_IRQ_TYPE_MASK_def GZVM_IRQ_VCPU_SHIFT_def GZVM_IRQ_NUM_SHIFT_def
  GZVM_IRQ_NUM_MASK_def

section \<open>Request structures\<close>

record gzvm_userspace_memory_region =
  gumr_slot :: nat
  gumr_flags :: u32
  guest_phys_addr :: u64
  memory_size :: u64
  userspace_addr :: u64

record gzvm_irq_level =
  il_irq :: u32
  il_level :: u32

record gzvm_create_device =
  dev_type :: u32
  dev_addr :: u64
  dev_reg_size :: u64

record gzvm_one_reg =
  reg_id :: u64
  reg_val :: u64

record gzvm_irqfd =
  irqfd_fd :: int
  irqfd_gsi :: int
  irqfd_flags :: u32
  irqfd_resamplefd :: int

record gzvm_ioeventfd =
  io_datamatch :: u64
  io_addr :: u64
  io_len :: u32
  io_fd :: int
  io_flags :: u32

record gzvm_dtb_config =
  dtb_addr :: u64
  dtb_cfg_size :: u64

section \<open>Host calls\<close>

text \<open>
  An \<open>ioctl\<close> on the VM and on a vCPU; the structure an ioctl passes by address is the argument
  of the constructor, and \<open>gzvm_one_reg\<close> carries the value its \<open>addr\<close> points to.  \<open>GZVM_RUN\<close> passes
  the shared page of the vCPU; its argument is the byte of it the host reads, \<open>immediate_exit\<close>.
\<close>

datatype vm_ioctl =
    GZVM_CHECK_EXTENSION u64
  | GZVM_CREATE_VCPU nat
  | GZVM_SET_USER_MEMORY_REGION gzvm_userspace_memory_region
  | GZVM_IRQ_LINE gzvm_irq_level
  | GZVM_CREATE_DEVICE gzvm_create_device
  | GZVM_IRQFD gzvm_irqfd
  | GZVM_IOEVENTFD gzvm_ioeventfd
  | GZVM_SET_DTB_CONFIG gzvm_dtb_config

datatype vcpu_ioctl =
    GZVM_RUN u8
  | GZVM_SET_ONE_REG gzvm_one_reg

datatype host_call =
    Open_gzvm
  | Close int
  | CreateVm int
  | VmIoctl int vm_ioctl
  | VcpuIoctl int vcpu_ioctl
  | Eventfd
  | OpenPipe
  | SetNonblocking int
  | WriteEvent int
  | Mmap u64 u64 bool
  | SigactionDefault int
  | SigactionHandler int
  | SigmaskBlock "int list"
  | SigmaskUnblock "int list"
  | Raise int
  | SigTimedWait
  | SigPending

text \<open>
  The third argument of \<open>Mmap\<close> says whether the mapping is made with \<open>MAP_FIXED_NOREPLACE\<close> (and
  otherwise with \<open>MAP_FIXED\<close>); both are private and anonymous.

  \<open>SigTimedWait\<close> consumes a pending \<open>SIG_IPI\<close>, if there is one, and \<open>SigPending\<close> asks whether one is
  pending, which a successful answer says by a non-zero output.

  The answer: the return value, \<open>errno\<close> where the call fails, the value the kernel writes back
  through the argument (\<open>GZVM_CHECK_EXTENSION\<close>), and the two descriptors of a pipe.
\<close>

record host_answer =
  ans_ret :: int
  ans_errno :: int
  ans_out :: u64
  ans_fds :: "int \<times> int"

type_synonym history = "host_call list"
type_synonym kernel = "history \<Rightarrow> host_call \<Rightarrow> host_answer"

definition hcall :: "kernel \<Rightarrow> host_call \<Rightarrow> history \<Rightarrow> host_answer \<times> history" where
  "hcall K c h = (K h c, h @ [c])"

text \<open>A kernel whose every call succeeds and returns \<open>0\<close>, used to instantiate the parameter.\<close>

definition kernel_ok :: kernel where
  "kernel_ok h c = \<lparr>ans_ret = 0, ans_errno = 0, ans_out = 0, ans_fds = (0, 0)\<rparr>"

definition ENOENT :: int where "ENOENT = 2"
definition EINTR :: int where "EINTR = 4"
definition EAGAIN :: int where "EAGAIN = 11"
definition EEXIST :: int where "EEXIST = 17"
definition ENOSPC :: int where "ENOSPC = 28"
definition ENOSYS :: int where "ENOSYS = 38"
definition EOPNOTSUPP :: int where "EOPNOTSUPP = 95"

definition SIG_IPI :: int where "SIG_IPI = 10"
definition SIGBUS :: int where "SIGBUS = 7"
definition SIGSEGV :: int where "SIGSEGV = 11"

end
