(* ===== verification/Gzvm_State.thy ===== *)
theory Gzvm_State
  imports Gzvm_Uapi
begin

text \<open>
  The accelerator's state: the memory regions QEMU's memory core reports
  (\<open>include/exec/memory.h\<close>), the slot table and \<open>GZVMState\<close> (\<open>include/system/gzvm_int.h\<close>), the
  signal handler's snapshot (\<open>accel/gzvm/gzvm-signal.c\<close>), and the process around them.
\<close>

section \<open>Memory regions\<close>

text \<open>
  The fields of \<open>MemoryRegion\<close> the accelerator reads.  \<open>mr_ram_ptr\<close> is the host address
  \<open>memory_region_get_ram_ptr()\<close> returns for the region.
\<close>

record MemoryRegion =
  mr_ram :: bool
  mr_readonly :: bool
  mr_rom_device :: bool
  mr_romd_mode :: bool
  mr_ram_ptr :: u64

record MemoryRegionSection =
  sec_mr :: MemoryRegion
  sec_offset_within_region :: u64
  sec_offset_within_address_space :: u64
  sec_size :: "128 word"

definition memory_region_is_ram :: "MemoryRegion \<Rightarrow> bool" where
  "memory_region_is_ram mr = mr_ram mr"

definition memory_region_is_romd :: "MemoryRegion \<Rightarrow> bool" where
  "memory_region_is_romd mr = (mr_rom_device mr \<and> mr_romd_mode mr)"

definition memory_region_is_rom :: "MemoryRegion \<Rightarrow> bool" where
  "memory_region_is_rom mr = (mr_ram mr \<and> mr_readonly mr)"

text \<open>\<open>int128_get64()\<close> asserts that the value fits.\<close>

definition int128_get64 :: "128 word \<Rightarrow> u64 option" where
  "int128_get64 a = (let r = ucast a :: u64 in if ucast r = a then Some r else None)"

section \<open>The accelerator\<close>

record gzvm_slot =
  slot_start :: u64
  slot_size :: u64
  slot_mem :: u64
  slot_id :: nat
  slot_flags :: u32

definition GZVM_MAX_MEM_SLOTS :: nat where "GZVM_MAX_MEM_SLOTS = 512"

text \<open>A \<open>QemuMutex\<close>: its \<open>initialized\<close> flag, and whether the lock is held.\<close>

datatype qemu_mutex = MutexUninit | MutexUnlocked | MutexLocked

text \<open>
  \<open>slots\<close> and \<open>sorted_ids\<close> are the two arrays of
  \<open>nr_slots_allocated\<close> elements; the first \<open>nr_active_slots\<close> elements of \<open>sorted_ids\<close> are in use.
\<close>

record GZVMState =
  slots_lock :: qemu_mutex
  slots :: "gzvm_slot list"
  sorted_ids :: "nat list"
  nr_active_slots :: nat
  nr_slots_allocated :: nat
  gz_fd :: int
  vmfd :: int
  dtb_start :: u64
  dtb_size :: u64
  gic_dist_base :: u64
  gic_redist_base :: u64
  gic_redist_size :: u64
  ram_base :: u64
  msi_vectors :: u32
  transaction_add :: "MemoryRegionSection list"
  transaction_del :: "MemoryRegionSection list"

definition GZVM_SIGNAL_MAX_REGIONS :: nat where "GZVM_SIGNAL_MAX_REGIONS = 64"

record GZVMSignalHvaRange =
  hva_start :: u64
  hva_end :: u64

text \<open>
  The process: the accelerator object, whether \<open>current_accel()\<close> returns it, the names of the
  memory listeners that are registered, the static variables of \<open>gzvm-signal.c\<close>, the two values of the machine the accelerator asks for, and the host calls
  made so far.
\<close>

record gzvm_vm =
  vm_accel :: bool
  vm_state :: GZVMState
  vm_listeners :: "string list"
  gzvm_signal_hva_ranges :: "GZVMSignalHvaRange list"
  gzvm_signal_nr_hva_ranges :: nat
  gzvm_signal_page_size :: u64
  machine_ram_size :: u64
  host_page_size :: u64
  vm_hist :: history

text \<open>\<open>gzvm_vm_ioctl()\<close> and \<open>gzvm_dev_ioctl()\<close> of \<open>accel/gzvm/gzvm-ioctl.c\<close>.\<close>

definition gzvm_vm_ioctl :: "kernel \<Rightarrow> vm_ioctl \<Rightarrow> gzvm_vm \<Rightarrow> host_answer \<times> gzvm_vm" where
  "gzvm_vm_ioctl K req v =
     (let (a, h) = hcall K (VmIoctl (vmfd (vm_state v)) req) (vm_hist v)
      in (a, v\<lparr>vm_hist := h\<rparr>))"

definition gzvm_dev_ioctl_create_vm :: "kernel \<Rightarrow> gzvm_vm \<Rightarrow> host_answer \<times> gzvm_vm" where
  "gzvm_dev_ioctl_create_vm K v =
     (let (a, h) = hcall K (CreateVm (gz_fd (vm_state v))) (vm_hist v)
      in (a, v\<lparr>vm_hist := h\<rparr>))"

text \<open>
  The mutex (\<open>util/qemu-thread-posix.c\<close>).  Every operation asserts that it was initialised.  Locking
  a held (non-recursive) mutex deadlocks and destroying one that is held is an error exit; both
  are aborts of the model.  \<open>gzvm_assert_mutex_locked()\<close> passes exactly when the lock is held.
\<close>

abbreviation slots_locked :: "GZVMState \<Rightarrow> bool" where
  "slots_locked s \<equiv> slots_lock s = MutexLocked"

definition gzvm_slots_lock :: "GZVMState \<Rightarrow> GZVMState option" where
  "gzvm_slots_lock s =
     (if slots_lock s = MutexUnlocked then Some (s\<lparr>slots_lock := MutexLocked\<rparr>) else None)"

definition gzvm_slots_unlock :: "GZVMState \<Rightarrow> GZVMState option" where
  "gzvm_slots_unlock s =
     (if slots_lock s = MutexUninit then None else Some (s\<lparr>slots_lock := MutexUnlocked\<rparr>))"

definition slots_lock_destroy :: "GZVMState \<Rightarrow> GZVMState option" where
  "slots_lock_destroy s =
     (if slots_lock s = MutexUnlocked then Some (s\<lparr>slots_lock := MutexUninit\<rparr>) else None)"

definition gzvm_assert_mutex_locked :: "GZVMState \<Rightarrow> unit option" where
  "gzvm_assert_mutex_locked s = (if slots_locked s then Some () else None)"

lemma gzvm_vm_ioctl_frame [frame_simps]:
  "vm_state (snd (gzvm_vm_ioctl K req v)) = vm_state v"
  "gzvm_signal_hva_ranges (snd (gzvm_vm_ioctl K req v)) = gzvm_signal_hva_ranges v"
  "gzvm_signal_nr_hva_ranges (snd (gzvm_vm_ioctl K req v)) = gzvm_signal_nr_hva_ranges v"
  "gzvm_signal_page_size (snd (gzvm_vm_ioctl K req v)) = gzvm_signal_page_size v"
  "machine_ram_size (snd (gzvm_vm_ioctl K req v)) = machine_ram_size v"
  "host_page_size (snd (gzvm_vm_ioctl K req v)) = host_page_size v"
  "vm_accel (snd (gzvm_vm_ioctl K req v)) = vm_accel v"
  "vm_listeners (snd (gzvm_vm_ioctl K req v)) = vm_listeners v"
  by (simp_all add: gzvm_vm_ioctl_def hcall_def)

lemma gzvm_vm_ioctl_hist:
  "vm_hist (snd (gzvm_vm_ioctl K req v)) = vm_hist v @ [VmIoctl (vmfd (vm_state v)) req]"
  "fst (gzvm_vm_ioctl K req v) = K (vm_hist v) (VmIoctl (vmfd (vm_state v)) req)"
  by (simp_all add: gzvm_vm_ioctl_def hcall_def)

lemma int128_get64_ucast: "int128_get64 (ucast (x :: u64)) = Some x"
proof -
  have "ucast (ucast x :: 128 word) = x"
    by (rule bit_word_eqI) (simp add: bit_simps)
  then show ?thesis by (simp add: int128_get64_def)
qed

end
