(* ===== verification/Gzvm_Irq.thy ===== *)
theory Gzvm_Irq
  imports Gzvm_State
begin

text \<open>
  Event notifiers (\<open>util/event_notifier-posix.c\<close>) and what the accelerator binds them to
  (\<open>accel/gzvm/gzvm-irq.c\<close>): ioeventfds, through which the kernel turns a guest's write to a
  doorbell register into an event, and irqfds, through which an event becomes an injected
  interrupt; the two environment switches of the accelerator.
\<close>

section \<open>Event notifiers\<close>

record EventNotifier =
  rfd :: int
  wfd :: int
  en_initialized :: bool

definition event_notifier_zero :: EventNotifier where
  "event_notifier_zero = \<lparr>rfd = 0, wfd = 0, en_initialized = False\<rparr>"

text \<open>
  \<open>event_notifier_set()\<close> repeats the write while it is interrupted; a kernel that interrupts it
  forever keeps it from returning, which is \<open>None\<close>.
\<close>

partial_function (option) event_write :: "kernel \<Rightarrow> int \<Rightarrow> history \<Rightarrow> (host_answer \<times> history) option" where
  "event_write K fd h =
     (let (a, h') = hcall K (WriteEvent fd) h
      in if ans_ret a < 0 \<and> ans_errno a = EINTR then event_write K fd h' else Some (a, h'))"

definition event_notifier_set :: "kernel \<Rightarrow> EventNotifier \<Rightarrow> history \<Rightarrow> (int \<times> history) option" where
  "event_notifier_set K e h =
     (if \<not> en_initialized e then Some (-1, h)
      else do {
        (a, h) \<leftarrow> event_write K (wfd e) h;
        Some (if ans_ret a < 0 \<and> ans_errno a \<noteq> EAGAIN then - ans_errno a else 0, h)
      })"

text \<open>
  \<open>event_notifier_init()\<close> in a build with \<open>eventfd\<close>; the pipe is the fallback for a kernel without
  it.  \<open>g_unix_open_pipe\<close> and \<open>g_unix_set_fd_nonblocking\<close> return false (0) where they fail.
\<close>

definition event_notifier_init ::
  "kernel \<Rightarrow> EventNotifier \<Rightarrow> bool \<Rightarrow> history \<Rightarrow> (int \<times> EventNotifier \<times> history) option" where
  "event_notifier_init K e active h =
     (let ready = (\<lambda>r w h.
            let e = \<lparr>rfd = r, wfd = w, en_initialized = True\<rparr>
            in if active then do { (_, h) \<leftarrow> event_notifier_set K e h; Some (0, e, h) }
               else Some (0, e, h));
          (a, h) = hcall K Eventfd h
      in if ans_ret a \<ge> 0 then ready (ans_ret a) (ans_ret a) h
         else if ans_errno a \<noteq> ENOSYS then Some (- ans_errno a, e, h)
         else
           (let (a, h) = hcall K OpenPipe h; (r, w) = ans_fds a
            in if ans_ret a = 0 then Some (- ans_errno a, e, h)
               else
                 (let (b, h) = hcall K (SetNonblocking r) h
                  in if ans_ret b = 0 then Some (- ans_errno b, e, h @ [Close r, Close w])
                     else
                       (let (c, h) = hcall K (SetNonblocking w) h
                        in if ans_ret c = 0 then Some (- ans_errno c, e, h @ [Close r, Close w])
                           else ready r w h))))"

definition event_notifier_cleanup :: "EventNotifier \<Rightarrow> history \<Rightarrow> EventNotifier \<times> history" where
  "event_notifier_cleanup e h =
     (if \<not> en_initialized e then (e, h)
      else (\<lparr>rfd = -1, wfd = -1, en_initialized = False\<rparr>,
            (if rfd e \<noteq> wfd e then h @ [Close (rfd e)] else h) @ [Close (wfd e)]))"

definition event_notifier_get_fd :: "EventNotifier \<Rightarrow> int" where
  "event_notifier_get_fd e = rfd e"

section \<open>Environment switches\<close>

text \<open>
  Both functions read the environment once and keep the answer in a static variable that starts
  at \<open>-1\<close>; \<open>env\<close> is what \<open>getenv\<close> returns and \<open>allowed\<close> the static variable.
\<close>

definition gzvm_event_idx_allowed :: "string option \<Rightarrow> int \<Rightarrow> bool \<times> int" where
  "gzvm_event_idx_allowed env allowed =
     (let allowed' = (if allowed < 0
                      then (case env of None \<Rightarrow> 0 | Some s \<Rightarrow> if s = ''on'' \<or> s = ''1'' then 1 else 0)
                      else allowed)
      in (allowed' \<noteq> 0, allowed'))"

definition gzvm_intx_irqfd_allowed :: "string option \<Rightarrow> int \<Rightarrow> bool \<times> int" where
  "gzvm_intx_irqfd_allowed env allowed =
     (let allowed' = (if allowed < 0
                      then (case env of None \<Rightarrow> 1 | Some s \<Rightarrow> if s = ''off'' \<or> s = ''0'' then 0 else 1)
                      else allowed)
      in (allowed' \<noteq> 0, allowed'))"

section \<open>ioeventfds\<close>

definition gzvm_set_ioeventfd_mmio ::
  "kernel \<Rightarrow> int \<Rightarrow> u64 \<Rightarrow> u32 \<Rightarrow> u64 \<Rightarrow> bool \<Rightarrow> bool \<Rightarrow> gzvm_vm \<Rightarrow> host_answer \<times> gzvm_vm" where
  "gzvm_set_ioeventfd_mmio K fd addr sz data datamatch assign v =
     gzvm_vm_ioctl K (GZVM_IOEVENTFD
       \<lparr>io_datamatch = (if datamatch then data else 0), io_addr = addr, io_len = sz, io_fd = fd,
        io_flags = (if datamatch then GZVM_IOEVENTFD_FLAG_DATAMATCH else 0) OR
                   (if \<not> assign then GZVM_IOEVENTFD_FLAG_DEASSIGN else 0)\<rparr>) v"

text \<open>The I/O port variant; the address parameter is a \<open>uint16_t\<close>.\<close>

definition gzvm_set_ioeventfd_pio ::
  "kernel \<Rightarrow> int \<Rightarrow> u16 \<Rightarrow> u32 \<Rightarrow> u64 \<Rightarrow> bool \<Rightarrow> bool \<Rightarrow> gzvm_vm \<Rightarrow> host_answer \<times> gzvm_vm" where
  "gzvm_set_ioeventfd_pio K fd addr sz data datamatch assign v =
     gzvm_vm_ioctl K (GZVM_IOEVENTFD
       \<lparr>io_datamatch = (if datamatch then data else 0), io_addr = ucast addr, io_len = sz, io_fd = fd,
        io_flags = GZVM_IOEVENTFD_FLAG_PIO OR
                   (if datamatch then GZVM_IOEVENTFD_FLAG_DATAMATCH else 0) OR
                   (if \<not> assign then GZVM_IOEVENTFD_FLAG_DEASSIGN else 0)\<rparr>) v"

text \<open>
  The listener callbacks.  They differ in which failures they report; a failure changes nothing
  else, so the report flag is the second result.
\<close>

definition gzvm_mem_ioeventfd_add ::
  "kernel \<Rightarrow> MemoryRegionSection \<Rightarrow> bool \<Rightarrow> u64 \<Rightarrow> EventNotifier \<Rightarrow> gzvm_vm \<Rightarrow> (bool \<times> gzvm_vm) option" where
  "gzvm_mem_ioeventfd_add K sec match_data data e v =
     do {
       sz \<leftarrow> int128_get64 (sec_size sec);
       let (r, v) = gzvm_set_ioeventfd_mmio K (event_notifier_get_fd e)
                      (sec_offset_within_address_space sec) (ucast sz) data match_data True v;
       if ans_ret r < 0 \<and> ans_errno r = EEXIST then Some (False, v)
       else Some (ans_ret r < 0, v)
     }"

definition gzvm_mem_ioeventfd_del ::
  "kernel \<Rightarrow> MemoryRegionSection \<Rightarrow> bool \<Rightarrow> u64 \<Rightarrow> EventNotifier \<Rightarrow> gzvm_vm \<Rightarrow> (bool \<times> gzvm_vm) option" where
  "gzvm_mem_ioeventfd_del K sec match_data data e v =
     do {
       sz \<leftarrow> int128_get64 (sec_size sec);
       let (r, v) = gzvm_set_ioeventfd_mmio K (event_notifier_get_fd e)
                      (sec_offset_within_address_space sec) (ucast sz) data match_data False v;
       Some (ans_ret r < 0 \<and> ans_errno r \<noteq> ENOENT, v)
     }"

definition gzvm_io_ioeventfd_add ::
  "kernel \<Rightarrow> MemoryRegionSection \<Rightarrow> bool \<Rightarrow> u64 \<Rightarrow> EventNotifier \<Rightarrow> gzvm_vm \<Rightarrow> (bool \<times> gzvm_vm) option" where
  "gzvm_io_ioeventfd_add K sec match_data data e v =
     do {
       sz \<leftarrow> int128_get64 (sec_size sec);
       let (r, v) = gzvm_set_ioeventfd_pio K (event_notifier_get_fd e)
                      (ucast (sec_offset_within_address_space sec)) (ucast sz) data match_data True v;
       if ans_ret r < 0 \<and> ans_errno r = EEXIST then Some (False, v)
       else Some (ans_ret r < 0, v)
     }"

definition gzvm_io_ioeventfd_del ::
  "kernel \<Rightarrow> MemoryRegionSection \<Rightarrow> bool \<Rightarrow> u64 \<Rightarrow> EventNotifier \<Rightarrow> gzvm_vm \<Rightarrow> (bool \<times> gzvm_vm) option" where
  "gzvm_io_ioeventfd_del K sec match_data data e v =
     do {
       sz \<leftarrow> int128_get64 (sec_size sec);
       let (r, v) = gzvm_set_ioeventfd_pio K (event_notifier_get_fd e)
                      (ucast (sec_offset_within_address_space sec)) (ucast sz) data match_data False v;
       Some (ans_ret r < 0 \<and> ans_errno r \<noteq> ENOENT, v)
     }"

section \<open>irqfds\<close>

definition gzvm_add_irqfd ::
  "kernel \<Rightarrow> EventNotifier \<Rightarrow> EventNotifier option \<Rightarrow> int \<Rightarrow> gzvm_vm \<Rightarrow> host_answer \<times> gzvm_vm" where
  "gzvm_add_irqfd K n rn gsi v =
     gzvm_vm_ioctl K (GZVM_IRQFD
       \<lparr>irqfd_fd = event_notifier_get_fd n, irqfd_gsi = gsi,
        irqfd_flags = (case rn of None \<Rightarrow> 0 | Some _ \<Rightarrow> GZVM_IRQFD_FLAG_RESAMPLE),
        irqfd_resamplefd = (case rn of None \<Rightarrow> 0 | Some e \<Rightarrow> event_notifier_get_fd e)\<rparr>) v"

definition gzvm_remove_irqfd :: "kernel \<Rightarrow> EventNotifier \<Rightarrow> int \<Rightarrow> gzvm_vm \<Rightarrow> host_answer \<times> gzvm_vm" where
  "gzvm_remove_irqfd K n gsi v =
     gzvm_vm_ioctl K (GZVM_IRQFD
       \<lparr>irqfd_fd = event_notifier_get_fd n, irqfd_gsi = gsi,
        irqfd_flags = GZVM_IRQFD_FLAG_DEASSIGN, irqfd_resamplefd = 0\<rparr>) v"

section \<open>Lemmas\<close>

text \<open>A kernel that never interrupts a write to an event descriptor.\<close>

definition no_eintr :: "kernel \<Rightarrow> bool" where
  "no_eintr K \<longleftrightarrow> (\<forall>h fd. \<not> (ans_ret (K h (WriteEvent fd)) < 0 \<and> ans_errno (K h (WriteEvent fd)) = EINTR))"

lemma no_eintr_kernel_ok [simp]: "no_eintr kernel_ok"
  by (simp add: no_eintr_def kernel_ok_def)

lemma event_write_once: "no_eintr K \<Longrightarrow> event_write K fd h = Some (K h (WriteEvent fd), h @ [WriteEvent fd])"
  by (subst event_write.simps) (auto simp: no_eintr_def hcall_def)

text \<open>However often the write is interrupted, what was issued is one kind of call only.\<close>

lemma event_write_hist:
  "event_write K fd h = Some y \<Longrightarrow> \<exists>n. snd y = h @ replicate (Suc n) (WriteEvent fd)"
proof (erule event_write.raw_induct [rotated, where P = "\<lambda>K fd h y. \<exists>n. snd y = h @ replicate (Suc n) (WriteEvent fd)"])
  fix f K fd h y
  assume IH: "\<And>K fd h y. f K fd h = Some y \<Longrightarrow> \<exists>n. snd y = h @ replicate (Suc n) (WriteEvent fd)"
    and eq: "(let (a, h') = hcall K (WriteEvent fd) h
       in if ans_ret a < 0 \<and> ans_errno a = EINTR then f K fd h' else Some (a, h')) = Some y"
  show "\<exists>n. snd y = h @ replicate (Suc n) (WriteEvent fd)"
  proof (cases "ans_ret (K h (WriteEvent fd)) < 0 \<and> ans_errno (K h (WriteEvent fd)) = EINTR")
    case True
    with eq have "f K fd (h @ [WriteEvent fd]) = Some y" by (simp add: hcall_def)
    from IH [OF this] obtain n where "snd y = (h @ [WriteEvent fd]) @ replicate (Suc n) (WriteEvent fd)"
      by blast
    then show ?thesis by (intro exI [of _ "Suc n"]) simp
  next
    case False
    with eq show ?thesis by (intro exI [of _ 0]) (auto simp: hcall_def)
  qed
qed

lemma event_notifier_set_once:
  "no_eintr K \<Longrightarrow> en_initialized e \<Longrightarrow>
   \<exists>r. event_notifier_set K e h = Some (r, h @ [WriteEvent (wfd e)])"
  by (simp add: event_notifier_set_def event_write_once)

lemma event_notifier_set_uninit [simp]:
  "\<not> en_initialized e \<Longrightarrow> event_notifier_set K e h = Some (-1, h)"
  by (simp add: event_notifier_set_def)

lemma event_notifier_cleanup_uninit [simp]:
  "en_initialized (fst (event_notifier_cleanup e h)) = False"
  by (simp add: event_notifier_cleanup_def)

end
