(* ===== verification/Qemu_Gicv3.thy ===== *)
theory Qemu_Gicv3
  imports Qemu_Bitops
begin

text \<open>
  The state of the GICv3 interrupt controller and the part of it that every accelerator shares
  (\<open>include/hw/intc/arm_gicv3_common.h\<close>, \<open>hw/intc/arm_gicv3_common.c\<close>,
  \<open>hw/intc/gicv3_internal.h\<close>): the bitmap accessors, realising and resetting the device, and the
  affinity routing cache.  The CPU interface registers (\<open>icc_*\<close>, \<open>ich_*\<close>) are not touched by these
  operations and are left out.
\<close>

section \<open>State\<close>

definition GIC_INTERNAL :: nat where "GIC_INTERNAL = 32"
definition GICV3_MAXIRQ :: nat where "GICV3_MAXIRQ = 1020"
definition GICV3_BMP_SIZE :: nat where "GICV3_BMP_SIZE = (GICV3_MAXIRQ + 31) div 32"
definition GICV3_REDIST_SIZE :: int where "GICV3_REDIST_SIZE = 0x20000"
definition GICV4_REDIST_SIZE :: int where "GICV4_REDIST_SIZE = 0x40000"

definition GICR_TYPER_PLPIS :: u64 where "GICR_TYPER_PLPIS = 1"
definition GICR_TYPER_VLPIS :: u64 where "GICR_TYPER_VLPIS = 2"
definition GICR_TYPER_LAST :: u64 where "GICR_TYPER_LAST = 0x10"
definition GICR_CTLR_CES :: u32 where "GICR_CTLR_CES = 2"
definition GICR_WAKER_ProcessorSleep :: u32 where "GICR_WAKER_ProcessorSleep = 2"
definition GICR_WAKER_ChildrenAsleep :: u32 where "GICR_WAKER_ChildrenAsleep = 4"
definition GICD_CTLR_ARE :: u32 where "GICD_CTLR_ARE = 0x10"
definition GICD_CTLR_ARE_S :: u32 where "GICD_CTLR_ARE_S = 0x10"
definition GICD_CTLR_ARE_NS :: u32 where "GICD_CTLR_ARE_NS = 0x20"
definition GICD_CTLR_DS :: u32 where "GICD_CTLR_DS = 0x40"

record GICv3CPUState =
  cs_level :: u32
  gicr_ctlr :: u32
  gicr_typer :: u64
  gicr_statusr :: "u32 list"
  gicr_waker :: u32
  gicr_propbaser :: u64
  gicr_pendbaser :: u64
  gicr_igroupr0 :: u32
  gicr_ienabler0 :: u32
  gicr_ipendr0 :: u32
  gicr_iactiver0 :: u32
  cs_edge_trigger :: u32
  gicr_igrpmodr0 :: u32
  gicr_nsacr :: u32
  gicr_ipriorityr :: "u8 list"
  gicr_vpropbaser :: u64
  gicr_vpendbaser :: u64
  hppi_prio :: u8
  hppi_nmi :: bool
  hpplpi_prio :: u8
  hpplpi_nmi :: bool
  hppvlpi_prio :: u8
  hppvlpi_nmi :: bool

definition zero_cpu :: GICv3CPUState where
  "zero_cpu = \<lparr>cs_level = 0, gicr_ctlr = 0, gicr_typer = 0, gicr_statusr = [0, 0], gicr_waker = 0,
     gicr_propbaser = 0, gicr_pendbaser = 0, gicr_igroupr0 = 0, gicr_ienabler0 = 0, gicr_ipendr0 = 0,
     gicr_iactiver0 = 0, cs_edge_trigger = 0, gicr_igrpmodr0 = 0, gicr_nsacr = 0,
     gicr_ipriorityr = replicate GIC_INTERNAL 0, gicr_vpropbaser = 0, gicr_vpendbaser = 0, hppi_prio = 0, hppi_nmi = False,
     hpplpi_prio = 0, hpplpi_nmi = False, hppvlpi_prio = 0, hppvlpi_nmi = False\<rparr>"

text \<open>
  \<open>gicd_irouter_target\<close> holds pointers into \<open>cpu\<close>: \<open>None\<close> for \<open>NULL\<close>, or the index.  \<open>gic_dma\<close> says
  whether the \<open>sysmem\<close> link is set, \<open>redist_cpuidx\<close> and \<open>redist_size\<close> the first CPU and the size of
  each redistributor region, \<open>gic_num_in\<close> the number of input lines.
\<close>

record GICv3State =
  num_cpu :: u32
  num_irq :: u32
  gic_revision :: u32
  lpi_enable :: bool
  security_extn :: bool
  irq_reset_nonsecure :: bool
  gicd_no_migration_shift_bug :: bool
  gic_dma :: bool
  redist_region_count :: "u32 list"
  redist_cpuidx :: "u32 list"
  redist_size :: "u64 list"
  gic_num_in :: int
  gicd_ctlr :: u32
  gicd_statusr :: "u32 list"
  gicd_group :: "u32 list"
  gicd_grpmod :: "u32 list"
  gicd_enabled :: "u32 list"
  gicd_pending :: "u32 list"
  gicd_active :: "u32 list"
  gicd_level :: "u32 list"
  gicd_edge_trigger :: "u32 list"
  gicd_ipriority :: "u8 list"
  gicd_irouter :: "u64 list"
  gicd_irouter_target :: "nat option list"
  gicd_nsacr :: "u32 list"
  gic_cpu :: "GICv3CPUState list"

section \<open>Accessors\<close>

text \<open>The instances of \<open>GICV3_BITMAP_ACCESSORS\<close> that the modelled operations use.\<close>

definition gicv3_gicd_group_set :: "GICv3State \<Rightarrow> int \<Rightarrow> GICv3State option" where
  "gicv3_gicd_group_set s irq = do { m \<leftarrow> set_bit32 irq (gicd_group s); Some (s\<lparr>gicd_group := m\<rparr>) }"

definition gicv3_gicd_group_test :: "GICv3State \<Rightarrow> int \<Rightarrow> bool option" where
  "gicv3_gicd_group_test s irq = test_bit32 irq (gicd_group s)"

definition gicv3_gicd_grpmod_test :: "GICv3State \<Rightarrow> int \<Rightarrow> bool option" where
  "gicv3_gicd_grpmod_test s irq = test_bit32 irq (gicd_grpmod s)"

definition gicv3_gicd_level_test :: "GICv3State \<Rightarrow> int \<Rightarrow> bool option" where
  "gicv3_gicd_level_test s irq = test_bit32 irq (gicd_level s)"

definition gicv3_gicd_level_replace :: "GICv3State \<Rightarrow> int \<Rightarrow> u32 \<Rightarrow> GICv3State option" where
  "gicv3_gicd_level_replace s irq value =
     do { m \<leftarrow> gic_bmp_replace_bit irq (gicd_level s) value; Some (s\<lparr>gicd_level := m\<rparr>) }"

definition gicv3_redist_size :: "GICv3State \<Rightarrow> int option" where
  "gicv3_redist_size s = do {
     cs \<leftarrow> aget (gic_cpu s) 0;
     Some (if gicr_typer cs AND GICR_TYPER_VLPIS \<noteq> 0 then GICV4_REDIST_SIZE else GICV3_REDIST_SIZE)
   }"

definition gicv3_intid_is_special :: "int \<Rightarrow> bool" where
  "gicv3_intid_is_special intid \<longleftrightarrow> 1020 \<le> intid \<and> intid \<le> 1023"

definition gicv3_idreg :: "GICv3State \<Rightarrow> nat \<Rightarrow> u8 \<Rightarrow> u32 option" where
  "gicv3_idreg s regoffset pidr0 =
     (let regoffset = regoffset div 4
      in if regoffset = 4 then Some (ucast pidr0)
         else do {
           id \<leftarrow> aget [0x44, 0x00, 0x00, 0x00, 0x92, 0xB4, 0x0B, 0x00, 0x0D, 0xF0, 0x05, 0xB1] (int regoffset);
           Some (if regoffset = 6 then id OR push_bit 4 (gic_revision s) else id)
         })"

datatype irq_group = GICV3_G0 | GICV3_G1 | GICV3_G1NS

definition gicv3_irq_group :: "GICv3State \<Rightarrow> GICv3CPUState \<Rightarrow> int \<Rightarrow> irq_group option" where
  "gicv3_irq_group s cs irq = do {
     (grpbit, grpmodbit) \<leftarrow>
       (if irq < int GIC_INTERNAL then do {
          a \<leftarrow> extract32 (gicr_igroupr0 cs) irq 1;
          b \<leftarrow> extract32 (gicr_igrpmodr0 cs) irq 1;
          Some (a \<noteq> 0, b \<noteq> 0)
        }
        else do {
          a \<leftarrow> gicv3_gicd_group_test s irq;
          b \<leftarrow> gicv3_gicd_grpmod_test s irq;
          Some (a, b)
        });
     Some (if grpbit then GICV3_G1NS
           else if gicd_ctlr s AND GICD_CTLR_DS \<noteq> 0 then GICV3_G0
           else if grpmodbit then GICV3_G1 else GICV3_G0)
   }"

definition gicv3_redist_affid :: "GICv3CPUState \<Rightarrow> u32" where
  "gicv3_redist_affid cs = ucast (drop_bit 32 (gicr_typer cs))"

section \<open>Affinity routing\<close>

fun find_target_from :: "GICv3State \<Rightarrow> u32 \<Rightarrow> nat \<Rightarrow> nat \<Rightarrow> nat option option" where
  "find_target_from s tgtaff i 0 = Some None"
| "find_target_from s tgtaff i (Suc n) = do {
     cs \<leftarrow> aget (gic_cpu s) (int i);
     if drop_bit 32 (gicr_typer cs) = ucast tgtaff then Some (Some i)
     else find_target_from s tgtaff (Suc i) n
   }"

definition gicv3_cache_target_cpustate :: "GICv3State \<Rightarrow> int \<Rightarrow> GICv3State option" where
  "gicv3_cache_target_cpustate s irq = do {
     r \<leftarrow> aget (gicd_irouter s) irq;
     lo \<leftarrow> extract64 r 0 24;
     hi \<leftarrow> extract64 r 32 8;
     cs \<leftarrow> find_target_from s (ucast (lo OR push_bit 24 hi)) 0 (unat (num_cpu s));
     t \<leftarrow> aset (gicd_irouter_target s) irq cs;
     Some (s\<lparr>gicd_irouter_target := t\<rparr>)
   }"

text \<open>A \<open>for\<close> loop over \<open>n\<close> numbers from \<open>i\<close>.\<close>

fun for_irqs :: "(GICv3State \<Rightarrow> int \<Rightarrow> GICv3State option) \<Rightarrow> nat \<Rightarrow> nat \<Rightarrow> GICv3State \<Rightarrow> GICv3State option" where
  "for_irqs f i 0 s = Some s"
| "for_irqs f i (Suc n) s = do { s \<leftarrow> f s (int i); for_irqs f (Suc i) n s }"

definition gicv3_cache_all_target_cpustates :: "GICv3State \<Rightarrow> GICv3State option" where
  "gicv3_cache_all_target_cpustates s =
     for_irqs gicv3_cache_target_cpustate GIC_INTERNAL (GICV3_MAXIRQ - GIC_INTERNAL) s"

section \<open>Realising and resetting the device\<close>

datatype gic_error =
    UnsupportedRevision
  | TooManyIrqs
  | TooFewIrqs
  | NoCpu
  | IrqsNotMultipleOf32
  | NoSysmem
  | RedistCapacity

text \<open>
  \<open>mp_affinity i\<close> is the property of that name of CPU number \<open>i\<close>, which belongs to the CPU model.
\<close>

definition init_cpu_typer :: "GICv3State \<Rightarrow> (nat \<Rightarrow> u64) \<Rightarrow> nat \<Rightarrow> GICv3CPUState" where
  "init_cpu_typer s mp_affinity i =
     (let affid = drop_bit 8 (mp_affinity i AND 0xFF00000000) OR (mp_affinity i AND 0xFFFFFF);
          typer = push_bit 32 affid OR push_bit 24 1 OR push_bit 8 (of_nat i);
          typer = (if lpi_enable s
                   then typer OR GICR_TYPER_PLPIS OR (if 3 < gic_revision s then GICR_TYPER_VLPIS else 0)
                   else typer)
      in zero_cpu\<lparr>gicr_typer := typer\<rparr>)"

fun mark_last :: "u32 list \<Rightarrow> u32 \<Rightarrow> GICv3CPUState list \<Rightarrow> GICv3CPUState list option" where
  "mark_last [] cpuidx cpus = Some cpus"
| "mark_last (c # cs) cpuidx cpus =
     (let cpuidx = cpuidx + c
      in do {
        cpu \<leftarrow> aget cpus (sint (cpuidx - 1));
        cpus \<leftarrow> aset cpus (sint (cpuidx - 1)) (cpu\<lparr>gicr_typer := gicr_typer cpu OR GICR_TYPER_LAST\<rparr>);
        mark_last cs cpuidx cpus
      })"

definition arm_gicv3_common_realize :: "(nat \<Rightarrow> u64) \<Rightarrow> GICv3State \<Rightarrow> (gic_error + GICv3State) option" where
  "arm_gicv3_common_realize mp_affinity s =
     (if gic_revision s \<noteq> 3 \<and> gic_revision s \<noteq> 4 then Some (Inl UnsupportedRevision)
      else if of_nat GICV3_MAXIRQ < num_irq s then Some (Inl TooManyIrqs)
      else if num_irq s < of_nat GIC_INTERNAL then Some (Inl TooFewIrqs)
      else if num_cpu s = 0 then Some (Inl NoCpu)
      else if num_irq s mod 32 \<noteq> 0 then Some (Inl IrqsNotMultipleOf32)
      else if lpi_enable s \<and> \<not> gic_dma s then Some (Inl NoSysmem)
      else if sum_list (redist_region_count s) \<noteq> num_cpu s then Some (Inl RedistCapacity)
      else do {
        cpus \<leftarrow> mark_last (redist_region_count s) 0 (map (init_cpu_typer s mp_affinity) [0..<unat (num_cpu s)]);
        Some (Inr (s\<lparr>gic_cpu := cpus\<rparr>))
      })"

text \<open>
  The input lines and the redistributor regions.  The outputs to the CPUs and the memory regions
  themselves belong to the board and to the memory core.
\<close>

fun redist_layout :: "int \<Rightarrow> u32 list \<Rightarrow> u32 \<Rightarrow> (u32 \<times> u64) list" where
  "redist_layout sz [] cpuidx = []"
| "redist_layout sz (c # cs) cpuidx = (cpuidx, ucast (c * of_int sz)) # redist_layout sz cs (cpuidx + c)"

definition gicv3_init_irqs_and_mmio :: "GICv3State \<Rightarrow> GICv3State option" where
  "gicv3_init_irqs_and_mmio s = do {
     sz \<leftarrow> gicv3_redist_size s;
     let regions = redist_layout sz (redist_region_count s) 0;
     Some (s\<lparr>gic_num_in := sint (num_irq s - of_nat GIC_INTERNAL + of_nat GIC_INTERNAL * num_cpu s),
       redist_cpuidx := map fst regions, redist_size := map snd regions\<rparr>)
   }"

definition reset_cpu :: "GICv3State \<Rightarrow> GICv3CPUState \<Rightarrow> GICv3CPUState" where
  "reset_cpu s cs = cs\<lparr>
     cs_level := 0,
     gicr_ctlr := (if lpi_enable s then GICR_CTLR_CES else 0),
     gicr_statusr := [0, 0],
     gicr_waker := GICR_WAKER_ProcessorSleep OR GICR_WAKER_ChildrenAsleep,
     gicr_propbaser := 0, gicr_pendbaser := 0, gicr_vpropbaser := 0, gicr_vpendbaser := 0,
     gicr_igroupr0 := (if irq_reset_nonsecure s then 0xffffffff else 0),
     gicr_ienabler0 := 0, gicr_ipendr0 := 0, gicr_iactiver0 := 0, cs_edge_trigger := 0xffff,
     gicr_igrpmodr0 := 0, gicr_nsacr := 0, gicr_ipriorityr := replicate GIC_INTERNAL 0,
     hppi_prio := 0xff, hppi_nmi := False, hpplpi_prio := 0xff, hpplpi_nmi := False,
     hppvlpi_prio := 0xff, hppvlpi_nmi := False\<rparr>"

definition arm_gicv3_common_reset_hold :: "GICv3State \<Rightarrow> GICv3State option" where
  "arm_gicv3_common_reset_hold s = do {
     let n = unat (num_cpu s);
     cpus \<leftarrow> (if n \<le> length (gic_cpu s) then Some (map (reset_cpu s) (take n (gic_cpu s)) @ drop n (gic_cpu s)) else None);
     let s = s\<lparr>gic_cpu := cpus,
       gicd_ctlr := (if security_extn s then GICD_CTLR_ARE_S OR GICD_CTLR_ARE_NS else GICD_CTLR_DS OR GICD_CTLR_ARE),
       gicd_statusr := [0, 0],
       gicd_group := replicate GICV3_BMP_SIZE 0, gicd_grpmod := replicate GICV3_BMP_SIZE 0,
       gicd_enabled := replicate GICV3_BMP_SIZE 0, gicd_pending := replicate GICV3_BMP_SIZE 0,
       gicd_active := replicate GICV3_BMP_SIZE 0, gicd_level := replicate GICV3_BMP_SIZE 0,
       gicd_edge_trigger := replicate GICV3_BMP_SIZE 0, gicd_ipriority := replicate GICV3_MAXIRQ 0,
       gicd_irouter := replicate GICV3_MAXIRQ 0, gicd_nsacr := replicate ((GICV3_MAXIRQ + 15) div 16) 0\<rparr>;
     s \<leftarrow> gicv3_cache_all_target_cpustates s;
     s \<leftarrow> (if irq_reset_nonsecure s
          then for_irqs gicv3_gicd_group_set GIC_INTERNAL (unat (num_irq s) - GIC_INTERNAL) s else Some s);
     Some (s\<lparr>gicd_no_migration_shift_bug := True\<rparr>)
   }"

definition arm_gic_common_linux_init :: "bool \<Rightarrow> GICv3State \<Rightarrow> GICv3State" where
  "arm_gic_common_linux_init secure_boot s =
     (if security_extn s \<and> \<not> secure_boot then s\<lparr>irq_reset_nonsecure := True\<rparr> else s)"

section \<open>Well-formed states\<close>

text \<open>The arrays of the structure have their declared sizes; the device also has a CPU per vCPU.\<close>

definition gic_arrays :: "GICv3State \<Rightarrow> bool" where
  "gic_arrays s \<longleftrightarrow> length (gicd_group s) = GICV3_BMP_SIZE \<and> length (gicd_grpmod s) = GICV3_BMP_SIZE \<and>
     length (gicd_level s) = GICV3_BMP_SIZE \<and> length (gicd_irouter s) = GICV3_MAXIRQ \<and>
     length (gicd_irouter_target s) = GICV3_MAXIRQ"

definition gic_wf :: "GICv3State \<Rightarrow> bool" where
  "gic_wf s \<longleftrightarrow> gic_arrays s \<and> length (gic_cpu s) = unat (num_cpu s) \<and> 0 < num_cpu s \<and>
     GIC_INTERNAL \<le> unat (num_irq s) \<and> unat (num_irq s) \<le> GICV3_MAXIRQ"

lemmas gic_sizes = GICV3_BMP_SIZE_def GICV3_MAXIRQ_def GIC_INTERNAL_def

lemma for_irqs_inv:
  assumes step: "\<And>s i. P s \<Longrightarrow> a \<le> i \<Longrightarrow> i < a + n \<Longrightarrow> \<exists>t. f s (int i) = Some t \<and> P t" and "P s"
  shows "\<exists>t. for_irqs f a n s = Some t \<and> P t"
  using assms
proof (induction n arbitrary: a s)
  case 0
  then show ?case by simp
next
  case (Suc n)
  from Suc.prems(1) [of s a] Suc.prems(2) obtain t where t: "f s (int a) = Some t" "P t" by auto
  have "\<exists>u. for_irqs f (Suc a) n t = Some u \<and> P u"
    by (rule Suc.IH [OF _ t(2)]) (use Suc.prems(1) in auto)
  with t show ?case by auto
qed

lemma find_target_total:
  "i + n \<le> length (gic_cpu s) \<Longrightarrow> \<exists>r. find_target_from s a i n = Some r \<and>
     (case r of None \<Rightarrow> \<forall>k. i \<le> k \<and> k < i + n \<longrightarrow> drop_bit 32 (gicr_typer (gic_cpu s ! k)) \<noteq> ucast a
      | Some k \<Rightarrow> i \<le> k \<and> k < i + n \<and> drop_bit 32 (gicr_typer (gic_cpu s ! k)) = ucast a)"
proof (induction n arbitrary: i)
  case 0
  then show ?case by auto
next
  case (Suc n)
  then have i: "i < length (gic_cpu s)" by simp
  show ?case
  proof (cases "drop_bit 32 (gicr_typer (gic_cpu s ! i)) = ucast a")
    case True
    with i show ?thesis by (simp add: array_simps)
  next
    case False
    from Suc.IH [of "Suc i"] Suc.prems obtain r where r: "find_target_from s a (Suc i) n = Some r"
      "case r of None \<Rightarrow> \<forall>k. Suc i \<le> k \<and> k < Suc i + n \<longrightarrow> drop_bit 32 (gicr_typer (gic_cpu s ! k)) \<noteq> ucast a
       | Some k \<Rightarrow> Suc i \<le> k \<and> k < Suc i + n \<and> drop_bit 32 (gicr_typer (gic_cpu s ! k)) = ucast a" by auto
    moreover have "i \<le> k \<and> k < i + Suc n \<longleftrightarrow> k = i \<or> Suc i \<le> k \<and> k < Suc i + n" for k by auto
    ultimately show ?thesis using False i by (intro exI [of _ r]) (auto simp: array_simps split: option.splits)
  qed
qed

text \<open>Every field a reset does not write, of the ones the operations depend on, is kept.\<close>

definition same_config :: "GICv3State \<Rightarrow> GICv3State \<Rightarrow> bool" where
  "same_config s t \<longleftrightarrow> num_cpu t = num_cpu s \<and> num_irq t = num_irq s \<and> gic_cpu t = gic_cpu s \<and>
     gicd_level t = gicd_level s \<and> gicd_irouter t = gicd_irouter s \<and> gicd_pending t = gicd_pending s \<and>
     gicd_enabled t = gicd_enabled s \<and> irq_reset_nonsecure t = irq_reset_nonsecure s"

lemma cache_target_total:
  assumes "gic_wf s" "i < GICV3_MAXIRQ"
  shows "\<exists>t. gicv3_cache_target_cpustate s (int i) = Some t \<and> gic_wf t \<and> same_config s t \<and>
     length (gicd_group t) = length (gicd_group s)"
proof -
  have len: "length (gicd_irouter s) = GICV3_MAXIRQ" "length (gicd_irouter_target s) = GICV3_MAXIRQ"
    "length (gic_cpu s) = unat (num_cpu s)" using assms(1) by (simp_all add: gic_wf_def gic_arrays_def)
  obtain x y where "extract64 (gicd_irouter s ! i) 0 24 = Some x" "extract64 (gicd_irouter s ! i) 32 8 = Some y"
    using extract64_field [of 24 0 "gicd_irouter s ! i"] extract64_field [of 8 32 "gicd_irouter s ! i"] by auto
  moreover from find_target_total [of 0 "unat (num_cpu s)" s "ucast (x OR push_bit 24 y)"] len(3) obtain r where
    "find_target_from s (ucast (x OR push_bit 24 y)) 0 (unat (num_cpu s)) = Some r" by auto
  ultimately show ?thesis using assms len
    by (simp add: gicv3_cache_target_cpustate_def array_simps gic_wf_def gic_arrays_def same_config_def)
qed

lemma group_set_total:
  assumes "gic_wf s" "i < unat (num_irq s)"
  shows "\<exists>t. gicv3_gicd_group_set s (int i) = Some t \<and> gic_wf t \<and> same_config s t"
proof -
  have "i < bm_cap (gicd_group s)" using assms by (simp add: gic_wf_def gic_arrays_def bm_cap_def gic_sizes)
  from bits32.set_op [OF this] obtain m where "set_bit32 (int i) (gicd_group s) = Some m" "bm_cap m = bm_cap (gicd_group s)" by auto
  with assms show ?thesis by (auto simp: gicv3_gicd_group_set_def gic_wf_def gic_arrays_def same_config_def bm_cap_def)
qed

lemma same_config_refl [simp]: "same_config s s"
  by (simp add: same_config_def)

lemma same_config_trans: "same_config s t \<Longrightarrow> same_config t u \<Longrightarrow> same_config s u"
  by (simp add: same_config_def)

lemma cache_all_total:
  assumes "gic_wf s"
  shows "\<exists>t. gicv3_cache_all_target_cpustates s = Some t \<and> gic_wf t \<and> same_config s t"
proof -
  have "\<exists>t. for_irqs gicv3_cache_target_cpustate GIC_INTERNAL (GICV3_MAXIRQ - GIC_INTERNAL) s = Some t \<and> gic_wf t \<and> same_config s t"
  proof (rule for_irqs_inv)
    fix u i assume u: "gic_wf u \<and> same_config s u" and i: "i < GIC_INTERNAL + (GICV3_MAXIRQ - GIC_INTERNAL)"
    from i have "i < GICV3_MAXIRQ" by (simp add: gic_sizes)
    from cache_target_total [OF _ this, of u] u show "\<exists>t. gicv3_cache_target_cpustate u (int i) = Some t \<and> gic_wf t \<and> same_config s t"
      by (auto intro: same_config_trans)
  qed (use assms in simp)
  then show ?thesis by (simp add: gicv3_cache_all_target_cpustates_def)
qed

text \<open>A realised device can be reset; the reset forgets every line level.\<close>

lemma reset_total:
  assumes "gic_wf s"
  shows "\<exists>t. arm_gicv3_common_reset_hold s = Some t \<and> gic_wf t \<and> gicd_level t = replicate GICV3_BMP_SIZE 0 \<and>
    gicd_pending t = replicate GICV3_BMP_SIZE 0 \<and> gicd_enabled t = replicate GICV3_BMP_SIZE 0 \<and>
    gic_cpu t = map (reset_cpu s) (gic_cpu s) \<and> num_cpu t = num_cpu s \<and> num_irq t = num_irq s"
proof -
  let ?s = "s\<lparr>gic_cpu := map (reset_cpu s) (gic_cpu s),
       gicd_ctlr := (if security_extn s then GICD_CTLR_ARE_S OR GICD_CTLR_ARE_NS else GICD_CTLR_DS OR GICD_CTLR_ARE),
       gicd_statusr := [0, 0],
       gicd_group := replicate GICV3_BMP_SIZE 0, gicd_grpmod := replicate GICV3_BMP_SIZE 0,
       gicd_enabled := replicate GICV3_BMP_SIZE 0, gicd_pending := replicate GICV3_BMP_SIZE 0,
       gicd_active := replicate GICV3_BMP_SIZE 0, gicd_level := replicate GICV3_BMP_SIZE 0,
       gicd_edge_trigger := replicate GICV3_BMP_SIZE 0, gicd_ipriority := replicate GICV3_MAXIRQ 0,
       gicd_irouter := replicate GICV3_MAXIRQ 0, gicd_nsacr := replicate ((GICV3_MAXIRQ + 15) div 16) 0\<rparr>"
  have len: "length (gic_cpu s) = unat (num_cpu s)" using assms by (simp add: gic_wf_def)
  have "gic_wf ?s" using assms by (simp add: gic_wf_def gic_arrays_def)
  from cache_all_total [OF this] obtain t where t: "gicv3_cache_all_target_cpustates ?s = Some t" "gic_wf t" "same_config ?s t" by blast
  have "\<exists>u. (if irq_reset_nonsecure t then for_irqs gicv3_gicd_group_set GIC_INTERNAL (unat (num_irq t) - GIC_INTERNAL) t
      else Some t) = Some u \<and> gic_wf u \<and> same_config t u"
  proof (cases "irq_reset_nonsecure t")
    case True
    have "\<exists>u. for_irqs gicv3_gicd_group_set GIC_INTERNAL (unat (num_irq t) - GIC_INTERNAL) t = Some u \<and> gic_wf u \<and> same_config t u"
    proof (rule for_irqs_inv)
      fix u i assume u: "gic_wf u \<and> same_config t u" and i: "i < GIC_INTERNAL + (unat (num_irq t) - GIC_INTERNAL)"
      from i u t(2) have "i < unat (num_irq u)" by (simp add: gic_wf_def same_config_def)
      from group_set_total [OF _ this] u show "\<exists>v. gicv3_gicd_group_set u (int i) = Some v \<and> gic_wf v \<and> same_config t v"
        by (auto intro: same_config_trans)
    qed (use t in simp)
    with True show ?thesis by simp
  qed (use t in simp)
  then obtain u where u: "(if irq_reset_nonsecure t then for_irqs gicv3_gicd_group_set GIC_INTERNAL (unat (num_irq t) - GIC_INTERNAL) t
      else Some t) = Some u" "gic_wf u" "same_config t u" by blast
  have "arm_gicv3_common_reset_hold s = Some (u\<lparr>gicd_no_migration_shift_bug := True\<rparr>)"
    using t(1) u(1) len by (simp add: arm_gicv3_common_reset_hold_def Let_def)
  moreover have "gic_wf (u\<lparr>gicd_no_migration_shift_bug := True\<rparr>)" using u(2) by (simp add: gic_wf_def gic_arrays_def)
  ultimately show ?thesis using t(3) u(3) by (simp add: same_config_def)
qed

section \<open>Realising\<close>

definition gic_config_ok :: "GICv3State \<Rightarrow> bool" where
  "gic_config_ok s \<longleftrightarrow> (gic_revision s = 3 \<or> gic_revision s = 4) \<and>
     32 \<le> unat (num_irq s) \<and> unat (num_irq s) \<le> 1020 \<and> unat (num_irq s) mod 32 = 0 \<and>
     num_cpu s \<noteq> 0 \<and> (lpi_enable s \<longrightarrow> gic_dma s) \<and>
     sum_list (map unat (redist_region_count s)) = unat (num_cpu s)"

lemma unat_sum_list:
  "sum_list (map unat xs) < 2 ^ 32 \<Longrightarrow> unat (sum_list (xs :: u32 list)) = sum_list (map unat xs)"
proof (induction xs)
  case (Cons x xs)
  then have "unat (sum_list xs) = sum_list (map unat xs)" by simp
  with Cons.prems show ?case using unat_add_no_wrap [of x "sum_list xs"] by simp
qed simp

lemma sint_small:
  fixes x :: u32
  assumes "unat x < 2 ^ 31"
  shows "sint x = int (unat x)"
proof -
  have u: "uint x = int (unat x)" by simp
  have "signed_take_bit 31 (int n) = int n" if "n < 2 ^ 31" for n
    by (rule signed_take_bit_int_eq_self) (use that in simp_all)
  from this [OF assms] show ?thesis unfolding sint_uint u by simp
qed

lemma sint_pred:
  fixes c :: u32
  assumes "0 < unat c" "unat c < 2 ^ 31"
  shows "sint (c - 1) = int (unat c - 1)"
proof -
  have "1 \<le> c" using assms(1) by (simp add: word_le_nat_alt)
  then have "unat (c - 1) = unat c - 1" by (simp add: unat_sub)
  with assms(2) sint_small [of "c - 1"] show ?thesis by simp
qed

lemma mark_last_total:
  "list_all (\<lambda>c. 0 < unat c) counts \<Longrightarrow> unat cpuidx + sum_list (map unat counts) \<le> length cpus \<Longrightarrow> length cpus < 2 ^ 31 \<Longrightarrow>
   \<exists>t. mark_last counts cpuidx cpus = Some t \<and> length t = length cpus"
proof (induction counts arbitrary: cpuidx cpus)
  case (Cons c cs)
  have u: "unat (cpuidx + c) = unat cpuidx + unat c"
    using Cons.prems by (intro unat_add_no_wrap) simp
  let ?k = "unat cpuidx + unat c - 1"
  have k: "sint (cpuidx + c - 1) = int ?k" "?k < length cpus"
    using sint_pred [of "cpuidx + c"] u Cons.prems by auto
  let ?cpus = "cpus[?k := (cpus ! ?k)\<lparr>gicr_typer := gicr_typer (cpus ! ?k) OR GICR_TYPER_LAST\<rparr>]"
  from Cons.IH [of "cpuidx + c" ?cpus] Cons.prems u obtain t where
    "mark_last cs (cpuidx + c) ?cpus = Some t" "length t = length cpus" by auto
  with k show ?case by (simp add: Let_def array_simps del: of_nat_add of_nat_diff)
qed simp

lemma realize_result:
  assumes "gic_arrays s" "list_all (\<lambda>c. 0 < unat c) (redist_region_count s)" "sum_list (map unat (redist_region_count s)) < 2 ^ 31"
  shows "\<exists>r. arm_gicv3_common_realize aff s = Some r \<and>
    (case r of Inl e \<Rightarrow> \<not> gic_config_ok s | Inr t \<Rightarrow> gic_config_ok s \<and> gic_wf t \<and> num_cpu t = num_cpu s \<and> num_irq t = num_irq s)"
proof -
  let ?cpus = "map (init_cpu_typer s aff) [0..<unat (num_cpu s)]"
  have sum: "sum_list (redist_region_count s) = num_cpu s \<longleftrightarrow> sum_list (map unat (redist_region_count s)) = unat (num_cpu s)"
    using unat_sum_list [of "redist_region_count s"] assms(3) by (simp add: word_unat_eq_iff)
  have words: "of_nat GICV3_MAXIRQ < num_irq s \<longleftrightarrow> 1020 < unat (num_irq s)" "num_irq s < of_nat GIC_INTERNAL \<longleftrightarrow> unat (num_irq s) < 32"
    "num_irq s mod 32 = 0 \<longleftrightarrow> unat (num_irq s) mod 32 = 0"
    by (simp_all add: gic_sizes word_less_nat_alt unat_mod_distrib flip: unat_eq_zero)
  show ?thesis
  proof (cases "gic_config_ok s")
    case True
    then have "unat (num_cpu s) < 2 ^ 31" using assms(3) by (simp add: gic_config_ok_def)
    with True mark_last_total [of "redist_region_count s" 0 ?cpus] assms(2) obtain t where
      "mark_last (redist_region_count s) 0 ?cpus = Some t" "length t = unat (num_cpu s)"
      by (auto simp: gic_config_ok_def)
    with True assms(1) words sum show ?thesis
      by (auto simp: arm_gicv3_common_realize_def gic_config_ok_def gic_wf_def gic_arrays_def gic_sizes word_gt_0)
  next
    case False
    with words sum show ?thesis
      by (auto simp: arm_gicv3_common_realize_def gic_config_ok_def)
  qed
qed

text \<open>
  C34.  Realising the controller accepts exactly the supported configurations (revision 3 or 4, 32 to
  1020 interrupt lines in multiples of 32, at least one CPU, redistributor regions that hold
  exactly the CPUs, a memory link where LPIs are enabled); the device it gives is well formed, a
  reset of it returns whatever its configuration, keeps it well formed, and leaves no interrupt
  pending, enabled or at a level.  The regions are not empty and hold fewer than \<open>2 ^ 31\<close> CPUs.
\<close>

theorem realized_gic_resets:
  assumes "gic_arrays s" "list_all (\<lambda>c. 0 < unat c) (redist_region_count s)"
    "sum_list (map unat (redist_region_count s)) < 2 ^ 31"
  shows "\<exists>r. arm_gicv3_common_realize aff s = Some r \<and>
    (case r of Inl e \<Rightarrow> \<not> gic_config_ok s
     | Inr t \<Rightarrow> gic_config_ok s \<and> gic_wf t \<and>
         (\<exists>u. arm_gicv3_common_reset_hold t = Some u \<and> gic_wf u \<and> gicd_level u = replicate GICV3_BMP_SIZE 0 \<and>
           gicd_pending u = replicate GICV3_BMP_SIZE 0 \<and> gicd_enabled u = replicate GICV3_BMP_SIZE 0 \<and>
           (\<forall>cs \<in> set (gic_cpu u). cs_level cs = 0 \<and> gicr_ipendr0 cs = 0 \<and> gicr_ienabler0 cs = 0)))"
  using realize_result [OF assms, of aff] reset_total
  by (fastforce split: sum.splits simp: reset_cpu_def)

definition example_gic :: GICv3State where
  "example_gic = \<lparr>num_cpu = 2, num_irq = 288, gic_revision = 3, lpi_enable = False, security_extn = False,
     irq_reset_nonsecure = True, gicd_no_migration_shift_bug = False, gic_dma = False, redist_region_count = [2],
     redist_cpuidx = [], redist_size = [], gic_num_in = 0, gicd_ctlr = 0, gicd_statusr = [0, 0],
     gicd_group = replicate 32 0, gicd_grpmod = replicate 32 0, gicd_enabled = replicate 32 0,
     gicd_pending = replicate 32 0, gicd_active = replicate 32 0, gicd_level = replicate 32 0,
     gicd_edge_trigger = replicate 32 0, gicd_ipriority = replicate 1020 0, gicd_irouter = replicate 1020 0,
     gicd_irouter_target = replicate 1020 None, gicd_nsacr = replicate 64 0, gic_cpu = []\<rparr>"

lemma example_gic_arrays: "gic_arrays example_gic"
  by (simp add: gic_arrays_def example_gic_def gic_sizes)

theorem realized_gic_resets_witness:
  "\<exists>t u. arm_gicv3_common_realize (\<lambda>i. of_nat i) example_gic = Some (Inr t) \<and>
     arm_gicv3_common_reset_hold t = Some u \<and> gic_wf u \<and> gicd_level u = replicate GICV3_BMP_SIZE 0"
proof -
  have "gic_config_ok example_gic" by (simp add: gic_config_ok_def example_gic_def)
  with realized_gic_resets [OF example_gic_arrays, of "\<lambda>i. of_nat i"] show ?thesis
    by (fastforce split: sum.splits simp: example_gic_def)
qed

end
