(* ===== verification/Gzvm_Gic.thy ===== *)
theory Gzvm_Gic
  imports Gzvm_Irq Qemu_Gicv3
begin

text \<open>
  The interrupt controller of the GZVM machine (\<open>hw/intc/arm_gicv3_gzvm.c\<close>): the hypervisor holds
  the controller itself, and QEMU forwards the levels of its input lines with \<open>GZVM_IRQ_LINE\<close>, or,
  for a message-signalled interrupt, writes to the event descriptor bound to the line.
\<close>

section \<open>State\<close>

definition GZVM_MSI_SPI_BASE :: nat where "GZVM_MSI_SPI_BASE = 48"

text \<open>
  The static variables of the file beside the device: \<open>irq_notify\<close> is the array of
  \<open>irq_notify_count\<close> notifiers, empty where the pointer is \<open>NULL\<close>.
\<close>

record gic_sys =
  gs_gic :: GICv3State
  irq_notify :: "EventNotifier list"
  gzvm_irq_level_lock :: qemu_mutex
  gs_vm :: gzvm_vm

definition level_lock :: "gic_sys \<Rightarrow> gic_sys option" where
  "level_lock g =
     (if gzvm_irq_level_lock g = MutexUnlocked then Some (g\<lparr>gzvm_irq_level_lock := MutexLocked\<rparr>) else None)"

definition level_unlock :: "gic_sys \<Rightarrow> gic_sys option" where
  "level_unlock g =
     (if gzvm_irq_level_lock g = MutexUninit then None else Some (g\<lparr>gzvm_irq_level_lock := MutexUnlocked\<rparr>))"

section \<open>Operations\<close>

fun store_notifiers :: "EventNotifier list \<Rightarrow> nat \<Rightarrow> EventNotifier list \<Rightarrow> EventNotifier list option" where
  "store_notifiers [] i arr = Some arr"
| "store_notifiers (n # ns) i arr = do { arr \<leftarrow> aset arr (int i) n; store_notifiers ns (Suc i) arr }"

definition gzvm_gic_register_irq_notifiers :: "EventNotifier list \<Rightarrow> nat \<Rightarrow> gic_sys \<Rightarrow> gic_sys option" where
  "gzvm_gic_register_irq_notifiers notifiers base_spi g = do {
     let total = base_spi + length notifiers;
     let old = irq_notify g;
     let arr = (if old = [] \<or> length old < total
                then old @ replicate (total - length old) event_notifier_zero else old);
     arr \<leftarrow> store_notifiers notifiers base_spi arr;
     Some (g\<lparr>irq_notify := arr\<rparr>)
   }"

text \<open>The word that names a line to the hypervisor.\<close>

definition irq_word :: "u32 \<Rightarrow> u32 \<Rightarrow> u32 \<Rightarrow> u32" where
  "irq_word irqtype cpu knum =
     push_bit GZVM_IRQ_TYPE_SHIFT irqtype OR
     push_bit GZVM_IRQ_VCPU_SHIFT (cpu AND GZVM_IRQ_VCPU_MASK) OR
     push_bit GZVM_IRQ_VCPU2_SHIFT (drop_bit 8 cpu AND GZVM_IRQ_VCPU2_MASK) OR
     push_bit GZVM_IRQ_NUM_SHIFT knum"

definition irq_line :: "kernel \<Rightarrow> u32 \<Rightarrow> bool \<Rightarrow> gic_sys \<Rightarrow> gic_sys" where
  "irq_line K w level g =
     g\<lparr>gs_vm := snd (gzvm_vm_ioctl K (GZVM_IRQ_LINE \<lparr>il_irq = w, il_level = of_bool level\<rparr>) (gs_vm g))\<rparr>"

definition gzvm_arm_gicv3_set_irq :: "kernel \<Rightarrow> int \<Rightarrow> int \<Rightarrow> gic_sys \<Rightarrow> gic_sys option" where
  "gzvm_arm_gicv3_set_irq K irq lv g =
     (if lv \<noteq> 0 \<and> irq_notify g \<noteq> [] \<and> int GZVM_MSI_SPI_BASE \<le> irq \<and> irq < int (length (irq_notify g)) \<and>
         en_initialized (irq_notify g ! nat irq)
      then do {
        (_, h) \<leftarrow> event_notifier_set K (irq_notify g ! nat irq) (vm_hist (gs_vm g));
        Some (g\<lparr>gs_vm := (gs_vm g)\<lparr>vm_hist := h\<rparr>\<rparr>)
      }
      else do {
        let lines = sint (num_irq (gs_gic g) - of_nat GIC_INTERNAL);
        let level = (lv \<noteq> 0);
        g \<leftarrow> level_lock g;
        let s = gs_gic g;
        if irq < lines then do {
          let knum = irq;
          let irq = irq + int GIC_INTERNAL;
          was \<leftarrow> gicv3_gicd_level_test s irq;
          if \<not> level \<and> \<not> was then level_unlock g
          else do {
            s \<leftarrow> gicv3_gicd_level_replace s irq (of_bool level);
            level_unlock (irq_line K (irq_word GZVM_IRQ_TYPE_SPI 0 (of_int knum)) level (g\<lparr>gs_gic := s\<rparr>))
          }
        }
        else do {
          let cpu = (irq - lines) div int GIC_INTERNAL;
          let irq = (irq - lines) mod int GIC_INTERNAL;
          cs \<leftarrow> aget (gic_cpu s) cpu;
          if \<not> level \<and> cs_level cs AND push_bit (nat irq) 1 = 0 then level_unlock g
          else do {
            let l = (if level then cs_level cs OR push_bit (nat irq) 1 else cs_level cs AND NOT (push_bit (nat irq) 1));
            cpus \<leftarrow> aset (gic_cpu s) cpu (cs\<lparr>cs_level := l\<rparr>);
            level_unlock (irq_line K (irq_word GZVM_IRQ_TYPE_PPI (of_int cpu) (of_int irq)) level (g\<lparr>gs_gic := s\<lparr>gic_cpu := cpus\<rparr>\<rparr>))
          }
        }
      })"

text \<open>The distributor's registers are the hypervisor's; QEMU's region reads as zero.\<close>

definition gzvm_gicv3_dist_read :: "u64 \<Rightarrow> u64" where
  "gzvm_gicv3_dist_read offset = 0"

definition gzvm_gicv3_dist_write :: "u64 \<Rightarrow> u64 \<Rightarrow> gic_sys \<Rightarrow> gic_sys" where
  "gzvm_gicv3_dist_write offset data g = g"

definition gzvm_arm_gicv3_realize :: "(nat \<Rightarrow> u64) \<Rightarrow> gic_sys \<Rightarrow> (gic_error + gic_sys) option" where
  "gzvm_arm_gicv3_realize mp_affinity g =
     (if gic_revision (gs_gic g) \<noteq> 3 then Some (Inl UnsupportedRevision)
      else do {
        r \<leftarrow> arm_gicv3_common_realize mp_affinity (gs_gic g);
        (case r of
           Inl e \<Rightarrow> Some (Inl e)
         | Inr s \<Rightarrow> do {
             s \<leftarrow> gicv3_init_irqs_and_mmio s;
             Some (Inr (g\<lparr>gs_gic := s, gzvm_irq_level_lock := MutexUnlocked, irq_notify := []\<rparr>))
           })
      })"

definition gic_reset :: "gic_sys \<Rightarrow> gic_sys option" where
  "gic_reset g = do { s \<leftarrow> arm_gicv3_common_reset_hold (gs_gic g); Some (g\<lparr>gs_gic := s\<rparr>) }"

section \<open>The line word\<close>

definition word_type :: "u32 \<Rightarrow> u32" where
  "word_type w = drop_bit GZVM_IRQ_TYPE_SHIFT w AND GZVM_IRQ_TYPE_MASK"
definition word_vcpu :: "u32 \<Rightarrow> u32" where
  "word_vcpu w = (drop_bit GZVM_IRQ_VCPU_SHIFT w AND GZVM_IRQ_VCPU_MASK) OR
     push_bit 8 (drop_bit GZVM_IRQ_VCPU2_SHIFT w AND GZVM_IRQ_VCPU2_MASK)"
definition word_num :: "u32 \<Rightarrow> u32" where
  "word_num w = drop_bit GZVM_IRQ_NUM_SHIFT w AND GZVM_IRQ_NUM_MASK"

lemma word_masks: "(0xff :: u32) = mask 8" "(0xf :: u32) = mask 4" "(0xffff :: u32) = mask 16"
  by (simp_all add: mask_eq_exp_minus_1)

lemma small_bits: "bit (x :: u32) k \<Longrightarrow> unat x < 2 ^ n \<Longrightarrow> k < n"
proof (rule ccontr)
  assume b: "bit x k" and lt: "unat x < 2 ^ n" and "\<not> k < n"
  then have "(2 :: nat) ^ n \<le> 2 ^ k" by (intro power_increasing) simp_all
  with lt have "unat x < 2 ^ k" by linarith
  then have "unat x div 2 ^ k = 0" by simp
  then have "\<not> bit (unat x) k" by (simp add: bit_iff_odd)
  moreover have "k < 32" using bit_imp_le_length [OF b] by simp
  ultimately show False using b by (simp add: bit_unsigned_iff)
qed

lemmas irq_word_defs = irq_word_def word_type_def word_vcpu_def word_num_def gzvm_irq_defs word_masks

lemma irq_word_bit:
  assumes "unat t < 16" "unat k < 65536" "i < 32"
  shows "bit (irq_word t c k) i \<longleftrightarrow>
    (if i < 16 then bit k i else if i < 24 then bit c (i - 16) else if i < 28 then bit t (i - 24) else bit c (i - 20))"
proof -
  have z: "\<not> bit t j" if "4 \<le> j" for j using small_bits [of t j 4] that assms(1) by auto
  have y: "\<not> bit k j" if "16 \<le> j" for j using small_bits [of k j 16] that assms(2) by auto
  consider "i < 16" | "16 \<le> i" "i < 24" | "24 \<le> i" "i < 28" | "28 \<le> i" by linarith
  then show ?thesis
    by cases (use assms(3) z [of "i - 24"] y [of i] in \<open>simp_all add: irq_word_defs bit_simps less_diff_conv2\<close>)
qed

lemma irq_word_fields:
  assumes "unat t < 16" "unat c < 4096" "unat k < 65536"
  shows "word_type (irq_word t c k) = t" "word_vcpu (irq_word t c k) = c" "word_num (irq_word t c k) = k"
proof -
  note b = irq_word_bit [OF assms(1,3), where c = c]
  have z: "\<And>i. bit t i \<Longrightarrow> i < 4" "\<And>i. bit c i \<Longrightarrow> i < 12" "\<And>i. bit k i \<Longrightarrow> i < 16"
    using small_bits [of t _ 4] small_bits [of c _ 12] small_bits [of k _ 16] assms by simp_all
  let ?w = "irq_word t c k"
  show "word_type ?w = t"
  proof (rule bit_word_eqI)
    fix n assume "n < LENGTH(32)"
    then show "bit (word_type ?w) n = bit t n"
      using b [of "24 + n"] z(1) [of n] by (cases "n < 4") (auto simp: word_type_def gzvm_irq_defs word_masks bit_simps)
  qed
  show "word_num ?w = k"
  proof (rule bit_word_eqI)
    fix n assume "n < LENGTH(32)"
    then show "bit (word_num ?w) n = bit k n"
      using b [of n] z(3) [of n] by (cases "n < 16") (auto simp: word_num_def gzvm_irq_defs word_masks bit_simps)
  qed
  show "word_vcpu ?w = c"
  proof (rule bit_word_eqI)
    fix n assume "n < LENGTH(32)"
    then have n: "n < 32" by simp
    have v: "bit (word_vcpu ?w) n \<longleftrightarrow> n < 8 \<and> bit ?w (16 + n) \<or> 8 \<le> n \<and> n - 8 < 4 \<and> bit ?w (28 + (n - 8))"
      using n by (auto simp: word_vcpu_def gzvm_irq_defs word_masks bit_simps)
    consider "n < 8" | "8 \<le> n" "n < 12" | "12 \<le> n" by linarith
    then show "bit (word_vcpu ?w) n = bit c n"
    proof cases
      case 1
      then show ?thesis unfolding v using b [of "16 + n"] by simp
    next
      case 2
      then have "28 + (n - 8) = 20 + n" "n - 8 < 4" by simp_all
      with 2 show ?thesis unfolding v using b [of "20 + n"] by simp
    next
      case 3
      with z(2) [of n] show ?thesis unfolding v by auto
    qed
  qed
qed

section \<open>Lines and their levels\<close>

text \<open>
  An input line is a number below \<open>num_lines\<close>: the shared interrupts first, then 32 private ones per
  CPU.  \<open>line_high\<close> is the level QEMU has recorded for a line, \<open>line_level\<close> the one it last told the
  hypervisor.
\<close>

definition num_spi :: "gic_sys \<Rightarrow> nat" where
  "num_spi g = unat (num_irq (gs_gic g)) - 32"

definition num_lines :: "gic_sys \<Rightarrow> nat" where
  "num_lines g = num_spi g + 32 * unat (num_cpu (gs_gic g))"

definition line_word :: "gic_sys \<Rightarrow> nat \<Rightarrow> u32" where
  "line_word g n =
     (if n < num_spi g then irq_word GZVM_IRQ_TYPE_SPI 0 (of_nat n)
      else irq_word GZVM_IRQ_TYPE_PPI (of_nat ((n - num_spi g) div 32)) (of_nat ((n - num_spi g) mod 32)))"

definition line_high :: "gic_sys \<Rightarrow> nat \<Rightarrow> bool" where
  "line_high g n =
     (if n < num_spi g then bm_bit (gicd_level (gs_gic g)) (n + 32)
      else bit (cs_level (gic_cpu (gs_gic g) ! ((n - num_spi g) div 32))) ((n - num_spi g) mod 32))"

fun line_call :: "u32 \<Rightarrow> host_call \<Rightarrow> u32 \<Rightarrow> u32" where
  "line_call w (VmIoctl fd (GZVM_IRQ_LINE il)) l = (if il_irq il = w then il_level il else l)"
| "line_call w c l = l"

definition line_level :: "u32 \<Rightarrow> history \<Rightarrow> u32" where
  "line_level w h = fold (line_call w) h 0"

definition gic_ready :: "gic_sys \<Rightarrow> bool" where
  "gic_ready g \<longleftrightarrow> gic_wf (gs_gic g) \<and> unat (num_cpu (gs_gic g)) \<le> 512 \<and> gzvm_irq_level_lock g = MutexUnlocked"

definition levels_agree :: "gic_sys \<Rightarrow> bool" where
  "levels_agree g \<longleftrightarrow> (\<forall>n < num_lines g. line_level (line_word g n) (vm_hist (gs_vm g)) = of_bool (line_high g n))"

text \<open>What does not change when a level does.\<close>

definition gic_frame :: "gic_sys \<Rightarrow> gic_sys \<Rightarrow> bool" where
  "gic_frame g t \<longleftrightarrow> num_irq (gs_gic t) = num_irq (gs_gic g) \<and> num_cpu (gs_gic t) = num_cpu (gs_gic g) \<and>
     irq_notify t = irq_notify g \<and> vmfd (vm_state (gs_vm t)) = vmfd (vm_state (gs_vm g))"

lemma gic_frame_words:
  "gic_frame g t \<Longrightarrow> num_spi t = num_spi g" "gic_frame g t \<Longrightarrow> num_lines t = num_lines g" "gic_frame g t \<Longrightarrow> line_word t n = line_word g n"
  by (simp_all add: gic_frame_def num_spi_def num_lines_def line_word_def)

lemma line_level_append: "line_level w (h @ [c]) = line_call w c (line_level w h)"
  by (simp add: line_level_def)

lemma ready_bounds:
  assumes "gic_ready g"
  shows "num_spi g \<le> 988" "n < num_lines g \<Longrightarrow> (n - num_spi g) div 32 < 512"
    "n < num_lines g \<Longrightarrow> num_spi g \<le> n \<Longrightarrow> (n - num_spi g) div 32 < length (gic_cpu (gs_gic g))"
proof -
  have "unat (num_irq (gs_gic g)) \<le> 1020" using assms by (simp add: gic_ready_def gic_wf_def gic_sizes)
  then show "num_spi g \<le> 988" unfolding num_spi_def by linarith
  have c: "unat (num_cpu (gs_gic g)) \<le> 512" "0 < unat (num_cpu (gs_gic g))"
    "length (gic_cpu (gs_gic g)) = unat (num_cpu (gs_gic g))"
    using assms by (simp_all add: gic_ready_def gic_wf_def word_gt_0_no word_less_nat_alt)
  show "n < num_lines g \<Longrightarrow> (n - num_spi g) div 32 < 512"
  proof -
    assume "n < num_lines g"
    then have "n - num_spi g < 512 * 32" using c unfolding num_lines_def by linarith
    then show ?thesis by (rule less_mult_imp_div_less)
  qed
  assume "n < num_lines g" "num_spi g \<le> n"
  then have "n - num_spi g < length (gic_cpu (gs_gic g)) * 32" using c(3) unfolding num_lines_def by linarith
  then show "(n - num_spi g) div 32 < length (gic_cpu (gs_gic g))" by (rule less_mult_imp_div_less)
qed

lemma unat_of_nat_u32: "k < 65536 \<Longrightarrow> unat (of_nat k :: u32) = k"
  by (simp add: unat_of_nat)

lemma of_nat_u32_inj: "a < 65536 \<Longrightarrow> b < 65536 \<Longrightarrow> (of_nat a :: u32) = of_nat b \<Longrightarrow> a = b"
  by (metis unat_of_nat_u32)

lemma line_word_parts:
  assumes "gic_ready g" "n < num_lines g"
  shows "word_type (line_word g n) = (if n < num_spi g then 1 else 2)"
    "n < num_spi g \<Longrightarrow> word_num (line_word g n) = of_nat n"
    "\<not> n < num_spi g \<Longrightarrow> word_vcpu (line_word g n) = of_nat ((n - num_spi g) div 32) \<and> word_num (line_word g n) = of_nat ((n - num_spi g) mod 32)"
proof -
  let ?c = "(n - num_spi g) div 32" and ?k = "(n - num_spi g) mod 32"
  have "?k < 32" by simp
  then have ppi: "word_type (irq_word 2 (of_nat ?c) (of_nat ?k)) = 2" "word_vcpu (irq_word 2 (of_nat ?c) (of_nat ?k)) = of_nat ?c"
    "word_num (irq_word 2 (of_nat ?c) (of_nat ?k)) = of_nat ?k"
    using irq_word_fields [of 2 "of_nat ?c" "of_nat ?k"] ready_bounds(2) [OF assms] unat_of_nat_u32 [of ?c] unat_of_nat_u32 [of ?k]
    by simp_all
  have spi: "word_type (irq_word 1 0 (of_nat n)) = 1" "word_num (irq_word 1 0 (of_nat n)) = of_nat n" if "n < num_spi g"
    using irq_word_fields [of 1 0 "of_nat n"] ready_bounds(1) [OF assms(1)] unat_of_nat_u32 [of n] that by simp_all
  show "word_type (line_word g n) = (if n < num_spi g then 1 else 2)"
    "n < num_spi g \<Longrightarrow> word_num (line_word g n) = of_nat n"
    "\<not> n < num_spi g \<Longrightarrow> word_vcpu (line_word g n) = of_nat ?c \<and> word_num (line_word g n) = of_nat ?k"
    using spi ppi by (simp_all add: line_word_def GZVM_IRQ_TYPE_SPI_def GZVM_IRQ_TYPE_PPI_def)
qed

lemma line_word_inj:
  assumes "gic_ready g" "m < num_lines g" "n < num_lines g" "line_word g m = line_word g n"
  shows "m = n"
proof -
  note pm = line_word_parts [OF assms(1,2)] and pn = line_word_parts [OF assms(1,3)]
  show ?thesis
  proof (cases "m < num_spi g")
    case True
    then have "n < num_spi g" using pm(1) pn(1) assms(4) by (auto split: if_splits)
    with True pm(2) pn(2) assms(4) ready_bounds(1) [OF assms(1)] show ?thesis by (intro of_nat_u32_inj) simp_all
  next
    case False
    then have n: "\<not> n < num_spi g" using pm(1) pn(1) assms(4) by (auto split: if_splits)
    have c: "(m - num_spi g) div 32 < 512" "(n - num_spi g) div 32 < 512" using ready_bounds(2) [OF assms(1)] assms(2,3) by auto
    have "(m - num_spi g) mod 32 < 32" "(n - num_spi g) mod 32 < 32" by simp_all
    with pm(3) [OF False] pn(3) [OF n] assms(4) c
    have "(m - num_spi g) div 32 = (n - num_spi g) div 32" "(m - num_spi g) mod 32 = (n - num_spi g) mod 32"
      by (intro of_nat_u32_inj; simp)+
    then have "m - num_spi g = n - num_spi g" by (metis div_mult_mod_eq)
    with False n show ?thesis by simp
  qed
qed

section \<open>Setting a line\<close>

definition by_notifier :: "gic_sys \<Rightarrow> nat \<Rightarrow> bool" where
  "by_notifier g n \<longleftrightarrow> GZVM_MSI_SPI_BASE \<le> n \<and> n < length (irq_notify g) \<and> en_initialized (irq_notify g ! n)"

text \<open>The outcome of setting a line that is told to the hypervisor.\<close>

definition line_set :: "kernel \<Rightarrow> nat \<Rightarrow> bool \<Rightarrow> gic_sys \<Rightarrow> gic_sys \<Rightarrow> bool" where
  "line_set K n level g t \<longleftrightarrow> gic_ready t \<and> gic_frame g t \<and>
     vm_hist (gs_vm t) = vm_hist (gs_vm g) @
       [VmIoctl (vmfd (vm_state (gs_vm g))) (GZVM_IRQ_LINE \<lparr>il_irq = line_word g n, il_level = of_bool level\<rparr>)] \<and>
     (\<forall>k < num_lines g. line_high t k = (if k = n then level else line_high g k))"

lemma lines_sint:
  assumes "gic_ready g"
  shows "sint (num_irq (gs_gic g) - of_nat GIC_INTERNAL) = int (num_spi g)"
proof -
  have b: "32 \<le> unat (num_irq (gs_gic g))" "unat (num_irq (gs_gic g)) \<le> 1020"
    using assms by (simp_all add: gic_ready_def gic_wf_def gic_sizes)
  then have "unat (num_irq (gs_gic g) - 32) = num_spi g"
    by (simp add: num_spi_def unat_sub word_le_nat_alt)
  moreover from this b have "unat (num_irq (gs_gic g) - 32) < 2 ^ 31" by (simp add: num_spi_def)
  ultimately show ?thesis using sint_small [of "num_irq (gs_gic g) - 32"] by (simp add: GIC_INTERNAL_def)
qed

lemma line_set_hist:
  "vm_hist (gs_vm (irq_line K w l g)) = vm_hist (gs_vm g) @ [VmIoctl (vmfd (vm_state (gs_vm g))) (GZVM_IRQ_LINE \<lparr>il_irq = w, il_level = of_bool l\<rparr>)]"
  "gs_gic (irq_line K w l g) = gs_gic g" "irq_notify (irq_line K w l g) = irq_notify g"
  "gzvm_irq_level_lock (irq_line K w l g) = gzvm_irq_level_lock g" "vm_state (gs_vm (irq_line K w l g)) = vm_state (gs_vm g)"
  by (simp_all add: irq_line_def gzvm_vm_ioctl_hist frame_simps)

lemma set_spi:
  assumes g: "gic_ready g" and n: "n < num_spi g" and nn: "\<not> (lv \<noteq> 0 \<and> by_notifier g n)"
  shows "if lv = 0 \<and> \<not> line_high g n then gzvm_arm_gicv3_set_irq K (int n) lv g = Some g
    else \<exists>t. gzvm_arm_gicv3_set_irq K (int n) lv g = Some t \<and> line_set K n (lv \<noteq> 0) g t"
proof -
  have wf: "gic_wf (gs_gic g)" "gzvm_irq_level_lock g = MutexUnlocked" "unat (num_cpu (gs_gic g)) \<le> 512"
    using g by (simp_all add: gic_ready_def)
  have cap: "n + 32 < bm_cap (gicd_level (gs_gic g))"
    using n ready_bounds(1) [OF g] wf(1) by (simp add: gic_wf_def gic_arrays_def bm_cap_def gic_sizes)
  have tst: "gicv3_gicd_level_test (gs_gic g) (int (n + 32)) = Some (line_high g n)"
    using bits32.tst [OF cap] n by (simp add: gicv3_gicd_level_test_def line_high_def)
  obtain m where m: "gic_bmp_replace_bit (int (n + 32)) (gicd_level (gs_gic g)) (of_bool (lv \<noteq> 0)) = Some m"
    "bm_cap m = bm_cap (gicd_level (gs_gic g))"
    "\<forall>j < bm_cap (gicd_level (gs_gic g)). bm_bit m j = (if j = n + 32 then lv \<noteq> 0 else bm_bit (gicd_level (gs_gic g)) j)"
    using gic_bmp_replace_bit [OF cap, of "of_bool (lv \<noteq> 0)"] by (auto simp: bit_simps)
  have go: "\<not> (lv \<noteq> 0 \<and> irq_notify g \<noteq> [] \<and> int GZVM_MSI_SPI_BASE \<le> int n \<and> int n < int (length (irq_notify g)) \<and>
      en_initialized (irq_notify g ! nat (int n)))" using nn by (auto simp: by_notifier_def)
  show ?thesis
  proof (cases "lv = 0 \<and> \<not> line_high g n")
    case True
    with go tst n wf(2) lines_sint [OF g] show ?thesis
      by (simp add: gzvm_arm_gicv3_set_irq_def level_lock_def level_unlock_def Let_def GIC_INTERNAL_def add.commute)
  next
    case False
    let ?g = "g\<lparr>gzvm_irq_level_lock := MutexLocked, gs_gic := (gs_gic g)\<lparr>gicd_level := m\<rparr>\<rparr>"
    let ?t = "(irq_line K (line_word g n) (lv \<noteq> 0) ?g)\<lparr>gzvm_irq_level_lock := MutexUnlocked\<rparr>"
    have "gzvm_arm_gicv3_set_irq K (int n) lv g = Some ?t"
      using go tst m(1) n wf(2) lines_sint [OF g] False
      by (auto simp: gzvm_arm_gicv3_set_irq_def level_lock_def level_unlock_def Let_def GIC_INTERNAL_def
          gicv3_gicd_level_replace_def line_word_def line_set_hist add.commute)
    moreover have "line_set K n (lv \<noteq> 0) g ?t"
    proof -
      have "gic_ready ?t" using wf m(2) by (simp add: gic_ready_def line_set_hist gic_wf_def gic_arrays_def bm_cap_def)
      moreover have "gic_frame g ?t" by (simp add: gic_frame_def line_set_hist)
      moreover have "line_high ?t k = (if k = n then lv \<noteq> 0 else line_high g k)" if "k < num_lines g" for k
      proof -
        have "k + 32 < bm_cap (gicd_level (gs_gic g))" if "k < num_spi g"
          using that ready_bounds(1) [OF g] wf(1) by (simp add: gic_wf_def gic_arrays_def bm_cap_def gic_sizes)
        with m(3) n show ?thesis by (auto simp: line_high_def line_set_hist num_spi_def)
      qed
      ultimately show ?thesis by (simp add: line_set_def line_set_hist)
    qed
    ultimately show ?thesis using False by auto
  qed
qed

lemma bit_of_mask: "x AND push_bit k 1 = 0 \<longleftrightarrow> \<not> bit x k" for x :: u32
  using masked_word [of x k] by (auto simp: push_bit_eq_mult)

lemma cpu_bit_update:
  fixes x :: u32
  assumes "i < 32" "k < 32"
  shows "bit (if level then x OR push_bit i 1 else x AND NOT (push_bit i 1)) k \<longleftrightarrow> (if k = i then level else bit x k)"
  using assms by (auto simp: bit_simps)

lemma set_ppi:
  assumes g: "gic_ready g" and n: "n < num_lines g" "num_spi g \<le> n" and nn: "\<not> (lv \<noteq> 0 \<and> by_notifier g n)"
  shows "if lv = 0 \<and> \<not> line_high g n then gzvm_arm_gicv3_set_irq K (int n) lv g = Some g
    else \<exists>t. gzvm_arm_gicv3_set_irq K (int n) lv g = Some t \<and> line_set K n (lv \<noteq> 0) g t"
proof -
  have wf: "gic_wf (gs_gic g)" "gzvm_irq_level_lock g = MutexUnlocked" "unat (num_cpu (gs_gic g)) \<le> 512"
    using g by (simp_all add: gic_ready_def)
  define c i where "c = (n - num_spi g) div 32" and "i = (n - num_spi g) mod 32"
  have i: "i < 32" by (simp add: i_def)
  have c: "c < length (gic_cpu (gs_gic g))" using ready_bounds(3) [OF g n] by (simp add: c_def)
  let ?cs = "gic_cpu (gs_gic g) ! c"
  have ints: "(int n - int (num_spi g)) div 32 = int c" "(int n - int (num_spi g)) mod 32 = int i"
    using n(2) by (simp_all add: c_def i_def zdiv_int zmod_int of_nat_diff)
  have high: "line_high g n = bit (cs_level ?cs) i" using n(2) by (simp add: line_high_def c_def i_def)
  have word: "line_word g n = irq_word GZVM_IRQ_TYPE_PPI (of_nat c) (of_nat i)" using n(2) by (simp add: line_word_def c_def i_def)
  have go: "\<not> (lv \<noteq> 0 \<and> irq_notify g \<noteq> [] \<and> int GZVM_MSI_SPI_BASE \<le> int n \<and> int n < int (length (irq_notify g)) \<and>
      en_initialized (irq_notify g ! nat (int n)))" using nn by (auto simp: by_notifier_def)
  show ?thesis
  proof (cases "lv = 0 \<and> \<not> line_high g n")
    case True
    with go n(2) wf(2) lines_sint [OF g] ints c high bit_of_mask [of "cs_level ?cs" i] show ?thesis
      by (simp add: gzvm_arm_gicv3_set_irq_def level_lock_def level_unlock_def Let_def array_simps) (simp add: GIC_INTERNAL_def array_simps level_unlock_def)
  next
    case False
    let ?l = "if lv \<noteq> 0 then cs_level ?cs OR push_bit i 1 else cs_level ?cs AND NOT (push_bit i 1)"
    let ?cpus = "(gic_cpu (gs_gic g))[c := ?cs\<lparr>cs_level := ?l\<rparr>]"
    let ?g = "g\<lparr>gzvm_irq_level_lock := MutexLocked, gs_gic := (gs_gic g)\<lparr>gic_cpu := ?cpus\<rparr>\<rparr>"
    let ?t = "(irq_line K (line_word g n) (lv \<noteq> 0) ?g)\<lparr>gzvm_irq_level_lock := MutexUnlocked\<rparr>"
    have "\<not> (lv = 0 \<and> cs_level ?cs AND push_bit i 1 = 0)" using False high bit_of_mask [of "cs_level ?cs" i] by auto
    with go n(2) wf(2) lines_sint [OF g] ints c
    have "gzvm_arm_gicv3_set_irq K (int n) lv g = Some ?t"
      by (simp add: gzvm_arm_gicv3_set_irq_def level_lock_def level_unlock_def Let_def word)
        (auto simp: GIC_INTERNAL_def array_simps line_set_hist level_unlock_def)
    moreover have "line_set K n (lv \<noteq> 0) g ?t"
    proof -
      have "gic_ready ?t" using wf by (simp add: gic_ready_def line_set_hist gic_wf_def gic_arrays_def)
      moreover have "gic_frame g ?t" by (simp add: gic_frame_def line_set_hist)
      moreover have "line_high ?t k = (if k = n then lv \<noteq> 0 else line_high g k)" if k: "k < num_lines g" for k
      proof (cases "k < num_spi g")
        case True
        with n(2) show ?thesis by (simp add: line_high_def line_set_hist num_spi_def)
      next
        case ppi: False
        have same: "k = n \<longleftrightarrow> (k - num_spi g) div 32 = c \<and> (k - num_spi g) mod 32 = i"
          using same_bit [of "k - num_spi g" "n - num_spi g" 32] n(2) ppi by (auto simp: c_def i_def)
        have "bit ?l ((k - num_spi g) mod 32) \<longleftrightarrow>
            (if (k - num_spi g) mod 32 = i then lv \<noteq> 0 else bit (cs_level ?cs) ((k - num_spi g) mod 32))"
          by (rule cpu_bit_update [OF i]) simp
        with ppi c same show ?thesis
          by (cases "(k - num_spi g) div 32 = c") (simp_all add: line_high_def line_set_hist num_spi_def)
      qed
      ultimately show ?thesis by (simp add: line_set_def line_set_hist)
    qed
    ultimately show ?thesis using False by auto
  qed
qed

lemma set_line:
  assumes "gic_ready g" "n < num_lines g" "\<not> (lv \<noteq> 0 \<and> by_notifier g n)"
  shows "if lv = 0 \<and> \<not> line_high g n then gzvm_arm_gicv3_set_irq K (int n) lv g = Some g
    else \<exists>t. gzvm_arm_gicv3_set_irq K (int n) lv g = Some t \<and> line_set K n (lv \<noteq> 0) g t"
proof (cases "n < num_spi g")
  case True
  then show ?thesis by (rule set_spi [OF assms(1) _ assms(3)])
next
  case False
  then show ?thesis by (intro set_ppi [OF assms(1,2) _ assms(3)]) simp
qed

lemma set_line_notifier:
  assumes "no_eintr K" "lv \<noteq> 0" "by_notifier g n"
  shows "gzvm_arm_gicv3_set_irq K (int n) lv g =
    Some (g\<lparr>gs_vm := (gs_vm g)\<lparr>vm_hist := vm_hist (gs_vm g) @ [WriteEvent (wfd (irq_notify g ! n))]\<rparr>\<rparr>)"
proof -
  have "irq_notify g \<noteq> []" using assms(3) by (auto simp: by_notifier_def)
  with assms event_notifier_set_once [OF assms(1), of "irq_notify g ! n" "vm_hist (gs_vm g)"] show ?thesis
    by (auto simp: gzvm_arm_gicv3_set_irq_def by_notifier_def)
qed

section \<open>Runs of the controller\<close>

datatype gic_op =
    SetIrq nat int
  | RegisterNotifiers "EventNotifier list" nat

fun gic_step :: "kernel \<Rightarrow> gic_op \<Rightarrow> gic_sys \<Rightarrow> gic_sys option" where
  "gic_step K (SetIrq n lv) g = gzvm_arm_gicv3_set_irq K (int n) lv g"
| "gic_step K (RegisterNotifiers ns b) g = gzvm_gic_register_irq_notifiers ns b g"

fun gic_op_ok :: "nat \<Rightarrow> gic_op \<Rightarrow> bool" where
  "gic_op_ok N (SetIrq n lv) = (n < N)"
| "gic_op_ok N (RegisterNotifiers ns b) = True"

definition gic_inv :: "kernel \<Rightarrow> nat \<Rightarrow> gic_sys \<Rightarrow> bool" where
  "gic_inv K N g \<longleftrightarrow> no_eintr K \<and> gic_ready g \<and> levels_agree g \<and> num_lines g = N"

lemma store_notifiers_total:
  "i + length ns \<le> length arr \<Longrightarrow> \<exists>t. store_notifiers ns i arr = Some t \<and> length t = length arr \<and>
     (\<forall>k < length arr. t ! k = (if i \<le> k \<and> k < i + length ns then ns ! (k - i) else arr ! k))"
proof (induction ns arbitrary: i arr)
  case Nil
  then show ?case by auto
next
  case (Cons n ns)
  from Cons.IH [of "Suc i" "arr[i := n]"] Cons.prems obtain t where t:
    "store_notifiers ns (Suc i) (arr[i := n]) = Some t" "length t = length arr"
    "\<forall>k < length arr. t ! k = (if Suc i \<le> k \<and> k < Suc i + length ns then ns ! (k - Suc i) else arr[i := n] ! k)" by auto
  have "t ! k = (if i \<le> k \<and> k < i + length (n # ns) then (n # ns) ! (k - i) else arr ! k)" if "k < length arr" for k
    using t(3) that by (cases "k = i") (auto simp: nth_Cons')
  with t Cons.prems show ?case by (simp add: array_simps)
qed

text \<open>Registering keeps what was registered elsewhere and changes nothing else.\<close>

lemma register_notifiers:
  "\<exists>arr. gzvm_gic_register_irq_notifiers ns b g = Some (g\<lparr>irq_notify := arr\<rparr>) \<and>
     length arr = max (length (irq_notify g)) (b + length ns) \<and>
     (\<forall>k < length arr. arr ! k =
        (if b \<le> k \<and> k < b + length ns then ns ! (k - b)
         else if k < length (irq_notify g) then irq_notify g ! k else event_notifier_zero))"
proof -
  let ?old = "irq_notify g"
  let ?arr = "if ?old = [] \<or> length ?old < b + length ns
    then ?old @ replicate (b + length ns - length ?old) event_notifier_zero else ?old"
  have len: "length ?arr = max (length ?old) (b + length ns)" by (auto simp: max_def)
  have nth: "?arr ! k = (if k < length ?old then ?old ! k else event_notifier_zero)" if "k < length ?arr" for k
    using that by (auto simp: nth_append)
  from store_notifiers_total [of b ns ?arr] len obtain t where t: "store_notifiers ns b ?arr = Some t" "length t = length ?arr"
    "\<forall>k < length ?arr. t ! k = (if b \<le> k \<and> k < b + length ns then ns ! (k - b) else ?arr ! k)" by auto
  have "gzvm_gic_register_irq_notifiers ns b g = Some (g\<lparr>irq_notify := t\<rparr>)"
    using t(1) unfolding gzvm_gic_register_irq_notifiers_def Let_def by simp
  with t(2,3) len nth show ?thesis by auto
qed

lemma line_set_agree:
  assumes g: "gic_ready g" "levels_agree g" and n: "n < num_lines g" and t: "line_set K n level g t"
  shows "levels_agree t"
proof -
  have f: "gic_frame g t" using t by (simp add: line_set_def)
  have "line_level (line_word t k) (vm_hist (gs_vm t)) = of_bool (line_high t k)" if k: "k < num_lines t" for k
  proof -
    have k': "k < num_lines g" using k gic_frame_words(2) [OF f] by simp
    show ?thesis
    proof (cases "k = n")
      case True
      with t k' show ?thesis by (simp add: line_set_def line_level_append gic_frame_words(3) [OF f])
    next
      case False
      then have "line_word g n \<noteq> line_word g k" using line_word_inj [OF g(1) n k'] by auto
      with False t k' g(2) show ?thesis
        by (simp add: line_set_def line_level_append gic_frame_words(3) [OF f] levels_agree_def)
    qed
  qed
  then show ?thesis by (simp add: levels_agree_def)
qed

lemma same_gic_lines:
  assumes "gs_gic t = gs_gic g"
  shows "num_lines t = num_lines g" "line_word t n = line_word g n" "line_high t n = line_high g n"
  using assms by (simp_all add: num_lines_def num_spi_def line_word_def line_high_def)

interpretation gic_run: invariant_system "gic_step K" "gic_op_ok N" "gic_inv K N" for K N
proof
  fix g e assume inv: "gic_inv K N g" and ok: "gic_op_ok N e"
  then have g: "no_eintr K" "gic_ready g" "levels_agree g" "num_lines g = N" by (simp_all add: gic_inv_def)
  show "\<exists>t. gic_step K e g = Some t \<and> gic_inv K N t"
  proof (cases e)
    case (SetIrq n lv)
    then have n: "n < num_lines g" using ok g(4) by simp
    show ?thesis
    proof (cases "lv \<noteq> 0 \<and> by_notifier g n")
      case True
      let ?t = "g\<lparr>gs_vm := (gs_vm g)\<lparr>vm_hist := vm_hist (gs_vm g) @ [WriteEvent (wfd (irq_notify g ! n))]\<rparr>\<rparr>"
      have "gic_inv K N ?t" using g
        by (simp add: gic_inv_def gic_ready_def levels_agree_def same_gic_lines [of ?t g] line_level_append)
      with True SetIrq set_line_notifier [OF g(1)] show ?thesis by auto
    next
      case False
      from set_line [OF g(2) n False, of K] show ?thesis
      proof (cases "lv = 0 \<and> \<not> line_high g n")
        case True
        with set_line [OF g(2) n False, of K] SetIrq inv show ?thesis by simp
      next
        case nz: False
        with set_line [OF g(2) n False, of K] obtain t where
          t: "gzvm_arm_gicv3_set_irq K (int n) lv g = Some t" "line_set K n (lv \<noteq> 0) g t" by auto
        have "gic_inv K N t"
          using g line_set_agree [OF g(2,3) n t(2)] t(2) gic_frame_words(2) [of g t] by (simp add: gic_inv_def line_set_def)
        with t(1) SetIrq show ?thesis by auto
      qed
    qed
  next
    case (RegisterNotifiers ns b)
    obtain arr where "gzvm_gic_register_irq_notifiers ns b g = Some (g\<lparr>irq_notify := arr\<rparr>)" using register_notifiers by blast
    moreover have "gic_inv K N (g\<lparr>irq_notify := arr\<rparr>)" using g
      by (simp add: gic_inv_def gic_ready_def levels_agree_def same_gic_lines [of "g\<lparr>irq_notify := arr\<rparr>" g])
    ultimately show ?thesis using RegisterNotifiers by simp
  qed
qed

section \<open>Properties\<close>

definition example_vm_gic :: gzvm_vm where
  "example_vm_gic = \<lparr>vm_accel = True, vm_state = \<lparr>slots_lock = MutexUnlocked, slots = [], sorted_ids = [], nr_active_slots = 0,
       nr_slots_allocated = 0, gz_fd = 3, vmfd = 4, dtb_start = 0, dtb_size = 0, gic_dist_base = 0, gic_redist_base = 0,
       gic_redist_size = 0, ram_base = 0, msi_vectors = 4, transaction_add = [], transaction_del = []\<rparr>,
     vm_listeners = [], gzvm_signal_hva_ranges = [], gzvm_signal_nr_hva_ranges = 0, gzvm_signal_page_size = 0,
     machine_ram_size = 0, host_page_size = 0, vm_hist = []\<rparr>"

definition example_sys :: gic_sys where
  "example_sys = \<lparr>gs_gic = example_gic\<lparr>gic_cpu := replicate 2 zero_cpu\<rparr>, irq_notify = [], gzvm_irq_level_lock = MutexUnlocked,
     gs_vm = example_vm_gic\<rparr>"

lemma example_sys_shape: "num_spi example_sys = 256" "num_lines example_sys = 320"
  by (simp_all add: num_lines_def num_spi_def example_sys_def example_gic_def)

lemma example_sys_ready: "gic_ready example_sys"
  by (simp add: gic_ready_def gic_wf_def gic_arrays_def example_sys_def example_gic_def gic_sizes)

lemma example_sys_low: "\<not> line_high example_sys n" if "n < 320"
proof (cases "n < 256")
  case True
  then show ?thesis using example_sys_shape
    by (simp add: line_high_def example_sys_def example_gic_def bm_bit_def less_mult_imp_div_less)
next
  case False
  then have "(n - 256) div 32 < 2" using that by (simp add: less_mult_imp_div_less)
  then show ?thesis using False example_sys_shape
    by (simp add: line_high_def) (simp add: example_sys_def zero_cpu_def)
qed

lemma example_sys_inv: "gic_inv kernel_ok 320 example_sys"
proof -
  have "vm_hist (gs_vm example_sys) = []" by (simp add: example_sys_def example_vm_gic_def)
  then show ?thesis using example_sys_low example_sys_ready
    by (simp add: gic_inv_def levels_agree_def example_sys_shape line_level_def)
qed

text \<open>
  C6.  Whatever sequence of level changes the devices make, on any line the controller has, and
  whatever notifiers are registered in between, every operation returns with the lock free, and
  for each line the level QEMU has recorded is the level it last told the hypervisor: no raise or
  lower that the hypervisor has to know of is ever filtered out.
\<close>

theorem line_levels_reach_hypervisor:
  assumes "gic_inv K N g" "list_all (gic_op_ok N) ops"
  shows "\<exists>t. run_ops (gic_step K) ops g = Some t \<and> gzvm_irq_level_lock t = MutexUnlocked \<and>
    (\<forall>n < num_lines t. line_level (line_word t n) (vm_hist (gs_vm t)) = of_bool (line_high t n))"
  using gic_run.run_inv [OF assms] by (auto simp: gic_inv_def gic_ready_def levels_agree_def)

theorem line_levels_reach_hypervisor_witness:
  "\<exists>t. run_ops (gic_step kernel_ok) [SetIrq 3 1, SetIrq 300 1, RegisterNotifiers [\<lparr>rfd = 9, wfd = 9, en_initialized = True\<rparr>] 48,
       SetIrq 48 1, SetIrq 3 0, SetIrq 48 0] example_sys = Some t \<and> gzvm_irq_level_lock t = MutexUnlocked \<and>
    (\<forall>n < num_lines t. line_level (line_word t n) (vm_hist (gs_vm t)) = of_bool (line_high t n))"
  by (rule line_levels_reach_hypervisor [OF example_sys_inv]) simp

text \<open>
  One level change: raising a line that has a notifier writes to that notifier's descriptor and
  nothing else; lowering a line that is low does nothing; any other change is recorded, for that
  line only, and told to the hypervisor by one request that decodes to the line's type, CPU and
  number.
\<close>

lemma set_irq_forwards_change:
  assumes "no_eintr K" "gic_ready g" "n < num_lines g"
  shows "if lv \<noteq> 0 \<and> by_notifier g n then
      gzvm_arm_gicv3_set_irq K (int n) lv g =
        Some (g\<lparr>gs_vm := (gs_vm g)\<lparr>vm_hist := vm_hist (gs_vm g) @ [WriteEvent (wfd (irq_notify g ! n))]\<rparr>\<rparr>)
    else if lv = 0 \<and> \<not> line_high g n then gzvm_arm_gicv3_set_irq K (int n) lv g = Some g
    else \<exists>t w. gzvm_arm_gicv3_set_irq K (int n) lv g = Some t \<and>
      vm_hist (gs_vm t) = vm_hist (gs_vm g) @
        [VmIoctl (vmfd (vm_state (gs_vm g))) (GZVM_IRQ_LINE \<lparr>il_irq = w, il_level = of_bool (lv \<noteq> 0)\<rparr>)] \<and>
      (if n < num_spi g then word_type w = GZVM_IRQ_TYPE_SPI \<and> word_num w = of_nat n
       else word_type w = GZVM_IRQ_TYPE_PPI \<and> word_vcpu w = of_nat ((n - num_spi g) div 32) \<and>
         word_num w = of_nat ((n - num_spi g) mod 32)) \<and>
      (\<forall>k < num_lines g. line_high t k = (if k = n then lv \<noteq> 0 else line_high g k))"
proof (cases "lv \<noteq> 0 \<and> by_notifier g n")
  case True
  then show ?thesis using set_line_notifier [OF assms(1)] by simp
next
  case False
  show ?thesis
  proof (cases "lv = 0 \<and> \<not> line_high g n")
    case True
    with set_line [OF assms(2,3) False, of K] False show ?thesis by simp
  next
    case ch: False
    with set_line [OF assms(2,3) False, of K] obtain t where
      "gzvm_arm_gicv3_set_irq K (int n) lv g = Some t" "line_set K n (lv \<noteq> 0) g t" by auto
    with line_word_parts [OF assms(2,3)] show ?thesis unfolding if_not_P [OF False] if_not_P [OF ch]
      by (intro exI [of _ t] exI [of _ "line_word g n"]) (simp add: line_set_def GZVM_IRQ_TYPE_SPI_def GZVM_IRQ_TYPE_PPI_def)
  qed
qed

lemma set_irq_forwards_change_witness:
  "gzvm_arm_gicv3_set_irq kernel_ok (int 5) 0 example_sys = Some example_sys \<and>
   (\<exists>t w. gzvm_arm_gicv3_set_irq kernel_ok (int 291) 1 example_sys = Some t \<and> word_type w = GZVM_IRQ_TYPE_PPI \<and>
     word_vcpu w = 1 \<and> word_num w = 3 \<and> line_high t 291)"
proof -
  have nb: "\<not> by_notifier example_sys n" for n by (simp add: by_notifier_def example_sys_def)
  show ?thesis
    using set_irq_forwards_change [OF no_eintr_kernel_ok example_sys_ready, of 5 0]
      set_irq_forwards_change [OF no_eintr_kernel_ok example_sys_ready, of 291 1]
    by (auto simp: nb example_sys_shape example_sys_low)
qed

text \<open>
  C33.  Resetting the controller forgets every recorded level and tells the hypervisor nothing: the
  last level the hypervisor was told for a line is still the one before the reset, and lowering any
  line afterwards is filtered out as no change, so that the hypervisor is not told of it either.
\<close>

theorem reset_forgets_levels:
  assumes "gic_ready g" "levels_agree g"
  shows "\<exists>t. gic_reset g = Some t \<and> vm_hist (gs_vm t) = vm_hist (gs_vm g) \<and> num_lines t = num_lines g \<and>
    (\<forall>n < num_lines g. \<not> line_high t n \<and> line_level (line_word t n) (vm_hist (gs_vm t)) = of_bool (line_high g n) \<and>
       gzvm_arm_gicv3_set_irq K (int n) 0 t = Some t)"
proof -
  have wf: "gic_wf (gs_gic g)" using assms(1) by (simp add: gic_ready_def)
  obtain s where s: "arm_gicv3_common_reset_hold (gs_gic g) = Some s" "gic_wf s" "gicd_level s = replicate GICV3_BMP_SIZE 0"
    "gic_cpu s = map (reset_cpu (gs_gic g)) (gic_cpu (gs_gic g))" "num_cpu s = num_cpu (gs_gic g)" "num_irq s = num_irq (gs_gic g)"
    using reset_total [OF wf] by blast
  let ?t = "g\<lparr>gs_gic := s\<rparr>"
  have same: "num_lines ?t = num_lines g" "num_spi ?t = num_spi g" "line_word ?t n = line_word g n" for n
    using s by (simp_all add: num_lines_def num_spi_def line_word_def)
  have ready: "gic_ready ?t" using assms(1) s by (simp add: gic_ready_def)
  have low: "\<not> line_high ?t n" if n: "n < num_lines g" for n
  proof (cases "n < num_spi g")
    case True
    then have "(n + 32) div 32 < GICV3_BMP_SIZE" using ready_bounds(1) [OF assms(1)] by (simp add: gic_sizes)
    with True s(3) same(2) show ?thesis by (simp add: line_high_def bm_bit_def)
  next
    case False
    with ready_bounds(3) [OF assms(1) n] s(4) same(2) show ?thesis by (simp add: line_high_def reset_cpu_def)
  qed
  have "gzvm_arm_gicv3_set_irq K (int n) 0 ?t = Some ?t" if "n < num_lines g" for n
    using set_line [OF ready, of n 0 K] low [OF that] that same by simp
  moreover have "line_level (line_word ?t n) (vm_hist (gs_vm ?t)) = of_bool (line_high g n)" if "n < num_lines g" for n
    using assms(2) that same by (simp add: levels_agree_def)
  ultimately show ?thesis using s(1) low same by (simp add: gic_reset_def)
qed

theorem reset_forgets_levels_witness:
  "\<exists>g t. gzvm_arm_gicv3_set_irq kernel_ok (int 3) 1 example_sys = Some g \<and> gic_reset g = Some t \<and>
     line_level (line_word t 3) (vm_hist (gs_vm t)) = 1 \<and> gzvm_arm_gicv3_set_irq kernel_ok (int 3) 0 t = Some t"
proof -
  have n: "3 < num_lines example_sys" by (simp add: example_sys_shape)
  have "\<not> by_notifier example_sys 3" by (simp add: by_notifier_def example_sys_def)
  with set_line [OF example_sys_ready n, of 1 kernel_ok] obtain g where
    g: "gzvm_arm_gicv3_set_irq kernel_ok (int 3) 1 example_sys = Some g" "line_set kernel_ok 3 True example_sys g" by auto
  have "levels_agree example_sys" using example_sys_inv by (simp add: gic_inv_def)
  with line_set_agree [OF example_sys_ready _ n g(2)] have "levels_agree g" by simp
  moreover have "gic_ready g" "line_high g 3" "num_lines g = num_lines example_sys"
    using g(2) n gic_frame_words(2) by (auto simp: line_set_def)
  ultimately show ?thesis using reset_forgets_levels [of g kernel_ok] g(1) n by auto
qed

end
