(* ===== verification/Gzvm_Start.thy ===== *)
theory Gzvm_Start
  imports Gzvm_Gic
begin

text \<open>
  Message-signalled interrupts and the start of the VM: counting the vectors of the PCI devices and
  the doorbell frame of \<open>hw/arm/virt.c\<close>, the setters the board calls (\<open>target/arm/gzvm.c\<close>), and
  \<open>gzvm_start_vm()\<close> (\<open>accel/gzvm/gzvm-vm-start.c\<close>), which binds a notifier to each vector.
\<close>

section \<open>Vectors of the PCI devices\<close>

text \<open>
  A PCI bus: its \<open>devices\<close> array, empty functions included, and the buses behind its bridges.  Of a
  device, the capabilities present, the size of its MSI-X table and the flags word of its MSI
  capability.
\<close>

record PCIDevice =
  pd_msix_present :: bool
  msix_entries_nr :: u32
  pd_msi_present :: bool
  pd_msi_flags :: u16

datatype PCIBus = PCIBus "PCIDevice option list" "PCIBus list"

definition PCI_MSI_FLAGS_QSIZE :: u16 where "PCI_MSI_FLAGS_QSIZE = 0x70"

definition msi_nr_vectors :: "u16 \<Rightarrow> u32" where
  "msi_nr_vectors flags = push_bit (unat (drop_bit 4 (flags AND PCI_MSI_FLAGS_QSIZE))) 1"

definition msi_nr_vectors_allocated :: "PCIDevice \<Rightarrow> u32" where
  "msi_nr_vectors_allocated dev = msi_nr_vectors (pd_msi_flags dev)"

definition msix_nr_vectors_allocated :: "PCIDevice \<Rightarrow> u32" where
  "msix_nr_vectors_allocated dev = msix_entries_nr dev"

definition gzvm_count_msi_vectors_device :: "PCIDevice \<Rightarrow> u32 \<Rightarrow> u32" where
  "gzvm_count_msi_vectors_device dev vectors =
     (if pd_msix_present dev then vectors + msix_nr_vectors_allocated dev
      else if pd_msi_present dev then vectors + msi_nr_vectors_allocated dev
      else vectors)"

fun pci_for_each_device_under_bus :: "PCIDevice option list \<Rightarrow> (PCIDevice \<Rightarrow> 'a \<Rightarrow> 'a) \<Rightarrow> 'a \<Rightarrow> 'a" where
  "pci_for_each_device_under_bus [] fn x = x"
| "pci_for_each_device_under_bus (d # ds) fn x =
     pci_for_each_device_under_bus ds fn (case d of None \<Rightarrow> x | Some dev \<Rightarrow> fn dev x)"

definition gzvm_count_msi_vectors_bus :: "PCIDevice option list \<Rightarrow> u32 \<Rightarrow> u32" where
  "gzvm_count_msi_vectors_bus devices vectors =
     pci_for_each_device_under_bus devices gzvm_count_msi_vectors_device vectors"

text \<open>The buses behind a bus are visited before it.\<close>

fun pci_for_each_bus :: "PCIBus \<Rightarrow> (PCIDevice option list \<Rightarrow> 'a \<Rightarrow> 'a) \<Rightarrow> 'a \<Rightarrow> 'a"
and pci_for_each_child :: "PCIBus list \<Rightarrow> (PCIDevice option list \<Rightarrow> 'a \<Rightarrow> 'a) \<Rightarrow> 'a \<Rightarrow> 'a" where
  "pci_for_each_bus (PCIBus devices child) fn x = fn devices (pci_for_each_child child fn x)"
| "pci_for_each_child [] fn x = x"
| "pci_for_each_child (b # bs) fn x = pci_for_each_child bs fn (pci_for_each_bus b fn x)"

definition NUM_IRQS :: nat where "NUM_IRQS = 256"

text \<open>\<open>Inl\<close> is the \<open>exit(1)\<close>, with the number of vectors it reports.\<close>

definition gzvm_set_msi_vectors :: "PCIBus \<Rightarrow> gzvm_vm \<Rightarrow> u32 + gzvm_vm" where
  "gzvm_set_msi_vectors bus v =
     (let vectors = pci_for_each_bus bus gzvm_count_msi_vectors_bus 0
      in if of_nat (NUM_IRQS - GZVM_MSI_SPI_BASE) < vectors then Inl vectors
         else Inr (v\<lparr>vm_state := (vm_state v)\<lparr>msi_vectors := vectors\<rparr>\<rparr>))"

section \<open>The doorbell frame\<close>

definition V2M_MSI_TYPER :: u64 where "V2M_MSI_TYPER = 0x008"
definition V2M_MSI_SETSPI_NS :: u64 where "V2M_MSI_SETSPI_NS = 0x040"

definition gzvm_v2m_read :: "u64 \<Rightarrow> gic_sys \<Rightarrow> u64" where
  "gzvm_v2m_read offset g =
     (if offset = V2M_MSI_TYPER
      then ucast (push_bit 16 (of_nat (GZVM_MSI_SPI_BASE + GIC_INTERNAL)) OR msi_vectors (vm_state (gs_vm g)))
      else 0)"

text \<open>\<open>qdev_get_gpio_in()\<close> asserts that the input exists; \<open>qemu_set_irq()\<close> calls its handler.\<close>

definition qemu_set_gic_irq :: "kernel \<Rightarrow> int \<Rightarrow> int \<Rightarrow> gic_sys \<Rightarrow> gic_sys option" where
  "qemu_set_gic_irq K n level g =
     (if 0 \<le> n \<and> n < gic_num_in (gs_gic g) then gzvm_arm_gicv3_set_irq K n level g else None)"

definition gzvm_v2m_write :: "kernel \<Rightarrow> u64 \<Rightarrow> u64 \<Rightarrow> gic_sys \<Rightarrow> gic_sys option" where
  "gzvm_v2m_write K offset value g =
     (if offset \<noteq> V2M_MSI_SETSPI_NS then Some g
      else
        (let spi = uint (value AND 0x3ff) - int GIC_INTERNAL
         in if spi < int GZVM_MSI_SPI_BASE \<or>
               of_nat GZVM_MSI_SPI_BASE + msi_vectors (vm_state (gs_vm g)) \<le> (of_int spi :: u32)
            then Some g
            else qemu_set_gic_irq K spi 1 g))"

section \<open>Setters the board calls\<close>

text \<open>They assert that the accelerator is enabled.\<close>

definition gzvm_arm_set_dtb :: "u64 \<Rightarrow> u64 \<Rightarrow> gzvm_vm \<Rightarrow> (int \<times> gzvm_vm) option" where
  "gzvm_arm_set_dtb start sz v =
     (if vm_accel v then Some (0, v\<lparr>vm_state := (vm_state v)\<lparr>dtb_start := start, dtb_size := sz\<rparr>\<rparr>) else None)"

text \<open>The flag is whether the mismatch with the kernel's fixed addresses is reported.\<close>

definition gzvm_set_gic_bases :: "u64 \<Rightarrow> u64 \<Rightarrow> u64 \<Rightarrow> gzvm_vm \<Rightarrow> (bool \<times> gzvm_vm) option" where
  "gzvm_set_gic_bases dist redist redist_sz v =
     (if vm_accel v
      then Some (dist \<noteq> 0x08000000 \<or> redist \<noteq> 0x080A0000,
             v\<lparr>vm_state := (vm_state v)\<lparr>gic_dist_base := dist, gic_redist_base := redist, gic_redist_size := redist_sz\<rparr>\<rparr>)
      else None)"

definition gzvm_set_ram_base :: "u64 \<Rightarrow> gzvm_vm \<Rightarrow> gzvm_vm option" where
  "gzvm_set_ram_base b v =
     (if vm_accel v then Some (v\<lparr>vm_state := (vm_state v)\<lparr>ram_base := b\<rparr>\<rparr>) else None)"

section \<open>Starting the VM\<close>

text \<open>The loop over the vectors; \<open>n\<close> vectors are left from vector \<open>i\<close> on.\<close>

fun start_notifiers :: "kernel \<Rightarrow> nat \<Rightarrow> nat \<Rightarrow> gzvm_vm \<Rightarrow> (EventNotifier list \<times> gzvm_vm) option" where
  "start_notifiers K i 0 v = Some ([], v)"
| "start_notifiers K i (Suc n) v = do {
     (r, e, h) \<leftarrow> event_notifier_init K event_notifier_zero False (vm_hist v);
     let v = v\<lparr>vm_hist := h\<rparr>;
     (e, v) \<leftarrow>
       (if r < 0 then Some (e, v)
        else
          (let (a, v) = gzvm_add_irqfd K e None (int (GZVM_MSI_SPI_BASE + i)) v
           in if ans_ret a < 0
              then (let (e, h) = event_notifier_cleanup e (vm_hist v) in Some (e, v\<lparr>vm_hist := h\<rparr>))
              else Some (e, v)));
     (es, v) \<leftarrow> start_notifiers K (Suc i) n v;
     Some (e # es, v)
   }"

definition gzvm_start_vm :: "kernel \<Rightarrow> gic_sys \<Rightarrow> (int \<times> gic_sys) option" where
  "gzvm_start_vm K g =
     (if \<not> vm_accel (gs_vm g) then Some (-1, g)
      else do {
        let m = unat (msi_vectors (vm_state (gs_vm g)));
        g \<leftarrow>
          (if m \<noteq> 0 then do {
             (notifiers, v) \<leftarrow> start_notifiers K 0 m (gs_vm g);
             gzvm_gic_register_irq_notifiers notifiers GZVM_MSI_SPI_BASE (g\<lparr>gs_vm := v\<rparr>)
           }
           else Some g);
        let s = vm_state (gs_vm g);
        if dtb_start s \<noteq> 0 then
          (let (a, v) = gzvm_vm_ioctl K (GZVM_SET_DTB_CONFIG \<lparr>dtb_addr = dtb_start s, dtb_cfg_size = dtb_size s\<rparr>) (gs_vm g)
           in Some (if ans_ret a \<noteq> 0 then -1 else 0, g\<lparr>gs_vm := v\<rparr>))
        else Some (0, g)
      })"

text \<open>The result is only reported.\<close>

definition gzvm_setup_post :: "kernel \<Rightarrow> gic_sys \<Rightarrow> gic_sys option" where
  "gzvm_setup_post K g = do { (r, g) \<leftarrow> gzvm_start_vm K g; Some g }"

section \<open>Lemmas\<close>

text \<open>
  What binds a notifier to a vector: an \<open>irqfd\<close> request for its descriptor was made, and accepted,
  among the calls between \<open>h\<close> and \<open>h'\<close>.
\<close>

definition irqfd_request :: "int \<Rightarrow> nat \<Rightarrow> int \<Rightarrow> host_call" where
  "irqfd_request vm i fd =
     VmIoctl vm (GZVM_IRQFD \<lparr>irqfd_fd = fd, irqfd_gsi = int (GZVM_MSI_SPI_BASE + i), irqfd_flags = 0, irqfd_resamplefd = 0\<rparr>)"

definition bound :: "kernel \<Rightarrow> int \<Rightarrow> nat \<Rightarrow> EventNotifier \<Rightarrow> history \<Rightarrow> bool" where
  "bound K vm i e h \<longleftrightarrow> rfd e = wfd e \<and>
     (\<exists>p q. h = p @ irqfd_request vm i (rfd e) # q \<and> 0 \<le> ans_ret (K p (irqfd_request vm i (rfd e))))"

text \<open>The kernel supports \<open>eventfd\<close>, so that the pipe fallback is not taken.\<close>

definition has_eventfd :: "kernel \<Rightarrow> bool" where
  "has_eventfd K \<longleftrightarrow> (\<forall>h. 0 \<le> ans_ret (K h Eventfd) \<or> (ans_errno (K h Eventfd) \<noteq> ENOSYS \<and> 0 < ans_errno (K h Eventfd)))"

lemma has_eventfd_kernel_ok [simp]: "has_eventfd kernel_ok"
  by (simp add: has_eventfd_def kernel_ok_def)

lemma bound_append: "bound K vm i e h \<Longrightarrow> bound K vm i e (h @ h')"
proof -
  assume "bound K vm i e h"
  then obtain p q where "rfd e = wfd e" "h = p @ irqfd_request vm i (rfd e) # q"
    "0 \<le> ans_ret (K p (irqfd_request vm i (rfd e)))" by (auto simp: bound_def)
  then show ?thesis unfolding bound_def by (intro conjI exI [of _ p] exI [of _ "q @ h'"]) auto
qed

lemma notifier_init_outcome:
  assumes "has_eventfd K"
  obtains fd where "event_notifier_init K event_notifier_zero False h =
      Some (0, \<lparr>rfd = fd, wfd = fd, en_initialized = True\<rparr>, h @ [Eventfd])"
    | r where "r < 0" "event_notifier_init K event_notifier_zero False h = Some (r, event_notifier_zero, h @ [Eventfd])"
proof (cases "0 \<le> ans_ret (K h Eventfd)")
  case True
  then show ?thesis using that(1) by (simp add: event_notifier_init_def hcall_def)
next
  case False
  with assms have "ans_errno (K h Eventfd) \<noteq> ENOSYS" "0 < ans_errno (K h Eventfd)"
    by (auto simp: has_eventfd_def)
  with False show ?thesis using that(2) by (simp add: event_notifier_init_def hcall_def)
qed

lemma gzvm_add_irqfd_request:
  "gzvm_add_irqfd K e None (int GZVM_MSI_SPI_BASE + int i) v =
     (K (vm_hist v) (irqfd_request (vmfd (vm_state v)) i (rfd e)),
      v\<lparr>vm_hist := vm_hist v @ [irqfd_request (vmfd (vm_state v)) i (rfd e)]\<rparr>)"
  by (simp add: gzvm_add_irqfd_def gzvm_vm_ioctl_def hcall_def irqfd_request_def event_notifier_get_fd_def)

text \<open>Whether the kernel grants every vector its descriptor and its binding.\<close>

definition grants_irqfds :: "kernel \<Rightarrow> bool" where
  "grants_irqfds K \<longleftrightarrow> (\<forall>h. 0 \<le> ans_ret (K h Eventfd)) \<and> (\<forall>h vm r. 0 \<le> ans_ret (K h (VmIoctl vm (GZVM_IRQFD r))))"

lemma start_one:
  assumes "has_eventfd K"
  obtains e q where "start_notifiers K i (Suc n) v = do {
      (es, w) \<leftarrow> start_notifiers K (Suc i) n (v\<lparr>vm_hist := vm_hist v @ q\<rparr>); Some (e # es, w) }"
    "en_initialized e \<Longrightarrow> bound K (vmfd (vm_state v)) i e (vm_hist v @ q)"
    "grants_irqfds K \<Longrightarrow> en_initialized e"
  using assms
proof (cases rule: notifier_init_outcome [of K "vm_hist v"])
  case (1 fd)
  let ?e = "\<lparr>rfd = fd, wfd = fd, en_initialized = True\<rparr>"
  let ?c = "irqfd_request (vmfd (vm_state v)) i fd"
  show ?thesis
  proof (cases "ans_ret (K (vm_hist v @ [Eventfd]) ?c) < 0")
    case True
    then have "\<not> grants_irqfds K" by (auto simp: grants_irqfds_def irqfd_request_def not_le intro: exI)
    with 1 True show ?thesis
      by (intro that [of "[Eventfd, ?c, Close fd]" "fst (event_notifier_cleanup ?e [])"])
        (simp_all add: gzvm_add_irqfd_request event_notifier_cleanup_def)
  next
    case False
    have "bound K (vmfd (vm_state v)) i ?e (vm_hist v @ [Eventfd, ?c])" unfolding bound_def
      using False by (intro conjI exI [of _ "vm_hist v @ [Eventfd]"] exI [of _ "[]"]) simp_all
    with 1 False show ?thesis
      by (intro that [of "[Eventfd, ?c]" ?e]) (simp_all add: gzvm_add_irqfd_request)
  qed
next
  case (2 r)
  then have "\<not> 0 \<le> ans_ret (K (vm_hist v) Eventfd)"
    by (auto simp: event_notifier_init_def hcall_def)
  then have "\<not> grants_irqfds K" by (auto simp: grants_irqfds_def)
  with 2 show ?thesis
    by (intro that [of "[Eventfd]" event_notifier_zero]) (simp_all add: event_notifier_zero_def)
qed

lemma start_notifiers_outcome:
  assumes K: "has_eventfd K"
  shows "\<exists>es q. start_notifiers K i n v = Some (es, v\<lparr>vm_hist := vm_hist v @ q\<rparr>) \<and> length es = n \<and>
    (\<forall>j < n. (en_initialized (es ! j) \<longrightarrow> bound K (vmfd (vm_state v)) (i + j) (es ! j) (vm_hist v @ q)) \<and>
       (grants_irqfds K \<longrightarrow> en_initialized (es ! j)))"
proof (induction n arbitrary: i v)
  case 0
  then show ?case by (intro exI [of _ "[]"]) simp
next
  case (Suc n)
  obtain e q where e: "start_notifiers K i (Suc n) v = do {
      (es, w) \<leftarrow> start_notifiers K (Suc i) n (v\<lparr>vm_hist := vm_hist v @ q\<rparr>); Some (e # es, w) }"
    "en_initialized e \<Longrightarrow> bound K (vmfd (vm_state v)) i e (vm_hist v @ q)" "grants_irqfds K \<Longrightarrow> en_initialized e"
    using start_one [OF K] by blast
  from Suc.IH [of "Suc i" "v\<lparr>vm_hist := vm_hist v @ q\<rparr>"] obtain es q' where
    r: "start_notifiers K (Suc i) n (v\<lparr>vm_hist := vm_hist v @ q\<rparr>) = Some (es, v\<lparr>vm_hist := vm_hist v @ q @ q'\<rparr>)" "length es = n"
    "\<forall>j < n. (en_initialized (es ! j) \<longrightarrow> bound K (vmfd (vm_state v)) (Suc i + j) (es ! j) (vm_hist v @ q @ q')) \<and>
       (grants_irqfds K \<longrightarrow> en_initialized (es ! j))" by auto
  have "bound K (vmfd (vm_state v)) i e (vm_hist v @ q @ q')" if "en_initialized e"
    using bound_append [OF e(2) [OF that], of q'] by simp
  with e(1,3) r show ?case
    by (intro exI [of _ "e # es"] exI [of _ "q @ q'"]) (auto simp: less_Suc_eq_0_disj nth_Cons')
qed

lemma start_vm_outcome:
  assumes K: "has_eventfd K" and g: "vm_accel (gs_vm g)"
  defines "m \<equiv> unat (msi_vectors (vm_state (gs_vm g)))" and "vm \<equiv> vmfd (vm_state (gs_vm g))"
  obtains r t where "gzvm_start_vm K g = Some (r, t)" "gs_gic t = gs_gic g" "gzvm_irq_level_lock t = gzvm_irq_level_lock g"
    "vm_state (gs_vm t) = vm_state (gs_vm g)"
    "\<And>i. i < m \<Longrightarrow> 48 + i < length (irq_notify t) \<and>
       (en_initialized (irq_notify t ! (48 + i)) \<longrightarrow> bound K vm i (irq_notify t ! (48 + i)) (vm_hist (gs_vm t))) \<and>
       (grants_irqfds K \<longrightarrow> en_initialized (irq_notify t ! (48 + i)))"
proof -
  obtain es q where es: "start_notifiers K 0 m (gs_vm g) = Some (es, (gs_vm g)\<lparr>vm_hist := vm_hist (gs_vm g) @ q\<rparr>)" "length es = m"
    "\<forall>j < m. (en_initialized (es ! j) \<longrightarrow> bound K vm j (es ! j) (vm_hist (gs_vm g) @ q)) \<and> (grants_irqfds K \<longrightarrow> en_initialized (es ! j))"
    using start_notifiers_outcome [OF K, of 0 m "gs_vm g"] by (auto simp: vm_def)
  obtain u where u: "(if m \<noteq> 0 then do {
        (notifiers, v) \<leftarrow> start_notifiers K 0 m (gs_vm g);
        gzvm_gic_register_irq_notifiers notifiers GZVM_MSI_SPI_BASE (g\<lparr>gs_vm := v\<rparr>) } else Some g) = Some u"
    "gs_gic u = gs_gic g" "gzvm_irq_level_lock u = gzvm_irq_level_lock g" "vm_state (gs_vm u) = vm_state (gs_vm g)"
    "\<And>i. i < m \<Longrightarrow> 48 + i < length (irq_notify u) \<and> irq_notify u ! (48 + i) = es ! i"
    "m \<noteq> 0 \<Longrightarrow> vm_hist (gs_vm u) = vm_hist (gs_vm g) @ q"
  proof (cases "m = 0")
    case True
    then show ?thesis using that [of g] by simp
  next
    case False
    let ?h = "g\<lparr>gs_vm := (gs_vm g)\<lparr>vm_hist := vm_hist (gs_vm g) @ q\<rparr>\<rparr>"
    obtain arr where arr: "gzvm_gic_register_irq_notifiers es 48 ?h = Some (?h\<lparr>irq_notify := arr\<rparr>)" "length arr = max (length (irq_notify ?h)) (48 + length es)"
      "\<forall>k < length arr. arr ! k = (if 48 \<le> k \<and> k < 48 + length es then es ! (k - 48)
         else if k < length (irq_notify ?h) then irq_notify ?h ! k else event_notifier_zero)"
      using register_notifiers [of es 48 ?h] by blast
    with False es show ?thesis
      by (intro that [of "?h\<lparr>irq_notify := arr\<rparr>"]) (simp_all add: GZVM_MSI_SPI_BASE_def)
  qed
  obtain r v where v: "gzvm_start_vm K g = Some (r, u\<lparr>gs_vm := v\<rparr>)" "vm_state v = vm_state (gs_vm u)"
    "\<exists>q. vm_hist v = vm_hist (gs_vm u) @ q"
  proof (cases "dtb_start (vm_state (gs_vm u)) = 0")
    case True
    then have "gzvm_start_vm K g = Some (0, u\<lparr>gs_vm := gs_vm u\<rparr>)"
      using g u(1) unfolding gzvm_start_vm_def m_def [symmetric] Let_def by simp
    then show ?thesis by (rule that) simp_all
  next
    case False
    define c where "c = GZVM_SET_DTB_CONFIG \<lparr>dtb_addr = dtb_start (vm_state (gs_vm u)), dtb_cfg_size = dtb_size (vm_state (gs_vm u))\<rparr>"
    have "gzvm_start_vm K g = Some (if ans_ret (fst (gzvm_vm_ioctl K c (gs_vm u))) \<noteq> 0 then -1 else 0,
        u\<lparr>gs_vm := snd (gzvm_vm_ioctl K c (gs_vm u))\<rparr>)"
      using g u(1) False unfolding gzvm_start_vm_def m_def [symmetric] Let_def c_def [symmetric]
      by (simp add: case_prod_unfold c_def)
    then show ?thesis by (rule that) (simp_all add: gzvm_vm_ioctl_hist frame_simps)
  qed
  from v(3) obtain q' where q': "vm_hist v = vm_hist (gs_vm u) @ q'" by blast
  have "48 + i < length (irq_notify u) \<and>
       (en_initialized (irq_notify u ! (48 + i)) \<longrightarrow> bound K vm i (irq_notify u ! (48 + i)) (vm_hist v)) \<and>
       (grants_irqfds K \<longrightarrow> en_initialized (irq_notify u ! (48 + i)))" if i: "i < m" for i
  proof -
    have "vm_hist v = (vm_hist (gs_vm g) @ q) @ q'" using u(6) q' i by simp
    with u(5) [OF i] es(3) i bound_append [of K vm i "es ! i" "vm_hist (gs_vm g) @ q" q'] show ?thesis by simp
  qed
  with v(1,2) u(2-4) show ?thesis by (intro that [of r "u\<lparr>gs_vm := v\<rparr>"]) simp_all
qed

text \<open>The inputs of the controller are wired and cover the vectors.\<close>

definition msi_ready :: "gic_sys \<Rightarrow> bool" where
  "msi_ready g \<longleftrightarrow> gic_ready g \<and> gic_num_in (gs_gic g) = int (num_lines g) \<and>
     48 + unat (msi_vectors (vm_state (gs_vm g))) \<le> num_spi g"

lemma low10: "unat (v AND 0x3ff) < 1024" for v :: u64
proof -
  have "v AND 0x3ff \<le> 0x3ff" by (rule word_and_le1)
  then show ?thesis by (simp add: word_le_nat_alt)
qed

lemma v2m_write_vector:
  fixes "value" :: u64
  assumes g: "msi_ready g"
  defines "m \<equiv> unat (msi_vectors (vm_state (gs_vm g)))" and "n \<equiv> unat (value AND 0x3ff)"
  shows "gzvm_v2m_write K V2M_MSI_SETSPI_NS value g =
    (if 80 \<le> n \<and> n < 80 + m then gzvm_arm_gicv3_set_irq K (int (n - 32)) 1 g else Some g)"
proof -
  have num: "48 + m \<le> num_spi g" "num_spi g \<le> 988" "num_spi g \<le> num_lines g" "gic_num_in (gs_gic g) = int (num_lines g)"
    using g ready_bounds(1) [of g] by (simp_all add: msi_ready_def m_def num_lines_def)
  have n: "n < 1024" unfolding n_def by (rule low10)
  have spi: "uint (value AND 0x3ff) = int n" by (simp add: n_def)
  show ?thesis
  proof (cases "80 \<le> n")
    case False
    then show ?thesis unfolding gzvm_v2m_write_def spi Let_def by (simp add: GIC_INTERNAL_def GZVM_MSI_SPI_BASE_def)
  next
    case True
    then have eq: "int n - int GIC_INTERNAL = int (n - 32)" by (simp add: GIC_INTERNAL_def)
    have "unat (48 + msi_vectors (vm_state (gs_vm g))) = 48 + m"
      using num(1,2) by (subst unat_add_no_wrap) (simp_all add: m_def)
    moreover have "k < 1024 \<Longrightarrow> unat (of_int (int k) :: u32) = k" for k by (simp add: unat_of_nat_u32)
    then have "unat (of_int (int (n - 32)) :: u32) = n - 32" using n by (simp del: of_int_of_nat_eq)
    ultimately have "of_nat GZVM_MSI_SPI_BASE + msi_vectors (vm_state (gs_vm g)) \<le> (of_int (int (n - 32)) :: u32) \<longleftrightarrow> 80 + m \<le> n"
      using True by (auto simp: word_le_nat_alt GZVM_MSI_SPI_BASE_def simp del: of_int_of_nat_eq)
    with True num show ?thesis unfolding gzvm_v2m_write_def spi Let_def eq qemu_set_gic_irq_def
      by (auto simp: GZVM_MSI_SPI_BASE_def)
  qed
qed

section \<open>Properties\<close>

definition dev_vectors :: "PCIDevice \<Rightarrow> u32" where
  "dev_vectors dev = gzvm_count_msi_vectors_device dev 0"

fun bus_devices :: "PCIBus \<Rightarrow> PCIDevice list" and child_devices :: "PCIBus list \<Rightarrow> PCIDevice list" where
  "bus_devices (PCIBus devices child) = child_devices child @ List.map_filter id devices"
| "child_devices [] = []"
| "child_devices (b # bs) = bus_devices b @ child_devices bs"

lemma count_devices:
  "pci_for_each_device_under_bus ds gzvm_count_msi_vectors_device x = x + sum_list (map dev_vectors (List.map_filter id ds))"
  by (induction ds arbitrary: x)
    (auto simp: List.map_filter_simps dev_vectors_def gzvm_count_msi_vectors_device_def split: option.splits)

lemma count_buses:
  "pci_for_each_bus b gzvm_count_msi_vectors_bus x = x + sum_list (map dev_vectors (bus_devices b))"
  "pci_for_each_child bs gzvm_count_msi_vectors_bus y = y + sum_list (map dev_vectors (child_devices bs))"
proof (induction b and bs arbitrary: x and y rule: bus_devices_child_devices.induct)
qed (simp_all add: gzvm_count_msi_vectors_bus_def count_devices)

lemma v2m_number: "n < 1024 \<Longrightarrow> unat ((of_nat n :: u64) AND 0x3ff) = n"
proof -
  assume "n < 1024"
  moreover have "(of_nat n :: u64) AND 0x3ff = take_bit 10 (of_nat n)"
    by (simp add: take_bit_eq_mask mask_eq_exp_minus_1)
  ultimately show ?thesis by (simp add: take_bit_eq_mod unat_mod unat_of_nat)
qed

lemma v2m_typer:
  assumes "unat n < 2 ^ 16"
  shows "unat (ucast (push_bit 16 80 OR n :: u32) :: u64) = 80 * 2 ^ 16 + unat n"
proof -
  have "\<not> bit n k" if "16 \<le> k" for k using small_bits [of n k 16] assms that by auto
  moreover have "\<not> bit (push_bit 16 x) k" if "k < 16" for k and x :: u32 using that by (simp add: bit_push_bit_iff)
  ultimately have "push_bit 16 80 AND n = 0"
    by (intro bit_word_eqI) (metis bit_and_iff bit_0_eq bot_apply bot_bool_def not_less)
  then have "push_bit 16 80 OR n = push_bit 16 80 + n" using word_plus_and_or [of "push_bit 16 80" n] by simp
  then have "unat (push_bit 16 80 OR n) = 80 * 2 ^ 16 + unat n"
    using assms unat_add_no_wrap [of "push_bit 16 80" n] by simp
  moreover have "unat (ucast (x :: u32) :: u64) = unat x" for x by (simp add: unsigned_ucast_eq take_bit_nat_eq_self [OF less_trans [OF unsigned_less]])
  ultimately show ?thesis by simp
qed

text \<open>What a guest's write to the frame does: the line of a counted vector is raised, once, and nothing else.\<close>

definition raises_line :: "nat \<Rightarrow> gic_sys \<Rightarrow> gic_sys \<Rightarrow> bool" where
  "raises_line n g t \<longleftrightarrow>
     (if by_notifier g n
      then t = g\<lparr>gs_vm := (gs_vm g)\<lparr>vm_hist := vm_hist (gs_vm g) @ [WriteEvent (wfd (irq_notify g ! n))]\<rparr>\<rparr>
      else vm_hist (gs_vm t) = vm_hist (gs_vm g) @
          [VmIoctl (vmfd (vm_state (gs_vm g))) (GZVM_IRQ_LINE \<lparr>il_irq = irq_word GZVM_IRQ_TYPE_SPI 0 (of_nat n), il_level = 1\<rparr>)] \<and>
        (\<forall>k < num_lines g. line_high t k = (k = n \<or> line_high g k)) \<and> gic_ready t \<and> gic_frame g t)"

lemma set_irq_raises:
  assumes "no_eintr K" "gic_ready g" "n < num_spi g"
  shows "\<exists>t. gzvm_arm_gicv3_set_irq K (int n) 1 g = Some t \<and> raises_line n g t"
proof (cases "by_notifier g n")
  case True
  then show ?thesis using set_line_notifier [OF assms(1)] by (simp add: raises_line_def)
next
  case False
  have "n < num_lines g" using assms(3) by (simp add: num_lines_def)
  with set_line [OF assms(2) this, of 1 K] False assms(3) show ?thesis
    by (auto simp: raises_line_def line_set_def line_word_def)
qed

text \<open>
  C22.  The vectors of all PCI devices, on every bus, are counted; where they exceed the interrupts
  the board has left, QEMU exits, and otherwise the frame reports the number of vectors and the
  first interrupt, and any guest write to it returns: a write of the number of a counted vector to
  the doorbell raises the line of exactly that number, through its notifier where it is bound to one
  and otherwise with one request to the hypervisor that leaves all other lines as they were, and
  every other write does nothing.
\<close>

theorem doorbell_frame_is_safe:
  assumes "no_eintr K"
  shows "case gzvm_set_msi_vectors bus v of
      Inl n \<Rightarrow> n = sum_list (map dev_vectors (bus_devices bus)) \<and> 208 < n
    | Inr w \<Rightarrow> msi_vectors (vm_state w) = sum_list (map dev_vectors (bus_devices bus)) \<and>
        (\<forall>g offset value. gic_ready g \<and> gic_num_in (gs_gic g) = int (num_lines g) \<and> num_spi g = NUM_IRQS \<and> gs_vm g = w \<longrightarrow>
          unat (gzvm_v2m_read V2M_MSI_TYPER g) = 80 * 2 ^ 16 + unat (msi_vectors (vm_state w)) \<and>
          (\<exists>t. gzvm_v2m_write K offset value g = Some t \<and>
             (if offset = V2M_MSI_SETSPI_NS \<and> 80 \<le> unat (value AND 0x3ff) \<and> unat (value AND 0x3ff) < 80 + unat (msi_vectors (vm_state w))
              then raises_line (unat (value AND 0x3ff) - 32) g t else t = g)))"
proof -
  let ?n = "sum_list (map dev_vectors (bus_devices bus))"
  have le: "?n \<le> 208 \<longleftrightarrow> unat ?n \<le> 208" by (simp add: word_le_nat_alt)
  have main: "unat (gzvm_v2m_read V2M_MSI_TYPER g) = 80 * 2 ^ 16 + unat ?n \<and>
      (\<exists>t. gzvm_v2m_write K offset value g = Some t \<and>
         (if offset = V2M_MSI_SETSPI_NS \<and> 80 \<le> unat (value AND 0x3ff) \<and> unat (value AND 0x3ff) < 80 + unat ?n
          then raises_line (unat (value AND 0x3ff) - 32) g t else t = g))"
    if n: "unat ?n \<le> 208" and g: "gic_ready g" "gic_num_in (gs_gic g) = int (num_lines g)" "num_spi g = NUM_IRQS"
      and vm: "msi_vectors (vm_state (gs_vm g)) = ?n" for g offset "value"
  proof -
    have ready: "msi_ready g" using g n vm by (simp add: msi_ready_def NUM_IRQS_def)
    have "unat (gzvm_v2m_read V2M_MSI_TYPER g) = 80 * 2 ^ 16 + unat ?n"
      using vm v2m_typer [of ?n] n by (simp add: gzvm_v2m_read_def GZVM_MSI_SPI_BASE_def GIC_INTERNAL_def)
    moreover have "\<exists>t. gzvm_v2m_write K offset value g = Some t \<and>
         (if offset = V2M_MSI_SETSPI_NS \<and> 80 \<le> unat (value AND 0x3ff) \<and> unat (value AND 0x3ff) < 80 + unat ?n
          then raises_line (unat (value AND 0x3ff) - 32) g t else t = g)"
    proof (cases "offset = V2M_MSI_SETSPI_NS")
      case True
      have "unat (value AND 0x3ff) - 32 < num_spi g" if "unat (value AND 0x3ff) < 80 + unat ?n"
        using that n g(3) by (simp add: NUM_IRQS_def)
      with True set_irq_raises [OF assms g(1), of "unat (value AND 0x3ff) - 32"] v2m_write_vector [OF ready, of K "value"] vm
      show ?thesis by auto
    next
      case False
      then show ?thesis by (simp add: gzvm_v2m_write_def)
    qed
    ultimately show ?thesis by blast
  qed
  show ?thesis using main le
    by (auto simp: gzvm_set_msi_vectors_def count_buses NUM_IRQS_def GZVM_MSI_SPI_BASE_def Let_def not_less)
qed

definition example_msi :: gic_sys where
  "example_msi = example_sys\<lparr>gs_gic := (gs_gic example_sys)\<lparr>gic_num_in := 320\<rparr>\<rparr>"

lemma example_msi_ready: "msi_ready example_msi" "num_spi example_msi = NUM_IRQS" "num_lines example_msi = 320"
  "gic_num_in (gs_gic example_msi) = int (num_lines example_msi)"
  "vm_accel (gs_vm example_msi)" "msi_vectors (vm_state (gs_vm example_msi)) = 4"
  by (simp_all add: msi_ready_def example_msi_def example_sys_def example_gic_def example_vm_gic_def gic_ready_def gic_wf_def
      gic_arrays_def num_lines_def num_spi_def NUM_IRQS_def gic_sizes)

theorem doorbell_frame_is_safe_witness:
  "(\<exists>w. gzvm_set_msi_vectors (PCIBus [None, Some \<lparr>pd_msix_present = True, msix_entries_nr = 3, pd_msi_present = False, pd_msi_flags = 0\<rparr>]
       [PCIBus [Some \<lparr>pd_msix_present = False, msix_entries_nr = 0, pd_msi_present = True, pd_msi_flags = 0\<rparr>] []]) (gs_vm example_msi) = Inr w \<and>
     msi_vectors (vm_state w) = 4) \<and>
   gzvm_v2m_write kernel_ok V2M_MSI_SETSPI_NS 84 example_msi = Some example_msi \<and>
   (\<exists>t. gzvm_v2m_write kernel_ok V2M_MSI_SETSPI_NS 83 example_msi = Some t \<and> raises_line 51 example_msi t) \<and>
   unat (gzvm_v2m_read V2M_MSI_TYPER example_msi) = 80 * 2 ^ 16 + 4"
proof -
  let ?bus = "PCIBus [None, Some \<lparr>pd_msix_present = True, msix_entries_nr = 3, pd_msi_present = False, pd_msi_flags = 0\<rparr>]
       [PCIBus [Some \<lparr>pd_msix_present = False, msix_entries_nr = 0, pd_msi_present = True, pd_msi_flags = 0\<rparr>] []]"
  have n: "gzvm_set_msi_vectors ?bus (gs_vm example_msi) = Inr (gs_vm example_msi)"
    by (simp add: gzvm_set_msi_vectors_def gzvm_count_msi_vectors_bus_def gzvm_count_msi_vectors_device_def NUM_IRQS_def GZVM_MSI_SPI_BASE_def
        msix_nr_vectors_allocated_def msi_nr_vectors_allocated_def msi_nr_vectors_def example_msi_def example_sys_def example_vm_gic_def)
  have v: "(84 :: u64) AND 0x3ff = 84" "(83 :: u64) AND 0x3ff = 83" by simp_all
  note safe = conjunct2 [OF doorbell_frame_is_safe [OF no_eintr_kernel_ok, of ?bus "gs_vm example_msi", unfolded n sum.case], rule_format]
  have "gzvm_v2m_write kernel_ok V2M_MSI_SETSPI_NS 84 example_msi = Some example_msi"
    "unat (gzvm_v2m_read V2M_MSI_TYPER example_msi) = 80 * 2 ^ 16 + 4"
    using safe [of example_msi "V2M_MSI_SETSPI_NS" 84] example_msi_ready v by (simp_all add: msi_ready_def)
  moreover have "\<exists>t. gzvm_v2m_write kernel_ok V2M_MSI_SETSPI_NS 83 example_msi = Some t \<and> raises_line 51 example_msi t"
    using safe [of example_msi "V2M_MSI_SETSPI_NS" 83] example_msi_ready v by (simp add: msi_ready_def)
  ultimately show ?thesis using n example_msi_ready(6) by simp
qed

text \<open>
  C11.  No message-signalled interrupt is lost.  Once the VM has started, whichever of the vectors the
  host could bind, a guest's write of a vector to the doorbell makes exactly one host call: it
  writes the event descriptor that an accepted request bound to the vector's interrupt, or, only
  where the host refused the descriptor or its binding, it raises that interrupt line.
\<close>

theorem every_msi_is_delivered:
  assumes "no_eintr K" "has_eventfd K" "vm_accel (gs_vm g)" "msi_ready g"
  shows "\<exists>r t. gzvm_start_vm K g = Some (r, t) \<and>
    (\<forall>i < unat (msi_vectors (vm_state (gs_vm g))). \<exists>u c.
       gzvm_v2m_write K V2M_MSI_SETSPI_NS (of_nat (80 + i)) t = Some u \<and> vm_hist (gs_vm u) = vm_hist (gs_vm t) @ [c] \<and>
       ((\<exists>e. c = WriteEvent (wfd e) \<and> bound K (vmfd (vm_state (gs_vm g))) i e (vm_hist (gs_vm t))) \<or>
        \<not> grants_irqfds K \<and> c = VmIoctl (vmfd (vm_state (gs_vm g)))
          (GZVM_IRQ_LINE \<lparr>il_irq = irq_word GZVM_IRQ_TYPE_SPI 0 (of_nat (48 + i)), il_level = 1\<rparr>)))"
proof -
  let ?m = "unat (msi_vectors (vm_state (gs_vm g)))" and ?vm = "vmfd (vm_state (gs_vm g))"
  obtain r t where t: "gzvm_start_vm K g = Some (r, t)" "gs_gic t = gs_gic g" "gzvm_irq_level_lock t = gzvm_irq_level_lock g"
    "vm_state (gs_vm t) = vm_state (gs_vm g)"
    "\<And>i. i < ?m \<Longrightarrow> 48 + i < length (irq_notify t) \<and>
       (en_initialized (irq_notify t ! (48 + i)) \<longrightarrow> bound K ?vm i (irq_notify t ! (48 + i)) (vm_hist (gs_vm t))) \<and>
       (grants_irqfds K \<longrightarrow> en_initialized (irq_notify t ! (48 + i)))"
    using start_vm_outcome [OF assms(2,3)] by blast
  have ready: "msi_ready t" "gic_ready t" "num_lines t = num_lines g" "num_spi t = num_spi g"
    using assms(4) t(2-4) same_gic_lines [OF t(2)] by (auto simp: msi_ready_def gic_ready_def num_spi_def)
  have "\<exists>u c. gzvm_v2m_write K V2M_MSI_SETSPI_NS (of_nat (80 + i)) t = Some u \<and> vm_hist (gs_vm u) = vm_hist (gs_vm t) @ [c] \<and>
       ((\<exists>e. c = WriteEvent (wfd e) \<and> bound K ?vm i e (vm_hist (gs_vm t))) \<or>
        \<not> grants_irqfds K \<and> c = VmIoctl ?vm (GZVM_IRQ_LINE \<lparr>il_irq = irq_word GZVM_IRQ_TYPE_SPI 0 (of_nat (48 + i)), il_level = 1\<rparr>))"
    if i: "i < ?m" for i
  proof -
    have lt: "48 + i < num_spi t" "80 + i < 1024" "num_spi t \<le> num_lines t"
      using i assms(4) ready ready_bounds(1) [of t] by (auto simp: msi_ready_def num_lines_def)
    have w: "gzvm_v2m_write K V2M_MSI_SETSPI_NS (of_nat (80 + i)) t = gzvm_arm_gicv3_set_irq K (int (48 + i)) 1 t"
      using v2m_write_vector [OF ready(1), of K "of_nat (80 + i)"] i t(4) v2m_number [OF lt(2)] by simp
    show ?thesis
    proof (cases "by_notifier t (48 + i)")
      case True
      then show ?thesis unfolding w using set_line_notifier [OF assms(1) _ True, of 1] t(5) [OF i]
        by (auto simp: by_notifier_def)
    next
      case False
      then have "\<not> grants_irqfds K" using t(5) [OF i] by (auto simp: by_notifier_def GZVM_MSI_SPI_BASE_def)
      moreover obtain u where "gzvm_arm_gicv3_set_irq K (int (48 + i)) 1 t = Some u" "line_set K (48 + i) True t u"
        using set_line [OF ready(2), of "48 + i" 1 K] False lt by auto
      moreover have "line_word t (48 + i) = irq_word GZVM_IRQ_TYPE_SPI 0 (of_nat (48 + i))" using lt by (simp add: line_word_def)
      ultimately show ?thesis unfolding w using t(4) by (auto simp: line_set_def)
    qed
  qed
  with t(1) show ?thesis by blast
qed

theorem every_msi_is_delivered_witness:
  "\<exists>r t u c. gzvm_start_vm kernel_ok example_msi = Some (r, t) \<and>
     gzvm_v2m_write kernel_ok V2M_MSI_SETSPI_NS 83 t = Some u \<and> vm_hist (gs_vm u) = vm_hist (gs_vm t) @ [c] \<and>
     (\<exists>e. c = WriteEvent (wfd e) \<and> bound kernel_ok 4 3 e (vm_hist (gs_vm t)))"
proof -
  have "grants_irqfds kernel_ok" by (simp add: grants_irqfds_def kernel_ok_def)
  moreover have "vmfd (vm_state (gs_vm example_msi)) = 4" by (simp add: example_msi_def example_sys_def example_vm_gic_def)
  ultimately show ?thesis
    using every_msi_is_delivered [OF no_eintr_kernel_ok has_eventfd_kernel_ok example_msi_ready(5,1)] example_msi_ready(6)
    by (fastforce dest: spec [where x = 3])
qed

end
