(* ===== verification/Gzvm_Slots.thy ===== *)
theory Gzvm_Slots
  imports Gzvm_State
begin

text \<open>
  The memory slot table of \<open>accel/gzvm/gzvm-mem.c\<close>: the array \<open>slots\<close>, and the array \<open>sorted_ids\<close>
  that keeps the active slots in the order of their guest addresses for the binary search.

  The first part translates the functions.  The second gives the table's invariant, shows that
  the binary search computes the position a linear scan finds, that insertion and removal keep
  the invariant and never leave the arrays, and what a lookup returns.
\<close>

section \<open>The functions\<close>

text \<open>The loop of \<open>gzvm_find_first_ge()\<close>; \<open>lo\<close>, \<open>hi\<close> and \<open>first_ge\<close> are its local variables.\<close>

function find_first_ge_loop :: "GZVMState \<Rightarrow> u64 \<Rightarrow> int \<Rightarrow> int \<Rightarrow> int \<Rightarrow> int option" where
  "find_first_ge_loop s addr lo hi first_ge =
     (if lo \<le> hi then
        (let mid = lo + (hi - lo) div 2
         in do {
              i \<leftarrow> aget (sorted_ids s) mid;
              slot \<leftarrow> aget (slots s) (int i);
              if slot_start slot \<ge> addr
              then find_first_ge_loop s addr lo (mid - 1) mid
              else find_first_ge_loop s addr (mid + 1) hi first_ge
            })
      else Some first_ge)"
  by pat_completeness auto
termination
  by (relation "measure (\<lambda>(s, addr, lo, hi, first_ge). nat (hi - lo + 1))") auto

declare find_first_ge_loop.simps [simp del]

definition gzvm_find_first_ge :: "GZVMState \<Rightarrow> u64 \<Rightarrow> int option" where
  "gzvm_find_first_ge s addr =
     find_first_ge_loop s addr 0 (int (nr_active_slots s) - 1) (int (nr_active_slots s))"

text \<open>\<open>gzvm_find_matching_slot_locked()\<close>: the scan from index \<open>i\<close>; the result is the slot's id.\<close>

function find_matching_from :: "GZVMState \<Rightarrow> u64 \<Rightarrow> u64 \<Rightarrow> u64 \<Rightarrow> nat \<Rightarrow> nat option option" where
  "find_matching_from s st sz m i =
     (if i < nr_active_slots s then
        do {
          k \<leftarrow> aget (sorted_ids s) (int i);
          slot \<leftarrow> aget (slots s) (int k);
          if slot_start slot = st \<and> slot_size slot = sz \<and> slot_mem slot = m
          then Some (Some k)
          else find_matching_from s st sz m (Suc i)
        }
      else Some None)"
  by pat_completeness auto
termination
  by (relation "measure (\<lambda>(s, st, sz, m, i). nr_active_slots s - i)") auto

declare find_matching_from.simps [simp del]

definition gzvm_find_matching_slot_locked ::
  "GZVMState \<Rightarrow> u64 \<Rightarrow> u64 \<Rightarrow> u64 \<Rightarrow> nat option option" where
  "gzvm_find_matching_slot_locked s st sz m =
     do {
       gzvm_assert_mutex_locked s;
       find_matching_from s st sz m 0
     }"

definition gzvm_find_slot_by_addr_locked :: "GZVMState \<Rightarrow> u64 \<Rightarrow> gzvm_slot option option" where
  "gzvm_find_slot_by_addr_locked s addr =
     do {
       gzvm_assert_mutex_locked s;
       if nr_active_slots s = 0 then Some None
       else do {
         pos \<leftarrow> gzvm_find_first_ge s (addr + 1);
         if pos > 0 then do {
           i \<leftarrow> aget (sorted_ids s) (pos - 1);
           slot \<leftarrow> aget (slots s) (int i);
           if addr - slot_start slot < slot_size slot then Some (Some slot) else Some None
         }
         else Some None
       }
     }"

text \<open>
  \<open>gzvm_find_slot_by_addr()\<close> takes the lock around the search; its answer is \<open>NULL\<close> with no
  accelerator.
\<close>

definition gzvm_find_slot_by_addr :: "gzvm_vm \<Rightarrow> u64 \<Rightarrow> (gzvm_slot option \<times> gzvm_vm) option" where
  "gzvm_find_slot_by_addr v addr =
     (if \<not> vm_accel v then Some (None, v)
      else do {
        s \<leftarrow> gzvm_slots_lock (vm_state v);
        slot \<leftarrow> gzvm_find_slot_by_addr_locked s addr;
        s \<leftarrow> gzvm_slots_unlock s;
        Some (slot, v\<lparr>vm_state := s\<rparr>)
      })"

text \<open>
  \<open>gzvm_get_free_slot()\<close>: the first slot of size 0, or the first of the new ones after doubling
  both arrays, up to \<open>GZVM_MAX_MEM_SLOTS\<close>.  The result is the slot's index.  \<open>g_renew\<close> leaves the
  new part of \<open>sorted_ids\<close> undefined (here 0), and it is never read before it is written.
\<close>

fun first_free_from :: "gzvm_slot list \<Rightarrow> nat \<Rightarrow> nat option" where
  "first_free_from [] i = None"
| "first_free_from (x # xs) i = (if slot_size x = 0 then Some i else first_free_from xs (Suc i))"

definition blank_slot :: "nat \<Rightarrow> gzvm_slot" where
  "blank_slot i = \<lparr>slot_start = 0, slot_size = 0, slot_mem = 0, slot_id = i, slot_flags = 0\<rparr>"

definition gzvm_get_free_slot :: "GZVMState \<Rightarrow> nat option \<times> GZVMState" where
  "gzvm_get_free_slot s =
     (case first_free_from (slots s) 0 of
        Some i \<Rightarrow> (Some i, s)
      | None \<Rightarrow>
          (let old = nr_slots_allocated s;
               nslots = min (old * 2) GZVM_MAX_MEM_SLOTS
           in if nslots \<le> old then (None, s)
              else (Some old,
                    s\<lparr>slots := slots s @ map blank_slot [old..<nslots],
                      sorted_ids := sorted_ids s @ replicate (nslots - old) 0,
                      nr_slots_allocated := nslots\<rparr>)))"

text \<open>\<open>gzvm_update_sorted_ids()\<close>, with the loop of its removal branch.\<close>

function remove_sorted_from :: "GZVMState \<Rightarrow> nat \<Rightarrow> u64 \<Rightarrow> int \<Rightarrow> GZVMState option" where
  "remove_sorted_from s slot_ix gpa pos =
     (if pos < int (nr_active_slots s) then
        do {
          i \<leftarrow> aget (sorted_ids s) pos;
          slot \<leftarrow> aget (slots s) (int i);
          if slot_start slot = gpa then
            (if i = slot_ix then
               do {
                 ids \<leftarrow> amove (sorted_ids s) pos (pos + 1) (int (nr_active_slots s) - pos - 1);
                 Some (s\<lparr>sorted_ids := ids, nr_active_slots := nr_active_slots s - 1\<rparr>)
               }
             else remove_sorted_from s slot_ix gpa (pos + 1))
          else Some s
        }
      else Some s)"
  by pat_completeness auto
termination
  by (relation "measure (\<lambda>(s, slot_ix, gpa, pos). nat (int (nr_active_slots s) - pos))") auto

declare remove_sorted_from.simps [simp del]

definition gzvm_update_sorted_ids :: "GZVMState \<Rightarrow> nat \<Rightarrow> bool \<Rightarrow> GZVMState option" where
  "gzvm_update_sorted_ids s slot_ix add =
     do {
       slot \<leftarrow> aget (slots s) (int slot_ix);
       pos \<leftarrow> gzvm_find_first_ge s (slot_start slot);
       if add then
         do {
           ids \<leftarrow> amove (sorted_ids s) (pos + 1) pos (int (nr_active_slots s) - pos);
           ids \<leftarrow> aset ids pos slot_ix;
           Some (s\<lparr>sorted_ids := ids, nr_active_slots := nr_active_slots s + 1\<rparr>)
         }
       else remove_sorted_from s slot_ix (slot_start slot) pos
     }"

section \<open>The invariant\<close>

definition active_ids :: "GZVMState \<Rightarrow> nat list" where
  "active_ids s = take (nr_active_slots s) (sorted_ids s)"

abbreviation active_starts :: "GZVMState \<Rightarrow> u64 list" where
  "active_starts s \<equiv> map (\<lambda>i. slot_start (slots s ! i)) (active_ids s)"

definition slot_fits :: "gzvm_slot \<Rightarrow> bool" where
  "slot_fits x \<longleftrightarrow> unat (slot_start x) + unat (slot_size x) < 2 ^ 64"

definition slots_shape :: "GZVMState \<Rightarrow> bool" where
  "slots_shape s \<longleftrightarrow>
     length (slots s) = nr_slots_allocated s \<and> length (sorted_ids s) = nr_slots_allocated s \<and>
     0 < nr_slots_allocated s \<and> nr_slots_allocated s \<le> GZVM_MAX_MEM_SLOTS \<and>
     nr_active_slots s \<le> nr_slots_allocated s \<and>
     (\<forall>i < nr_slots_allocated s. slot_id (slots s ! i) = i) \<and>
     distinct (active_ids s) \<and> (\<forall>i \<in> set (active_ids s). i < nr_slots_allocated s) \<and>
     sorted (active_starts s)"

text \<open>
  The invariant of the table: the arrays have their allocated length, \<open>sorted_ids\<close> lists every
  slot in use exactly once and in the order of the guest addresses, a slot is in use exactly
  when its size is not 0, and no slot in use wraps around the guest address space.
\<close>

definition slots_wf :: "GZVMState \<Rightarrow> bool" where
  "slots_wf s \<longleftrightarrow> slots_shape s \<and>
     (\<forall>i < nr_slots_allocated s. i \<in> set (active_ids s) \<longleftrightarrow> slot_size (slots s ! i) \<noteq> 0) \<and>
     (\<forall>i \<in> set (active_ids s). slot_fits (slots s ! i))"

definition active_slots :: "GZVMState \<Rightarrow> gzvm_slot set" where
  "active_slots s = {slots s ! i | i. i < nr_slots_allocated s \<and> slot_size (slots s ! i) \<noteq> 0}"

definition in_slot :: "u64 \<Rightarrow> gzvm_slot \<Rightarrow> bool" where
  "in_slot a x \<longleftrightarrow> unat (slot_start x) \<le> unat a \<and> unat a < unat (slot_start x) + unat (slot_size x)"

definition slots_disjoint :: "GZVMState \<Rightarrow> bool" where
  "slots_disjoint s \<longleftrightarrow>
     (\<forall>x \<in> active_slots s. \<forall>y \<in> active_slots s. \<forall>a. in_slot a x \<and> in_slot a y \<longrightarrow> x = y)"

section \<open>The binary search\<close>

lemma slots_shape_reads:
  assumes "slots_shape s" "j < nr_active_slots s"
  shows "aget (sorted_ids s) (int j) = Some (active_ids s ! j)"
    and "aget (slots s) (int (active_ids s ! j)) = Some (slots s ! (active_ids s ! j))"
    and "active_ids s ! j \<in> set (active_ids s)"
proof -
  have len: "length (active_ids s) = nr_active_slots s"
    using assms(1) by (simp add: active_ids_def slots_shape_def)
  show "active_ids s ! j \<in> set (active_ids s)"
    using assms(2) len by (intro nth_mem) simp
  then show "aget (slots s) (int (active_ids s ! j)) = Some (slots s ! (active_ids s ! j))"
    using assms(1) by (intro aget_nat) (auto simp: slots_shape_def)
  show "aget (sorted_ids s) (int j) = Some (active_ids s ! j)"
    using assms by (simp add: aget_nat slots_shape_def active_ids_def)
qed

lemma length_active_ids: "slots_shape s \<Longrightarrow> length (active_ids s) = nr_active_slots s"
  by (simp add: active_ids_def slots_shape_def)

text \<open>
  The loop's invariant: below \<open>lo\<close> every address is smaller, above \<open>hi\<close> none is, and \<open>first_ge\<close>
  is the position after \<open>hi\<close>.
\<close>

lemma find_first_ge_loop_correct:
  assumes shape: "slots_shape s" and n: "n = nr_active_slots s"
  shows "0 \<le> lo \<Longrightarrow> hi < int n \<Longrightarrow> lo \<le> hi + 1 \<Longrightarrow> first_ge = hi + 1 \<Longrightarrow>
    \<forall>j. int j < lo \<longrightarrow> active_starts s ! j < addr \<Longrightarrow>
    \<forall>j. hi < int j \<and> j < n \<longrightarrow> addr \<le> active_starts s ! j \<Longrightarrow>
    \<exists>k \<le> n. find_first_ge_loop s addr lo hi first_ge = Some (int k) \<and>
      (\<forall>j < k. active_starts s ! j < addr) \<and> (\<forall>j. k \<le> j \<and> j < n \<longrightarrow> addr \<le> active_starts s ! j)"
proof (induction "nat (hi - lo + 1)" arbitrary: lo hi first_ge rule: less_induct)
  case (less lo hi first_ge)
  show ?case
  proof (cases "lo \<le> hi")
    case False
    with less.prems have "hi + 1 = lo" by simp
    with less.prems False show ?thesis
      by (intro exI [of _ "nat lo"]) (auto simp: find_first_ge_loop.simps [of s addr lo hi])
  next
    case True
    define mid where "mid = nat (lo + (hi - lo) div 2)"
    have mid: "lo + (hi - lo) div 2 = int mid" "lo \<le> int mid" "int mid \<le> hi"
      using True less.prems by (auto simp: mid_def)
    then have lt: "mid < n" using less.prems by simp
    have step: "find_first_ge_loop s addr lo hi first_ge =
        (if active_starts s ! mid \<ge> addr then find_first_ge_loop s addr lo (int mid - 1) (int mid)
         else find_first_ge_loop s addr (int mid + 1) hi first_ge)"
      using True slots_shape_reads [OF shape, of mid] lt n mid length_active_ids [OF shape]
      by (simp add: find_first_ge_loop.simps [of s addr lo hi] Let_def)
    have mono: "active_starts s ! i \<le> active_starts s ! j" if "i \<le> j" "j < n" for i j
      using that shape n length_active_ids [OF shape]
      by (intro sorted_nth_mono) (auto simp: slots_shape_def)
    show ?thesis
    proof (cases "active_starts s ! mid \<ge> addr")
      case ge: True
      have "addr \<le> active_starts s ! j" if "int mid - 1 < int j \<and> j < n" for j
      proof -
        from that have "mid \<le> j" "j < n" by auto
        with mono [of mid j] ge show ?thesis by (blast intro: order_trans)
      qed
      then show ?thesis
        using less.hyps [of "int mid - 1" lo "int mid"] less.prems mid lt
        unfolding step if_P [OF ge] by auto
    next
      case False
      have "active_starts s ! j < addr" if "int j < int mid + 1" for j
      proof -
        from that have "j \<le> mid" by auto
        with mono [of j mid] lt False show ?thesis by (meson le_less_trans not_le)
      qed
      then show ?thesis
        using less.hyps [of hi "int mid + 1" first_ge] less.prems mid lt
        unfolding step if_not_P [OF False] by auto
    qed
  qed
qed

lemma gzvm_find_first_ge_correct:
  assumes "slots_shape s"
  obtains k where "gzvm_find_first_ge s addr = Some (int k)" "k \<le> nr_active_slots s"
    and "\<And>j. j < k \<Longrightarrow> active_starts s ! j < addr"
    and "\<And>j. k \<le> j \<Longrightarrow> j < nr_active_slots s \<Longrightarrow> addr \<le> active_starts s ! j"
proof -
  have "\<exists>k \<le> nr_active_slots s. gzvm_find_first_ge s addr = Some (int k) \<and>
      (\<forall>j < k. active_starts s ! j < addr) \<and>
      (\<forall>j. k \<le> j \<and> j < nr_active_slots s \<longrightarrow> addr \<le> active_starts s ! j)"
    unfolding gzvm_find_first_ge_def
    by (rule find_first_ge_loop_correct [OF assms refl]) auto
  with that show thesis by blast
qed

text \<open>The search is the linear scan for the first slot that does not start below the address.\<close>

lemma gzvm_find_first_ge_linear:
  assumes "slots_shape s"
  shows "gzvm_find_first_ge s addr =
    Some (int (length (takeWhile (\<lambda>i. slot_start (slots s ! i) < addr) (active_ids s))))"
proof -
  obtain k where k: "gzvm_find_first_ge s addr = Some (int k)" "k \<le> nr_active_slots s"
      "\<And>j. j < k \<Longrightarrow> active_starts s ! j < addr"
      "\<And>j. k \<le> j \<Longrightarrow> j < nr_active_slots s \<Longrightarrow> addr \<le> active_starts s ! j"
    using gzvm_find_first_ge_correct [OF assms] by metis
  have "takeWhile (\<lambda>i. slot_start (slots s ! i) < addr) (active_ids s) = take k (active_ids s)"
    using k length_active_ids [OF assms]
    by (intro takeWhile_first) (force simp: not_less)+
  with k length_active_ids [OF assms] show ?thesis by simp
qed

section \<open>Insertion and removal\<close>

lemma slots_shape_slot_update [wf_intros]:
  assumes "slots_shape s" "i \<notin> set (active_ids s)" "slot_id x = i"
  shows "slots_shape (s\<lparr>slots := (slots s)[i := x]\<rparr>)"
proof -
  let ?t = "s\<lparr>slots := (slots s)[i := x]\<rparr>"
  have ids: "active_ids ?t = active_ids s" by (simp add: active_ids_def)
  have "active_starts ?t = active_starts s"
    using assms(2) by (auto simp: ids) (metis nth_list_update_neq)
  with assms(1) have "sorted (active_starts ?t)" by (simp only: slots_shape_def)
  moreover have "slot_id ((slots s)[i := x] ! j) = j" if "j < length (slots s)" for j
    using assms(1,3) that by (cases "i = j") (auto simp: slots_shape_def)
  ultimately show ?thesis using assms(1) ids by (simp add: slots_shape_def)
qed

lemma slots_shape_ids:
  assumes "slots_shape s" "length ids = nr_slots_allocated s" "n \<le> nr_slots_allocated s"
    and "distinct (take n ids)" "\<forall>i \<in> set (take n ids). i < nr_slots_allocated s"
    and "sorted (map (\<lambda>i. slot_start (slots s ! i)) (take n ids))"
  shows "slots_shape (s\<lparr>sorted_ids := ids, nr_active_slots := n\<rparr>)"
  using assms by (simp add: slots_shape_def active_ids_def)

lemma take_insert_at:
  assumes "k \<le> n" "n < length xs"
  shows "take (Suc n) ((take (Suc k) xs @ take (n - k) (drop k xs) @ drop (Suc n) xs)[k := v]) =
    take k (take n xs) @ v # drop k (take n xs)"
proof -
  have "(take (Suc k) xs)[k := v] = take k xs @ [v]"
    using assms by (simp add: take_Suc_conv_app_nth list_update_append)
  moreover have "k < length (take (Suc k) xs)" using assms by simp
  ultimately have "(take (Suc k) xs @ take (n - k) (drop k xs) @ drop (Suc n) xs)[k := v] =
      take k xs @ v # take (n - k) (drop k xs) @ drop (Suc n) xs"
    by (simp add: list_update_append)
  with assms show ?thesis by (auto simp: take_Cons' min_def drop_take)
qed

lemma gzvm_update_sorted_ids_add:
  assumes shape: "slots_shape s" and i: "i < nr_slots_allocated s" "i \<notin> set (active_ids s)"
    and room: "nr_active_slots s < nr_slots_allocated s"
  obtains ids k where
    "gzvm_update_sorted_ids s i True =
       Some (s\<lparr>sorted_ids := ids, nr_active_slots := Suc (nr_active_slots s)\<rparr>)"
    "slots_shape (s\<lparr>sorted_ids := ids, nr_active_slots := Suc (nr_active_slots s)\<rparr>)"
    "take (Suc (nr_active_slots s)) ids = take k (active_ids s) @ i # drop k (active_ids s)"
proof -
  define n where "n = nr_active_slots s"
  define xs where "xs = sorted_ids s"
  have len: "length xs = nr_slots_allocated s" "length (slots s) = nr_slots_allocated s"
    using shape by (simp_all add: slots_shape_def xs_def)
  obtain k where k: "gzvm_find_first_ge s (slot_start (slots s ! i)) = Some (int k)" "k \<le> n"
      "\<And>j. j < k \<Longrightarrow> active_starts s ! j < slot_start (slots s ! i)"
      "\<And>j. k \<le> j \<Longrightarrow> j < n \<Longrightarrow> slot_start (slots s ! i) \<le> active_starts s ! j"
    using gzvm_find_first_ge_correct [OF shape] unfolding n_def by metis
  define ids where "ids = (take (Suc k) xs @ take (n - k) (drop k xs) @ drop (Suc n) xs)[k := i]"
  have mv: "amove xs (int k + 1) (int k) (int n - int k) =
      Some (take (Suc k) xs @ take (n - k) (drop k xs) @ drop (Suc n) xs)"
    using amove_nat [of "Suc k" "n - k" xs k] k(2) room len
    by (simp add: n_def of_nat_diff add.commute)
  have upd: "gzvm_update_sorted_ids s i True =
      Some (s\<lparr>sorted_ids := ids, nr_active_slots := Suc (nr_active_slots s)\<rparr>)"
    using i len k mv room by (simp add: gzvm_update_sorted_ids_def aget_nat aset_nat ids_def n_def xs_def)
  have tk: "take (Suc n) ids = take k (active_ids s) @ i # drop k (active_ids s)"
    using take_insert_at [OF k(2), of xs i] room len
    by (simp add: ids_def active_ids_def n_def xs_def)
  have "slots_shape (s\<lparr>sorted_ids := ids, nr_active_slots := Suc n\<rparr>)"
  proof (rule slots_shape_ids [OF shape])
    have act: "length (active_ids s) = n" using length_active_ids [OF shape] by (simp add: n_def)
    have "sorted (take k (active_starts s) @ slot_start (slots s ! i) # drop k (active_starts s))"
      using shape k act by (intro sorted_insert_at) (auto simp: slots_shape_def intro: less_imp_le)
    then show "sorted (map (\<lambda>i. slot_start (slots s ! i)) (take (Suc n) ids))"
      by (simp add: tk take_map drop_map)
    have "distinct (active_ids s)" using shape by (simp add: slots_shape_def)
    moreover from this have "set (take k (active_ids s)) \<inter> set (drop k (active_ids s)) = {}"
      by (rule set_take_disj_set_drop_if_distinct) simp
    ultimately show "distinct (take (Suc n) ids)"
      using i by (auto simp: tk dest: in_set_takeD in_set_dropD)
    show "\<forall>j \<in> set (take (Suc n) ids). j < nr_slots_allocated s"
      using shape i by (auto simp: tk slots_shape_def dest: in_set_takeD in_set_dropD)
    show "length ids = nr_slots_allocated s" "Suc n \<le> nr_slots_allocated s"
      using k(2) room len by (simp_all add: ids_def n_def)
  qed
  with upd tk that show thesis unfolding n_def by blast
qed

lemma remove_sorted_from_correct:
  assumes shape: "slots_shape s" and p: "p < nr_active_slots s" "active_ids s ! p = i"
  shows "pos \<le> p \<Longrightarrow> \<forall>j. pos \<le> j \<and> j \<le> p \<longrightarrow> active_starts s ! j = gpa \<Longrightarrow>
    remove_sorted_from s i gpa (int pos) =
      Some (s\<lparr>sorted_ids := take p (sorted_ids s) @ take (nr_active_slots s - Suc p) (drop (Suc p) (sorted_ids s))
              @ drop (nr_active_slots s - 1) (sorted_ids s),
            nr_active_slots := nr_active_slots s - 1\<rparr>)"
proof (induction "p - pos" arbitrary: pos rule: less_induct)
  case less
  let ?n = "nr_active_slots s"
  have len: "length (sorted_ids s) = nr_slots_allocated s" "?n \<le> nr_slots_allocated s"
    using shape by (simp_all add: slots_shape_def)
  have pos: "pos < ?n" using less.prems p by simp
  have start: "slot_start (slots s ! (active_ids s ! pos)) = gpa"
    using less.prems pos length_active_ids [OF shape] by auto
  note rd = slots_shape_reads [OF shape pos]
  show ?case
  proof (cases "pos = p")
    case True
    have "amove (sorted_ids s) (int p) (int p + 1) (int ?n - int p - 1) =
        Some (take p (sorted_ids s) @ take (?n - Suc p) (drop (Suc p) (sorted_ids s))
              @ drop (?n - 1) (sorted_ids s))"
      using amove_nat [of p "?n - Suc p" "sorted_ids s" "Suc p"] p len
      by (simp add: of_nat_diff add.commute diff_diff_eq)
    with True rd start pos p show ?thesis
      by (simp add: remove_sorted_from.simps [of s i gpa "int p"])
  next
    case False
    have "active_ids s ! pos \<noteq> i"
      using False p pos shape length_active_ids [OF shape]
      by (metis nth_eq_iff_index_eq slots_shape_def)
    with rd start pos have "remove_sorted_from s i gpa (int pos) = remove_sorted_from s i gpa (int (Suc pos))"
      by (simp add: remove_sorted_from.simps [of s i gpa "int pos"] add.commute)
    with less.hyps [of "Suc pos"] less.prems False show ?thesis by auto
  qed
qed

lemma take_delete_at:
  assumes "p < n" "n \<le> length xs"
  shows "take (n - 1) (take p xs @ take (n - Suc p) (drop (Suc p) xs) @ drop (n - 1) xs) =
    take p (take n xs) @ drop (Suc p) (take n xs)"
  using assms by (cases n) (auto simp: min_def drop_take less_Suc_eq_le dest: le_antisym)

lemma gzvm_update_sorted_ids_remove:
  assumes shape: "slots_shape s" and i: "i \<in> set (active_ids s)"
  obtains ids where
    "gzvm_update_sorted_ids s i False =
       Some (s\<lparr>sorted_ids := ids, nr_active_slots := nr_active_slots s - 1\<rparr>)"
    "slots_shape (s\<lparr>sorted_ids := ids, nr_active_slots := nr_active_slots s - 1\<rparr>)"
    "set (take (nr_active_slots s - 1) ids) = set (active_ids s) - {i}"
proof -
  define n where "n = nr_active_slots s"
  define a where "a = active_ids s"
  have len: "length a = n" "n \<le> length (sorted_ids s)" "length (sorted_ids s) = nr_slots_allocated s"
    "length (slots s) = nr_slots_allocated s"
    using shape length_active_ids [OF shape] by (simp_all add: slots_shape_def n_def a_def)
  have a: "distinct a" "sorted (map (\<lambda>i. slot_start (slots s ! i)) a)" "\<forall>i \<in> set a. i < nr_slots_allocated s"
    using shape by (simp_all add: slots_shape_def a_def)
  obtain p where p: "p < n" "a ! p = i" using i len by (auto simp: in_set_conv_nth a_def)
  define gpa where "gpa = slot_start (slots s ! i)"
  obtain k where k: "gzvm_find_first_ge s gpa = Some (int k)" "k \<le> n"
      "\<And>j. j < k \<Longrightarrow> active_starts s ! j < gpa"
      "\<And>j. k \<le> j \<Longrightarrow> j < n \<Longrightarrow> gpa \<le> active_starts s ! j"
    using gzvm_find_first_ge_correct [OF shape] unfolding n_def by metis
  have pstart: "active_starts s ! p = gpa" using p len by (simp add: gpa_def a_def)
  then have kp: "k \<le> p" using k(3) [of p] by (meson not_le less_irrefl)
  have eq: "active_starts s ! j = gpa" if "k \<le> j" "j \<le> p" for j
  proof (rule antisym)
    have "active_starts s ! j \<le> active_starts s ! p"
      using a that p len by (intro sorted_nth_mono) (auto simp: a_def)
    then show "active_starts s ! j \<le> gpa" using pstart by simp
    show "gpa \<le> active_starts s ! j" using k(4) [of j] that p by simp
  qed
  define ids where "ids = take p (sorted_ids s) @ take (n - Suc p) (drop (Suc p) (sorted_ids s))
      @ drop (n - 1) (sorted_ids s)"
  have upd: "gzvm_update_sorted_ids s i False = Some (s\<lparr>sorted_ids := ids, nr_active_slots := n - 1\<rparr>)"
    using remove_sorted_from_correct [OF shape, of p i k gpa] p kp eq k(1) a i len
    by (simp add: gzvm_update_sorted_ids_def aget_nat gpa_def n_def a_def ids_def)
  have tk: "take (n - 1) ids = take p a @ drop (Suc p) a"
    using take_delete_at [of p n "sorted_ids s"] p len by (simp add: ids_def a_def active_ids_def n_def)
  have set_tk: "set (take (n - 1) ids) = set a - {i}"
    unfolding tk using distinct_delete_at [OF a(1), of p] p len by simp
  have "slots_shape (s\<lparr>sorted_ids := ids, nr_active_slots := n - 1\<rparr>)"
  proof (rule slots_shape_ids [OF shape])
    show "length ids = nr_slots_allocated s" "n - 1 \<le> nr_slots_allocated s"
      using p len by (simp_all add: ids_def)
    have "set (take p a) \<inter> set (drop (Suc p) a) = {}"
      using a(1) by (rule set_take_disj_set_drop_if_distinct) simp
    then show "distinct (take (n - 1) ids)" unfolding tk using a(1) by simp
    show "\<forall>j \<in> set (take (n - 1) ids). j < nr_slots_allocated s"
      unfolding set_tk using a(3) by simp
    show "sorted (map (\<lambda>i. slot_start (slots s ! i)) (take (n - 1) ids))"
      unfolding tk using sorted_delete_at [OF a(2), of p] by (simp add: take_map drop_map)
  qed
  with upd set_tk that show thesis unfolding n_def a_def by blast
qed

section \<open>Free slots\<close>

lemma first_free_from_Some:
  "first_free_from xs i = Some j \<Longrightarrow> i \<le> j \<and> j < i + length xs \<and> slot_size (xs ! (j - i)) = 0"
proof (induction xs arbitrary: i)
  case (Cons x xs)
  then show ?case by (cases "slot_size x = 0") (fastforce simp: nth_Cons' split: if_splits)+
qed simp

lemma first_free_from_None: "first_free_from xs i = None \<longleftrightarrow> (\<forall>x \<in> set xs. slot_size x \<noteq> 0)"
  by (induction xs arbitrary: i) auto

lemma slots_wf_active_iff:
  "slots_wf s \<Longrightarrow> i < nr_slots_allocated s \<Longrightarrow> i \<in> set (active_ids s) \<longleftrightarrow> slot_size (slots s ! i) \<noteq> 0"
  by (simp add: slots_wf_def)

lemma slots_wf_room:
  assumes "slots_wf s" "i < nr_slots_allocated s" "slot_size (slots s ! i) = 0"
  shows "nr_active_slots s < nr_slots_allocated s"
proof -
  have shape: "slots_shape s" using assms(1) by (simp add: slots_wf_def)
  have "set (active_ids s) \<subseteq> {..<nr_slots_allocated s} - {i}"
    using assms shape by (auto simp: slots_wf_def slots_shape_def)
  then have "card (set (active_ids s)) \<le> card ({..<nr_slots_allocated s} - {i})"
    by (intro card_mono) auto
  then show ?thesis
    using shape assms(2) by (simp add: slots_shape_def distinct_card active_ids_def)
qed

lemma active_slots_ids: "slots_wf s \<Longrightarrow> active_slots s = (\<lambda>i. slots s ! i) ` set (active_ids s)"
  by (auto simp: active_slots_def slots_wf_def slots_shape_def)

text \<open>
  Doubling the arrays: the new slots are free, the old ones and the order of the active ones stay.
\<close>

lemma slots_wf_grow:
  assumes wf: "slots_wf s" and n: "nr_slots_allocated s < n" "n \<le> GZVM_MAX_MEM_SLOTS"
    and t: "t = s\<lparr>slots := slots s @ map blank_slot [nr_slots_allocated s..<n],
                 sorted_ids := sorted_ids s @ replicate (n - nr_slots_allocated s) 0,
                 nr_slots_allocated := n\<rparr>"
  shows "slots_wf t" "active_ids t = active_ids s" "active_slots t = active_slots s"
proof -
  let ?old = "nr_slots_allocated s"
  have shape: "slots_shape s" using wf by (simp add: slots_wf_def)
  have len: "length (slots s) = ?old" "length (sorted_ids s) = ?old" "nr_active_slots s \<le> ?old"
    using shape by (simp_all add: slots_shape_def)
  show ids: "active_ids t = active_ids s"
    using len by (simp add: active_ids_def t)
  have old: "slots t ! i = slots s ! i" if "i < ?old" for i
    using that len by (simp add: t nth_append)
  have new: "slots t ! i = blank_slot i" if "?old \<le> i" "i < n" for i
    using that len by (simp add: t nth_append)
  have act: "\<forall>i \<in> set (active_ids s). i < ?old" using shape by (simp add: slots_shape_def)
  have "active_starts t = active_starts s" using act old by (simp add: ids)
  then have sorted: "sorted (active_starts t)" using shape by (simp only: slots_shape_def)
  have id: "slot_id (slots t ! i) = i" if "i < n" for i
    using that old [of i] new [of i] shape by (cases "i < ?old") (auto simp: slots_shape_def blank_slot_def)
  have shape_t: "slots_shape t"
    using shape n act sorted id len ids by (auto simp: slots_shape_def t)
  have "i \<in> set (active_ids t) \<longleftrightarrow> slot_size (slots t ! i) \<noteq> 0" if "i < n" for i
    using that old [of i] new [of i] wf act ids
    by (cases "i < ?old") (auto simp: slots_wf_def blank_slot_def)
  moreover have "\<forall>i \<in> set (active_ids t). slot_fits (slots t ! i)"
    using wf act old unfolding ids slots_wf_def by simp
  moreover have "nr_slots_allocated t = n" by (simp add: t)
  ultimately show wf_t: "slots_wf t" using shape_t unfolding slots_wf_def by blast
  show "active_slots t = active_slots s"
    using old act by (auto simp: active_slots_ids [OF wf] active_slots_ids [OF wf_t] ids image_iff)
qed

lemma gzvm_get_free_slot_correct:
  assumes wf: "slots_wf s" and get: "gzvm_get_free_slot s = (Some i, t)"
  shows "slots_wf t" "i < nr_slots_allocated t" "slot_size (slots t ! i) = 0"
    "active_ids t = active_ids s" "active_slots t = active_slots s"
    "t = s\<lparr>slots := slots t, sorted_ids := sorted_ids t, nr_slots_allocated := nr_slots_allocated t\<rparr>"
proof -
  let ?old = "nr_slots_allocated s"
  have len: "length (slots s) = ?old" using wf by (simp add: slots_wf_def slots_shape_def)
  have "slots_wf t \<and> i < nr_slots_allocated t \<and> slot_size (slots t ! i) = 0 \<and>
    active_ids t = active_ids s \<and> active_slots t = active_slots s \<and>
    t = s\<lparr>slots := slots t, sorted_ids := sorted_ids t, nr_slots_allocated := nr_slots_allocated t\<rparr>"
  proof (cases "first_free_from (slots s) 0")
    case (Some j)
    with get first_free_from_Some [OF Some] len wf show ?thesis
      by (auto simp: gzvm_get_free_slot_def)
  next
    case None
    define n where "n = min (?old * 2) GZVM_MAX_MEM_SLOTS"
    from None get have n: "?old < n" and i: "i = ?old"
      and t: "t = s\<lparr>slots := slots s @ map blank_slot [?old..<n],
        sorted_ids := sorted_ids s @ replicate (n - ?old) 0, nr_slots_allocated := n\<rparr>"
      by (auto simp: gzvm_get_free_slot_def Let_def n_def split: if_splits)
    note grow = slots_wf_grow [OF wf n _ t]
    have "slots t ! i = blank_slot i" using n i len by (simp add: t nth_append)
    moreover have "slot_size (blank_slot i) = 0" by (simp add: blank_slot_def)
    moreover have "nr_slots_allocated t = n" by (simp add: t)
    moreover have "t = s\<lparr>slots := slots t, sorted_ids := sorted_ids t, nr_slots_allocated := nr_slots_allocated t\<rparr>"
      by (simp add: t)
    ultimately show ?thesis using grow n i by (simp add: n_def)
  qed
  then show "slots_wf t" "i < nr_slots_allocated t" "slot_size (slots t ! i) = 0"
    "active_ids t = active_ids s" "active_slots t = active_slots s"
    "t = s\<lparr>slots := slots t, sorted_ids := sorted_ids t, nr_slots_allocated := nr_slots_allocated t\<rparr>"
    by blast+
qed

text \<open>The table refuses a new slot exactly when all 512 slots are in use.\<close>

lemma gzvm_get_free_slot_None_iff:
  assumes wf: "slots_wf s"
  shows "fst (gzvm_get_free_slot s) = None \<longleftrightarrow> nr_active_slots s = GZVM_MAX_MEM_SLOTS"
proof -
  let ?n = "nr_slots_allocated s"
  have shape: "slots_shape s" using wf by (simp add: slots_wf_def)
  have len: "length (slots s) = ?n" "0 < ?n" "?n \<le> GZVM_MAX_MEM_SLOTS" "nr_active_slots s \<le> ?n"
    using shape by (simp_all add: slots_shape_def)
  show ?thesis
  proof (cases "first_free_from (slots s) 0")
    case (Some j)
    then have "nr_active_slots s < ?n"
      using first_free_from_Some [OF Some] slots_wf_room [OF wf, of j] len by simp
    with Some len show ?thesis by (simp add: gzvm_get_free_slot_def)
  next
    case None
    then have "\<forall>i < ?n. slot_size (slots s ! i) \<noteq> 0"
      using len by (simp add: first_free_from_None)
    then have "set (active_ids s) = {..<?n}"
      using wf shape by (auto simp: slots_wf_def slots_shape_def)
    then have "card (set (active_ids s)) = ?n" by simp
    then have "nr_active_slots s = ?n"
      using shape by (simp add: slots_shape_def distinct_card active_ids_def)
    with None len show ?thesis by (auto simp: gzvm_get_free_slot_def Let_def min_def)
  qed
qed

section \<open>Lookup\<close>

lemma gzvm_find_slot_total:
  assumes "slots_shape s" "slots_locked s"
  obtains k where "k \<le> nr_active_slots s"
    and "\<And>j. j < k \<Longrightarrow> active_starts s ! j < addr + 1"
    and "\<And>j. k \<le> j \<Longrightarrow> j < nr_active_slots s \<Longrightarrow> addr + 1 \<le> active_starts s ! j"
    and "gzvm_find_slot_by_addr_locked s addr =
      Some (if 0 < k \<and> addr - slot_start (slots s ! (active_ids s ! (k - 1)))
                        < slot_size (slots s ! (active_ids s ! (k - 1)))
            then Some (slots s ! (active_ids s ! (k - 1))) else None)"
proof -
  obtain k where k: "gzvm_find_first_ge s (addr + 1) = Some (int k)" "k \<le> nr_active_slots s"
      "\<And>j. j < k \<Longrightarrow> active_starts s ! j < addr + 1"
      "\<And>j. k \<le> j \<Longrightarrow> j < nr_active_slots s \<Longrightarrow> addr + 1 \<le> active_starts s ! j"
    using gzvm_find_first_ge_correct [OF assms(1)] by metis
  have "gzvm_find_slot_by_addr_locked s addr =
      Some (if 0 < k \<and> addr - slot_start (slots s ! (active_ids s ! (k - 1)))
                        < slot_size (slots s ! (active_ids s ! (k - 1)))
            then Some (slots s ! (active_ids s ! (k - 1))) else None)"
  proof (cases k)
    case 0
    with k(1) assms(2) show ?thesis
      by (simp add: gzvm_find_slot_by_addr_locked_def gzvm_assert_mutex_locked_def)
  next
    case (Suc m)
    with k(2) have "m < nr_active_slots s" by simp
    from slots_shape_reads [OF assms(1) this] Suc k(1) assms(2) this show ?thesis
      by (simp add: gzvm_find_slot_by_addr_locked_def gzvm_assert_mutex_locked_def)
  qed
  with k(2-4) that show thesis by blast
qed

lemma gzvm_find_slot_sound:
  assumes wf: "slots_wf s" "slots_locked s"
    and r: "gzvm_find_slot_by_addr_locked s addr = Some (Some x)"
  shows "x \<in> active_slots s \<and> in_slot addr x"
proof -
  have shape: "slots_shape s" using wf by (simp add: slots_wf_def)
  obtain k where k: "k \<le> nr_active_slots s" "\<And>j. j < k \<Longrightarrow> active_starts s ! j < addr + 1"
    and f: "gzvm_find_slot_by_addr_locked s addr =
      Some (if 0 < k \<and> addr - slot_start (slots s ! (active_ids s ! (k - 1)))
                        < slot_size (slots s ! (active_ids s ! (k - 1)))
            then Some (slots s ! (active_ids s ! (k - 1))) else None)"
    using gzvm_find_slot_total [OF shape wf(2)] by metis
  from r f have x: "x = slots s ! (active_ids s ! (k - 1))" "0 < k" "addr - slot_start x < slot_size x"
    by (auto split: if_splits)
  with k have m: "k - 1 < nr_active_slots s" by simp
  have "slot_start x < addr + 1"
    using k(2) [of "k - 1"] x(1,2) m length_active_ids [OF shape] by simp
  then have "slot_start x \<le> addr" by (rule word_less_plus_one_le)
  with x(3) have "in_slot addr x"
    by (simp add: in_slot_def word_sub_less_iff word_le_nat_alt)
  moreover have "x \<in> active_slots s"
    using slots_shape_reads(3) [OF shape m] x(1) by (simp add: active_slots_ids [OF wf(1)])
  ultimately show ?thesis by simp
qed

lemma gzvm_find_slot_complete:
  assumes wf: "slots_wf s" "slots_locked s" "slots_disjoint s"
    and x: "x \<in> active_slots s" "in_slot addr x"
  shows "gzvm_find_slot_by_addr_locked s addr = Some (Some x)"
proof -
  have shape: "slots_shape s" using wf by (simp add: slots_wf_def)
  note len = length_active_ids [OF shape]
  obtain k where k: "k \<le> nr_active_slots s" "\<And>j. j < k \<Longrightarrow> active_starts s ! j < addr + 1"
      "\<And>j. k \<le> j \<Longrightarrow> j < nr_active_slots s \<Longrightarrow> addr + 1 \<le> active_starts s ! j"
    and f: "gzvm_find_slot_by_addr_locked s addr =
      Some (if 0 < k \<and> addr - slot_start (slots s ! (active_ids s ! (k - 1)))
                        < slot_size (slots s ! (active_ids s ! (k - 1)))
            then Some (slots s ! (active_ids s ! (k - 1))) else None)"
    using gzvm_find_slot_total [OF shape wf(2)] by metis
  obtain j where j: "j < nr_active_slots s" "x = slots s ! (active_ids s ! j)"
    using x(1) len by (auto simp: active_slots_ids [OF wf(1)] in_set_conv_nth)
  have fits: "slot_fits x"
    using wf(1) slots_shape_reads(3) [OF shape j(1)] by (simp add: slots_wf_def j(2))
  then have "unat addr < 2 ^ 64 - 1" using x(2) by (simp add: slot_fits_def in_slot_def)
  then have "addr \<noteq> - 1" by (auto simp: unsigned_minus_1_eq_mask mask_eq_exp_minus_1)
  then have max: "addr + 1 \<noteq> 0" by (simp add: eq_neg_iff_add_eq_0)
  have le: "slot_start x \<le> addr" using x(2) by (simp add: in_slot_def word_le_nat_alt)
  have "j < k"
    using k(3) [of j] word_le_less_plus_one [OF le max] j len by (fastforce simp: not_less)
  define y where "y = slots s ! (active_ids s ! (k - 1))"
  have km: "k - 1 < nr_active_slots s" using k(1) \<open>j < k\<close> by simp
  have yact: "y \<in> active_slots s"
    using slots_shape_reads(3) [OF shape km] by (simp add: active_slots_ids [OF wf(1)] y_def)
  then have ysize: "slot_size y \<noteq> 0" by (auto simp: active_slots_def)
  have "active_starts s ! j \<le> active_starts s ! (k - 1)"
    using shape \<open>j < k\<close> km len by (intro sorted_nth_mono) (auto simp: slots_shape_def)
  then have xy: "slot_start x \<le> slot_start y" using j len km by (simp add: y_def)
  have "slot_start y \<le> addr"
    using k(2) [of "k - 1"] \<open>j < k\<close> km len word_less_plus_one_le by (simp add: y_def)
  with xy x(2) have "in_slot (slot_start y) x"
    by (simp add: in_slot_def word_le_nat_alt)
  moreover have "in_slot (slot_start y) y"
    using ysize by (simp add: in_slot_def unat_gt_0)
  ultimately have "x = y" using wf(3) x(1) yact by (auto simp: slots_disjoint_def)
  moreover have "addr - slot_start x < slot_size x"
    using x(2) le by (simp add: word_sub_less_iff in_slot_def)
  ultimately show ?thesis using f \<open>j < k\<close> by (simp add: y_def)
qed

lemma gzvm_find_slot_returns:
  assumes "slots_wf s" "slots_locked s"
  shows "\<exists>r. gzvm_find_slot_by_addr_locked s addr = Some r"
proof -
  have "slots_shape s" using assms by (simp add: slots_wf_def)
  from gzvm_find_slot_total [OF this assms(2), of addr] show ?thesis by metis
qed

text \<open>
  What the accelerator's other parts rely on: an address table whose lookup finds exactly the
  region that covers an address.
\<close>

locale region_table =
  fixes inv :: "'s \<Rightarrow> bool"
    and regions :: "'s \<Rightarrow> 'r set"
    and covers :: "'a \<Rightarrow> 'r \<Rightarrow> bool"
    and lookup :: "'s \<Rightarrow> 'a \<Rightarrow> 'r option"
  assumes lookup_iff: "inv s \<Longrightarrow> lookup s a = Some r \<longleftrightarrow> r \<in> regions s \<and> covers a r"
begin

lemma lookup_None_iff: "inv s \<Longrightarrow> lookup s a = None \<longleftrightarrow> (\<forall>r \<in> regions s. \<not> covers a r)"
  using lookup_iff [of s a] by (cases "lookup s a") auto

lemma lookup_unique: "inv s \<Longrightarrow> r \<in> regions s \<Longrightarrow> q \<in> regions s \<Longrightarrow> covers a r \<Longrightarrow> covers a q \<Longrightarrow> r = q"
  using lookup_iff [of s a r] lookup_iff [of s a q] by simp

lemma lookup_added:
  assumes "inv s" "inv t" "regions t = insert r (regions s)"
  shows "lookup t a = (if covers a r then Some r else lookup s a)"
proof (cases "covers a r")
  case True
  with assms lookup_iff [of t a r] show ?thesis by simp
next
  case False
  have "lookup t a = lookup s a"
    using assms False by (intro option_eqI) (auto simp: lookup_iff)
  with False show ?thesis by simp
qed

lemma lookup_deleted:
  assumes "inv s" "inv t" "regions t = regions s - {r}"
  shows "lookup t a = (if lookup s a = Some r then None else lookup s a)"
proof (cases "lookup s a = Some r")
  case True
  have "lookup t a \<noteq> Some x" for x
    using assms True lookup_iff [of t a x] lookup_iff [of s a x] by auto
  then have "lookup t a = None" by (cases "lookup t a") auto
  with True show ?thesis by simp
next
  case False
  have "lookup t a = lookup s a"
    using assms False by (intro option_eqI) (auto simp: lookup_iff)
  with False show ?thesis by simp
qed

end

definition table_inv :: "GZVMState \<Rightarrow> bool" where
  "table_inv s \<longleftrightarrow> slots_wf s \<and> slots_disjoint s \<and> slots_locked s"

definition table_lookup :: "GZVMState \<Rightarrow> u64 \<Rightarrow> gzvm_slot option" where
  "table_lookup s a =
     (case gzvm_find_slot_by_addr_locked s a of Some r \<Rightarrow> r | None \<Rightarrow> None)"

interpretation slot_table: region_table table_inv active_slots in_slot table_lookup
proof
  fix s a r assume "table_inv s"
  then have wf: "slots_wf s" "slots_locked s" "slots_disjoint s" by (simp_all add: table_inv_def)
  then obtain q where "gzvm_find_slot_by_addr_locked s a = Some q"
    using gzvm_find_slot_returns by blast
  with gzvm_find_slot_sound [OF wf(1,2), of a r] gzvm_find_slot_complete [OF wf, of r a]
  show "table_lookup s a = Some r \<longleftrightarrow> r \<in> active_slots s \<and> in_slot a r"
    by (auto simp: table_lookup_def)
qed

end
