(* ===== verification/Gzvm_Signal.thy ===== *)
theory Gzvm_Signal
  imports Gzvm_Slots
begin

text \<open>
  The demand-paging signal handler of \<open>accel/gzvm/gzvm-signal.c\<close>.  Whenever the slot table
  changes, \<open>gzvm_signal_update_regions()\<close> copies the host address ranges of the active slots into a
  static array of \<open>GZVM_SIGNAL_MAX_REGIONS\<close> entries; a \<open>SIGBUS\<close> at an address in that snapshot is
  answered by mapping a fresh page, every other signal goes to the default handler.
\<close>

section \<open>The functions\<close>

definition hva_range :: "gzvm_slot \<Rightarrow> GZVMSignalHvaRange" where
  "hva_range x = \<lparr>hva_start = slot_mem x, hva_end = slot_mem x + slot_size x\<rparr>"

function update_regions_from ::
  "GZVMState \<Rightarrow> nat \<Rightarrow> GZVMSignalHvaRange list \<Rightarrow> nat \<Rightarrow> (GZVMSignalHvaRange list \<times> nat) option" where
  "update_regions_from s i rs nr =
     (if i < nr_active_slots s \<and> nr < GZVM_SIGNAL_MAX_REGIONS then
        do {
          k \<leftarrow> aget (sorted_ids s) (int i);
          slot \<leftarrow> aget (slots s) (int k);
          if slot_mem slot \<noteq> 0 then
            do {
              rs \<leftarrow> aset rs (int nr) (hva_range slot);
              update_regions_from s (Suc i) rs (Suc nr)
            }
          else update_regions_from s (Suc i) rs nr
        }
      else Some (rs, nr))"
  by pat_completeness auto
termination
  by (relation "measure (\<lambda>(s, i, rs, nr). nr_active_slots s - i)") auto

declare update_regions_from.simps [simp del]

definition gzvm_signal_update_regions :: "gzvm_vm \<Rightarrow> gzvm_vm option" where
  "gzvm_signal_update_regions v =
     do {
       (rs, nr) \<leftarrow> update_regions_from (vm_state v) 0 (gzvm_signal_hva_ranges v) 0;
       Some (v\<lparr>gzvm_signal_hva_ranges := rs, gzvm_signal_nr_hva_ranges := nr\<rparr>)
     }"

text \<open>The scan of \<open>gzvm_sigsegv_handler()\<close> from index \<open>i\<close>.\<close>

function in_gzvm_from :: "gzvm_vm \<Rightarrow> u64 \<Rightarrow> nat \<Rightarrow> bool option" where
  "in_gzvm_from v addr i =
     (if i < gzvm_signal_nr_hva_ranges v then
        do {
          r \<leftarrow> aget (gzvm_signal_hva_ranges v) (int i);
          if addr \<ge> hva_start r \<and> addr < hva_end r then Some True
          else in_gzvm_from v addr (Suc i)
        }
      else Some False)"
  by pat_completeness auto
termination
  by (relation "measure (\<lambda>(v, addr, i). gzvm_signal_nr_hva_ranges v - i)") auto

declare in_gzvm_from.simps [simp del]

text \<open>
  The handler; \<open>noreplace\<close> is whether the build defines \<open>MAP_FIXED_NOREPLACE\<close>.  \<open>mmap\<close> returns
  \<open>MAP_FAILED\<close>, which is \<open>-1\<close>, where it fails.
\<close>

definition signal_default :: "int \<Rightarrow> gzvm_vm \<Rightarrow> gzvm_vm" where
  "signal_default sig v = v\<lparr>vm_hist := vm_hist v @ [SigactionDefault sig, Raise sig]\<rparr>"

definition gzvm_sigsegv_handler :: "kernel \<Rightarrow> bool \<Rightarrow> int \<Rightarrow> u64 \<Rightarrow> gzvm_vm \<Rightarrow> gzvm_vm option" where
  "gzvm_sigsegv_handler K noreplace sig si_addr v =
     (if sig = SIGBUS \<and> si_addr \<noteq> 0 then
        do {
          in_gzvm \<leftarrow> in_gzvm_from v si_addr 0;
          if in_gzvm then
            (let page_mask = NOT (gzvm_signal_page_size v - 1);
                 page_addr = si_addr AND page_mask;
                 (a, h) = hcall K (Mmap page_addr (gzvm_signal_page_size v) noreplace) (vm_hist v);
                 w = v\<lparr>vm_hist := h\<rparr>
             in if ans_ret a \<noteq> -1 then Some w
                else if noreplace \<and> ans_errno a = EEXIST then Some w
                else Some (signal_default sig w))
          else Some (signal_default sig v)
        }
      else Some (signal_default sig v))"

definition gzvm_install_sigsegv_handler :: "gzvm_vm \<Rightarrow> gzvm_vm" where
  "gzvm_install_sigsegv_handler v =
     v\<lparr>gzvm_signal_page_size := host_page_size v,
       vm_hist := vm_hist v @ [SigmaskBlock [SIGBUS, SIGSEGV]]\<rparr>"

definition gzvm_init_vcpu_sigsegv :: "history \<Rightarrow> history" where
  "gzvm_init_vcpu_sigsegv h =
     h @ [SigactionHandler SIGSEGV, SigactionHandler SIGBUS, SigmaskUnblock [SIGBUS, SIGSEGV]]"

section \<open>The snapshot\<close>

definition mapped_slots :: "GZVMState \<Rightarrow> gzvm_slot list" where
  "mapped_slots s = filter (\<lambda>x. slot_mem x \<noteq> 0) (map (\<lambda>i. slots s ! i) (active_ids s))"

lemma update_regions_from_correct:
  assumes shape: "slots_shape s"
  shows "i \<le> nr_active_slots s \<Longrightarrow> nr \<le> GZVM_SIGNAL_MAX_REGIONS \<Longrightarrow> length rs = GZVM_SIGNAL_MAX_REGIONS \<Longrightarrow>
    (let new = map hva_range (take (GZVM_SIGNAL_MAX_REGIONS - nr)
                 (filter (\<lambda>x. slot_mem x \<noteq> 0) (map (\<lambda>i. slots s ! i) (drop i (active_ids s)))))
     in update_regions_from s i rs nr =
          Some (take nr rs @ new @ drop (nr + length new) rs, nr + length new))"
proof (induction "nr_active_slots s - i" arbitrary: i rs nr)
  case 0
  then have "drop i (active_ids s) = []" using length_active_ids [OF shape] by simp
  with 0 show ?case by (simp add: update_regions_from.simps [of s i])
next
  case (Suc m)
  then have i: "i < nr_active_slots s" by simp
  note rd = slots_shape_reads [OF shape i]
  have dr: "drop i (active_ids s) = active_ids s ! i # drop (Suc i) (active_ids s)"
    using i length_active_ids [OF shape] by (simp add: Cons_nth_drop_Suc)
  show ?case
  proof (cases "nr < GZVM_SIGNAL_MAX_REGIONS")
    case False
    with Suc.prems show ?thesis by (simp add: update_regions_from.simps [of s i])
  next
    case nr: True
    show ?thesis
    proof (cases "slot_mem (slots s ! (active_ids s ! i)) = 0")
      case True
      with nr i rd dr Suc.hyps(1) [of "Suc i" nr rs] Suc.hyps(2) Suc.prems show ?thesis
        by (simp add: update_regions_from.simps [of s i])
    next
      case False
      let ?rs = "rs[nr := hva_range (slots s ! (active_ids s ! i))]"
      have upd: "update_regions_from s i rs nr = update_regions_from s (Suc i) ?rs (Suc nr)"
        using nr i rd False Suc.prems by (simp add: update_regions_from.simps [of s i] aset_nat)
      obtain q where q: "GZVM_SIGNAL_MAX_REGIONS - nr = Suc q" "GZVM_SIGNAL_MAX_REGIONS - Suc nr = q"
        using nr by (cases "GZVM_SIGNAL_MAX_REGIONS - nr") auto
      have tk: "take (Suc nr) ?rs = take nr rs @ [hva_range (slots s ! (active_ids s ! i))]"
        using nr Suc.prems by (simp add: take_Suc_conv_app_nth)
      show ?thesis
        using Suc.hyps(1) [of "Suc i" "Suc nr" ?rs] Suc.hyps(2) Suc.prems nr i dr False q
        by (simp add: upd tk Let_def)
    qed
  qed
qed

text \<open>After the update the snapshot holds the ranges of the first 64 mapped slots.\<close>

lemma gzvm_signal_update_regions_correct:
  assumes "slots_shape (vm_state v)" "length (gzvm_signal_hva_ranges v) = GZVM_SIGNAL_MAX_REGIONS"
  obtains w where "gzvm_signal_update_regions v = Some w"
    and "w = v\<lparr>gzvm_signal_hva_ranges := gzvm_signal_hva_ranges w,
               gzvm_signal_nr_hva_ranges := gzvm_signal_nr_hva_ranges w\<rparr>"
    and "length (gzvm_signal_hva_ranges w) = GZVM_SIGNAL_MAX_REGIONS"
    and "gzvm_signal_nr_hva_ranges w \<le> GZVM_SIGNAL_MAX_REGIONS"
    and "take (gzvm_signal_nr_hva_ranges w) (gzvm_signal_hva_ranges w) =
           map hva_range (take GZVM_SIGNAL_MAX_REGIONS (mapped_slots (vm_state v)))"
proof -
  define new where
    "new = map hva_range (take GZVM_SIGNAL_MAX_REGIONS (mapped_slots (vm_state v)))"
  have len: "length new \<le> GZVM_SIGNAL_MAX_REGIONS" by (simp add: new_def)
  define w where "w = v\<lparr>gzvm_signal_hva_ranges := new @ drop (length new) (gzvm_signal_hva_ranges v),
               gzvm_signal_nr_hva_ranges := length new\<rparr>"
  have "gzvm_signal_update_regions v = Some w"
    using update_regions_from_correct [OF assms(1), of 0 0 "gzvm_signal_hva_ranges v"] assms(2)
    by (simp add: gzvm_signal_update_regions_def w_def new_def mapped_slots_def Let_def)
  then show thesis
    by (rule that) (use assms(2) len in \<open>simp_all add: w_def new_def\<close>)
qed

lemma in_gzvm_from_correct:
  assumes "gzvm_signal_nr_hva_ranges v \<le> length (gzvm_signal_hva_ranges v)"
  shows "i \<le> gzvm_signal_nr_hva_ranges v \<Longrightarrow> in_gzvm_from v addr i =
    Some (\<exists>r \<in> set (drop i (take (gzvm_signal_nr_hva_ranges v) (gzvm_signal_hva_ranges v))).
            hva_start r \<le> addr \<and> addr < hva_end r)"
proof (induction "gzvm_signal_nr_hva_ranges v - i" arbitrary: i)
  case 0
  then show ?case by (simp add: in_gzvm_from.simps [of v addr i])
next
  case (Suc m)
  let ?rs = "take (gzvm_signal_nr_hva_ranges v) (gzvm_signal_hva_ranges v)"
  have i: "i < gzvm_signal_nr_hva_ranges v" using Suc.hyps(2) by simp
  then have "drop i ?rs = gzvm_signal_hva_ranges v ! i # drop (Suc i) ?rs"
    using assms by (subst Cons_nth_drop_Suc [symmetric]) auto
  with Suc.hyps(1) [of "Suc i"] Suc.hyps(2) i assms show ?case
    by (cases "hva_start (gzvm_signal_hva_ranges v ! i) \<le> addr \<and> addr < hva_end (gzvm_signal_hva_ranges v ! i)")
      (auto simp: in_gzvm_from.simps [of v addr i] aget_nat)
qed

text \<open>The host addresses the snapshot holds, and the one place the handler consults it.\<close>

definition snapshot_covers :: "gzvm_vm \<Rightarrow> u64 \<Rightarrow> bool" where
  "snapshot_covers v addr \<longleftrightarrow>
     (\<exists>r \<in> set (take (gzvm_signal_nr_hva_ranges v) (gzvm_signal_hva_ranges v)).
        hva_start r \<le> addr \<and> addr < hva_end r)"

definition snapshot_ok :: "gzvm_vm \<Rightarrow> bool" where
  "snapshot_ok v \<longleftrightarrow>
     length (gzvm_signal_hva_ranges v) = GZVM_SIGNAL_MAX_REGIONS \<and>
     gzvm_signal_nr_hva_ranges v \<le> GZVM_SIGNAL_MAX_REGIONS"

lemma in_gzvm_from_snapshot: "snapshot_ok v \<Longrightarrow> in_gzvm_from v addr 0 = Some (snapshot_covers v addr)"
  using in_gzvm_from_correct [of v 0 addr] by (simp add: snapshot_ok_def snapshot_covers_def)

section \<open>The handler\<close>

text \<open>
  The behaviour of the handler in one equation: a page is mapped for a bus error at a covered
  address and for nothing else, and the process keeps its handler exactly when that mapping
  succeeded or another thread had made it.
\<close>

lemma gzvm_sigsegv_handler_cases:
  assumes "snapshot_ok v"
  shows "gzvm_sigsegv_handler K noreplace sig addr v =
    (let call = Mmap (addr AND NOT (gzvm_signal_page_size v - 1)) (gzvm_signal_page_size v) noreplace;
         a = K (vm_hist v) call
     in if sig = SIGBUS \<and> addr \<noteq> 0 \<and> snapshot_covers v addr
        then Some (if ans_ret a \<noteq> -1 \<or> (noreplace \<and> ans_errno a = EEXIST)
                   then v\<lparr>vm_hist := vm_hist v @ [call]\<rparr>
                   else v\<lparr>vm_hist := vm_hist v @ [call, SigactionDefault sig, Raise sig]\<rparr>)
        else Some (v\<lparr>vm_hist := vm_hist v @ [SigactionDefault sig, Raise sig]\<rparr>))"
  using in_gzvm_from_snapshot [OF assms, of addr]
  by (auto simp: gzvm_sigsegv_handler_def hcall_def signal_default_def Let_def)

end
