(* ===== verification/Gzvm_Memory.thy ===== *)
theory Gzvm_Memory
  imports Gzvm_Signal Gzvm_Irq
begin

text \<open>
  The memory listener and the life of a VM: the rest of \<open>accel/gzvm/gzvm-mem.c\<close>, the object's
  life cycle in \<open>accel/gzvm/gzvm-accel-ops.c\<close> with \<open>accel_init_machine()\<close>, and how
  \<open>system/memory.c\<close> replays an address space to a listener.  A memory transaction queues the
  sections that leave and enter the guest's address space; its commit registers them with the
  kernel, one slot each.  The theorems compare the slot table with what the kernel was told.
\<close>

section \<open>Registering a section\<close>

abbreviation set_vm_state :: "GZVMState \<Rightarrow> gzvm_vm \<Rightarrow> gzvm_vm" where
  "set_vm_state s v \<equiv> v\<lparr>vm_state := s\<rparr>"

definition gzvm_set_memory_region_locked ::
  "kernel \<Rightarrow> nat \<Rightarrow> u32 \<Rightarrow> u64 \<Rightarrow> u64 \<Rightarrow> u64 \<Rightarrow> gzvm_vm \<Rightarrow> (int \<times> gzvm_vm) option" where
  "gzvm_set_memory_region_locked K slot flags gpa sz hva v =
     do {
       gzvm_assert_mutex_locked (vm_state v);
       let (a, v) = gzvm_vm_ioctl K (GZVM_SET_USER_MEMORY_REGION
             \<lparr>gumr_slot = slot, gumr_flags = flags, guest_phys_addr = gpa, memory_size = sz,
              userspace_addr = hva\<rparr>) v;
       Some (ans_ret a, v)
     }"

text \<open>\<open>slot\<close> is the index of the slot, which is its \<open>id\<close>.\<close>

definition gzvm_mem_slot_deactivate_locked :: "nat \<Rightarrow> gzvm_vm \<Rightarrow> gzvm_vm option" where
  "gzvm_mem_slot_deactivate_locked slot v =
     do {
       gzvm_assert_mutex_locked (vm_state v);
       x \<leftarrow> aget (slots (vm_state v)) (int slot);
       s \<leftarrow> gzvm_update_sorted_ids (vm_state v) (slot_id x) False;
       let s = s\<lparr>slots := (slots s)[slot := (slots s ! slot)
                   \<lparr>slot_size := 0, slot_mem := 0, slot_start := 0, slot_flags := 0\<rparr>]\<rparr>;
       gzvm_signal_update_regions (set_vm_state s v)
     }"

definition gzvm_remove_mem_slot_locked :: "kernel \<Rightarrow> nat \<Rightarrow> gzvm_vm \<Rightarrow> (int \<times> gzvm_vm) option" where
  "gzvm_remove_mem_slot_locked K slot v =
     do {
       gzvm_assert_mutex_locked (vm_state v);
       x \<leftarrow> aget (slots (vm_state v)) (int slot);
       (ret, v) \<leftarrow> gzvm_set_memory_region_locked K (slot_id x) 0 0 0 0 v;
       if ret \<noteq> 0 then Some (ret, v)
       else do {
         v \<leftarrow> gzvm_mem_slot_deactivate_locked slot v;
         Some (0, v)
       }
     }"

definition gzvm_add_mem_slot ::
  "kernel \<Rightarrow> u64 \<Rightarrow> u64 \<Rightarrow> u64 \<Rightarrow> u32 \<Rightarrow> gzvm_vm \<Rightarrow> (int \<times> gzvm_vm) option" where
  "gzvm_add_mem_slot K hva gpa sz flags v =
     (case gzvm_get_free_slot (vm_state v) of
        (None, s) \<Rightarrow> Some (- ENOSPC, set_vm_state s v)
      | (Some slot, s) \<Rightarrow>
          do {
            x \<leftarrow> aget (slots s) (int slot);
            (ret, v) \<leftarrow> gzvm_set_memory_region_locked K (slot_id x) flags gpa sz hva (set_vm_state s v);
            if ret \<noteq> 0 then Some (ret, v)
            else do {
              let s = (vm_state v)\<lparr>slots := (slots (vm_state v))[slot := x
                   \<lparr>slot_size := sz, slot_mem := hva, slot_start := gpa, slot_flags := flags\<rparr>]\<rparr>;
              s \<leftarrow> gzvm_update_sorted_ids s (slot_id x) True;
              v \<leftarrow> gzvm_signal_update_regions (set_vm_state s v);
              Some (0, v)
            }
          })"

definition gzvm_add_mem :: "kernel \<Rightarrow> MemoryRegionSection \<Rightarrow> u32 \<Rightarrow> gzvm_vm \<Rightarrow> (int \<times> gzvm_vm) option" where
  "gzvm_add_mem K sec flags v =
     do {
       total_size \<leftarrow> int128_get64 (sec_size sec);
       let base_hva = mr_ram_ptr (sec_mr sec) + sec_offset_within_region sec;
       let base_gpa = sec_offset_within_address_space sec;
       gzvm_add_mem_slot K base_hva base_gpa total_size flags v
     }"

definition UINT64_MAX :: u64 where "UINT64_MAX = -1"

definition QEMU_IS_ALIGNED :: "u64 \<Rightarrow> u64 \<Rightarrow> bool" where
  "QEMU_IS_ALIGNED n m \<longleftrightarrow> n mod m = 0"

definition gzvm_set_phys_mem_locked ::
  "kernel \<Rightarrow> MemoryRegionSection \<Rightarrow> bool \<Rightarrow> gzvm_vm \<Rightarrow> gzvm_vm option" where
  "gzvm_set_phys_mem_locked K sec add v =
     do {
       let area = sec_mr sec;
       let page_size = host_page_size v;
       let section_start = sec_offset_within_address_space sec;
       section_size \<leftarrow> int128_get64 (sec_size sec);
       if \<not> memory_region_is_ram area \<and> \<not> memory_region_is_rom area \<and> \<not> memory_region_is_romd area
       then Some v
       else if section_size = 0 \<or> section_start > UINT64_MAX - section_size \<or>
               \<not> QEMU_IS_ALIGNED section_size page_size \<or> \<not> QEMU_IS_ALIGNED section_start page_size
       then Some v
       else if (if memory_region_is_rom area \<or> memory_region_is_romd area then section_start \<noteq> 0
                else section_start < ram_base (vm_state v) \<or>
                     section_start + section_size > ram_base (vm_state v) + machine_ram_size v)
       then Some v
       else
         do {
           let section_hva = mr_ram_ptr area + sec_offset_within_region sec;
           slot \<leftarrow> gzvm_find_matching_slot_locked (vm_state v) section_start section_size section_hva;
           if \<not> add then
             (case slot of
                Some k \<Rightarrow> do { (_, v) \<leftarrow> gzvm_remove_mem_slot_locked K k v; Some v }
              | None \<Rightarrow> Some v)
           else
             (case slot of
                Some _ \<Rightarrow> Some v
              | None \<Rightarrow>
                  do {
                    let flags = (if mr_readonly area \<or> mr_rom_device area
                                 then GZVM_USER_MEM_REGION_PROTECT_FW
                                 else GZVM_USER_MEM_REGION_GUEST_MEM);
                    (_, v) \<leftarrow> gzvm_add_mem K sec flags v;
                    Some v
                  })
         }
     }"

section \<open>Transactions\<close>

definition gzvm_region_add :: "MemoryRegionSection \<Rightarrow> gzvm_vm \<Rightarrow> gzvm_vm" where
  "gzvm_region_add sec v =
     (if \<not> vm_accel v then v
      else set_vm_state ((vm_state v)\<lparr>transaction_add := transaction_add (vm_state v) @ [sec]\<rparr>) v)"

definition gzvm_region_del :: "MemoryRegionSection \<Rightarrow> gzvm_vm \<Rightarrow> gzvm_vm" where
  "gzvm_region_del sec v =
     (if \<not> vm_accel v then v
      else set_vm_state ((vm_state v)\<lparr>transaction_del := transaction_del (vm_state v) @ [sec]\<rparr>) v)"

text \<open>
  \<open>gzvm_drain_updates()\<close>: each element is unlinked before it is processed.  The recursion is over
  the queue found on entry; no element is queued meanwhile (\<open>set_phys_mem_queues\<close> below).
\<close>

definition set_queue :: "bool \<Rightarrow> MemoryRegionSection list \<Rightarrow> GZVMState \<Rightarrow> GZVMState" where
  "set_queue add us s = (if add then s\<lparr>transaction_add := us\<rparr> else s\<lparr>transaction_del := us\<rparr>)"

fun drain_queue :: "kernel \<Rightarrow> bool \<Rightarrow> MemoryRegionSection list \<Rightarrow> gzvm_vm \<Rightarrow> gzvm_vm option" where
  "drain_queue K add [] v = Some v"
| "drain_queue K add (u # us) v =
     do {
       v \<leftarrow> gzvm_set_phys_mem_locked K u add (set_vm_state (set_queue add us (vm_state v)) v);
       drain_queue K add us v
     }"

definition gzvm_drain_updates :: "kernel \<Rightarrow> bool \<Rightarrow> gzvm_vm \<Rightarrow> gzvm_vm option" where
  "gzvm_drain_updates K add v =
     drain_queue K add (if add then transaction_add (vm_state v) else transaction_del (vm_state v)) v"

definition gzvm_free_pending_updates :: "GZVMState \<Rightarrow> GZVMState" where
  "gzvm_free_pending_updates s = s\<lparr>transaction_add := [], transaction_del := []\<rparr>"

definition gzvm_region_commit :: "kernel \<Rightarrow> gzvm_vm \<Rightarrow> gzvm_vm option" where
  "gzvm_region_commit K v =
     (if \<not> vm_accel v then Some v
      else if transaction_add (vm_state v) = [] \<and> transaction_del (vm_state v) = [] then Some v
      else do {
        s \<leftarrow> gzvm_slots_lock (vm_state v);
        v \<leftarrow> gzvm_drain_updates K False (set_vm_state s v);
        v \<leftarrow> gzvm_drain_updates K True v;
        s \<leftarrow> gzvm_slots_unlock (vm_state v);
        Some (set_vm_state s v)
      })"

section \<open>Listeners\<close>

text \<open>
  An address space as a listener sees it: its flat view and its ioeventfds, each with the section
  it is attached to.  \<open>listener_add_address_space()\<close> and \<open>listener_del_address_space()\<close> for the
  three listeners of the accelerator, with the callbacks each of them has.
\<close>

type_synonym ioeventfd_entry = "MemoryRegionSection \<times> bool \<times> u64 \<times> EventNotifier"

record AddressSpace =
  as_view :: "MemoryRegionSection list"
  as_ioeventfds :: "ioeventfd_entry list"

fun eventfd_each :: "(MemoryRegionSection \<Rightarrow> bool \<Rightarrow> u64 \<Rightarrow> EventNotifier \<Rightarrow> gzvm_vm \<Rightarrow> (bool \<times> gzvm_vm) option)
     \<Rightarrow> ioeventfd_entry list \<Rightarrow> gzvm_vm \<Rightarrow> gzvm_vm option" where
  "eventfd_each f [] v = Some v"
| "eventfd_each f ((sec, m, d, e) # es) v =
     do { (_, v) \<leftarrow> f sec m d e v; eventfd_each f es v }"

definition listener_add_address_space :: "kernel \<Rightarrow> string \<Rightarrow> AddressSpace \<Rightarrow> gzvm_vm \<Rightarrow> gzvm_vm option" where
  "listener_add_address_space K name as v =
     (if name = ''gzvm'' then gzvm_region_commit K (fold gzvm_region_add (as_view as) v)
      else if name = ''gzvm-ioeventfd'' then eventfd_each (gzvm_mem_ioeventfd_add K) (as_ioeventfds as) v
      else eventfd_each (gzvm_io_ioeventfd_add K) (as_ioeventfds as) v)"

definition listener_del_address_space :: "kernel \<Rightarrow> string \<Rightarrow> AddressSpace \<Rightarrow> gzvm_vm \<Rightarrow> gzvm_vm option" where
  "listener_del_address_space K name as v =
     (if name = ''gzvm'' then gzvm_region_commit K (fold gzvm_region_del (as_view as) v)
      else if name = ''gzvm-ioeventfd'' then eventfd_each (gzvm_mem_ioeventfd_del K) (as_ioeventfds as) v
      else eventfd_each (gzvm_io_ioeventfd_del K) (as_ioeventfds as) v)"

definition memory_listener_register :: "kernel \<Rightarrow> string \<Rightarrow> AddressSpace \<Rightarrow> gzvm_vm \<Rightarrow> gzvm_vm option" where
  "memory_listener_register K name as v =
     listener_add_address_space K name as (v\<lparr>vm_listeners := vm_listeners v @ [name]\<rparr>)"

definition memory_listener_unregister :: "kernel \<Rightarrow> string \<Rightarrow> AddressSpace \<Rightarrow> gzvm_vm \<Rightarrow> gzvm_vm option" where
  "memory_listener_unregister K name as v =
     (if name \<notin> set (vm_listeners v) then Some v
      else do {
        v \<leftarrow> listener_del_address_space K name as v;
        Some (v\<lparr>vm_listeners := filter (\<lambda>n. n \<noteq> name) (vm_listeners v)\<rparr>)
      })"

definition gzvm_cleanup_mem_state :: "kernel \<Rightarrow> AddressSpace \<Rightarrow> AddressSpace \<Rightarrow> gzvm_vm \<Rightarrow> gzvm_vm option" where
  "gzvm_cleanup_mem_state K mem io v =
     do {
       v \<leftarrow> memory_listener_unregister K ''gzvm'' mem v;
       v \<leftarrow> memory_listener_unregister K ''gzvm-ioeventfd'' mem v;
       v \<leftarrow> memory_listener_unregister K ''gzvm-io'' io v;
       Some (set_vm_state (gzvm_free_pending_updates (vm_state v)) v)
     }"

section \<open>Creating the VM\<close>

definition gzvm_create_vgic_device :: "kernel \<Rightarrow> u32 \<Rightarrow> u64 \<Rightarrow> u64 \<Rightarrow> gzvm_vm \<Rightarrow> int \<times> gzvm_vm" where
  "gzvm_create_vgic_device K type addr reg_size v =
     (let (a, v) = gzvm_vm_ioctl K (GZVM_CREATE_DEVICE
            \<lparr>dev_type = type, dev_addr = addr, dev_reg_size = reg_size\<rparr>) v
      in (ans_ret a, v))"

text \<open>
  \<open>gzvm_open_device()\<close>: where \<open>GZVM_CREATE_VM\<close> fails, the descriptor is closed and \<open>s->fd\<close> keeps
  its number.
\<close>

definition gzvm_open_device :: "kernel \<Rightarrow> gzvm_vm \<Rightarrow> int \<times> gzvm_vm" where
  "gzvm_open_device K v =
     (let (a, h) = hcall K Open_gzvm (vm_hist v);
          v = v\<lparr>vm_state := (vm_state v)\<lparr>gz_fd := ans_ret a\<rparr>, vm_hist := h\<rparr>
      in if gz_fd (vm_state v) = -1 then (-1, v)
         else
           (let (a, v) = gzvm_dev_ioctl_create_vm K v
            in if ans_ret a < 0
               then (-1, v\<lparr>vm_hist := vm_hist v @ [Close (gz_fd (vm_state v))]\<rparr>)
               else (0, set_vm_state ((vm_state v)\<lparr>vmfd := ans_ret a\<rparr>) v)))"

definition gzvm_probe_caps :: "kernel \<Rightarrow> gzvm_vm \<Rightarrow> gzvm_vm" where
  "gzvm_probe_caps K v =
     (let (_, v) = gzvm_vm_ioctl K (GZVM_CHECK_EXTENSION GZVM_CAP_ARM_VM_IPA_SIZE) v;
          (_, v) = gzvm_vm_ioctl K (GZVM_CHECK_EXTENSION GZVM_CAP_ENABLE_IDLE) v
      in v)"

definition close_vm_fds :: "gzvm_vm \<Rightarrow> gzvm_vm" where
  "close_vm_fds v =
     v\<lparr>vm_hist := vm_hist v @ [Close (vmfd (vm_state v)), Close (gz_fd (vm_state v))],
       vm_state := (vm_state v)\<lparr>vmfd := -1, gz_fd := -1\<rparr>\<rparr>"

definition gzvm_create_vgic_devices :: "kernel \<Rightarrow> gzvm_vm \<Rightarrow> int \<times> gzvm_vm" where
  "gzvm_create_vgic_devices K v =
     (let (ret, v) = gzvm_create_vgic_device K GZVM_DEV_TYPE_ARM_VGIC_V3_DIST 0x08000000 0x10000 v
      in if ret \<noteq> 0 then (-1, close_vm_fds v)
         else
           (let v = set_vm_state ((vm_state v)\<lparr>gic_dist_base := 0x08000000\<rparr>) v;
                (ret, v) = gzvm_create_vgic_device K GZVM_DEV_TYPE_ARM_VGIC_V3_REDIST 0x080A0000 0x20000 v
            in if ret \<noteq> 0 then (-1, close_vm_fds v)
               else (0, set_vm_state ((vm_state v)\<lparr>gic_redist_base := 0x080A0000\<rparr>) v)))"

definition fresh_slot_table :: "GZVMState \<Rightarrow> GZVMState" where
  "fresh_slot_table s =
     s\<lparr>nr_slots_allocated := 32, slots := map blank_slot [0..<32], sorted_ids := replicate 32 0,
       slots_lock := MutexUnlocked, nr_active_slots := 0, transaction_add := [], transaction_del := []\<rparr>"

definition gzvm_create_vm :: "kernel \<Rightarrow> AddressSpace \<Rightarrow> AddressSpace \<Rightarrow> gzvm_vm \<Rightarrow> (int \<times> gzvm_vm) option" where
  "gzvm_create_vm K mem io v =
     (if \<not> vm_accel v then Some (-1, v)
      else
        (let (ret, v) = gzvm_open_device K v
         in if ret \<noteq> 0 then Some (-1, v)
            else do {
              let v = gzvm_probe_caps K v;
              let v = set_vm_state (fresh_slot_table (vm_state v)) v;
              let v = gzvm_install_sigsegv_handler v;
              v \<leftarrow> memory_listener_register K ''gzvm'' mem v;
              v \<leftarrow> memory_listener_register K ''gzvm-ioeventfd'' mem v;
              v \<leftarrow> memory_listener_register K ''gzvm-io'' io v;
              Some (gzvm_create_vgic_devices K v)
            }))"

section \<open>The accelerator object\<close>

text \<open>
  A new object is zeroed memory, then \<open>instance_init\<close>; \<open>gzvm_init()\<close> only records the object for
  \<open>gzvm_vm_ioctl()\<close> and creates the VM.  \<open>accel_init_machine()\<close> publishes the object, and drops
  its last reference, which runs \<open>instance_finalize\<close>, where the initialisation fails.
\<close>

definition zero_state :: GZVMState where
  "zero_state = \<lparr>slots_lock = MutexUninit, slots = [], sorted_ids = [], nr_active_slots = 0,
     nr_slots_allocated = 0, gz_fd = 0, vmfd = 0, dtb_start = 0, dtb_size = 0, gic_dist_base = 0,
     gic_redist_base = 0, gic_redist_size = 0, ram_base = 0, msi_vectors = 0,
     transaction_add = [], transaction_del = []\<rparr>"

definition gzvm_accel_instance_init :: "GZVMState \<Rightarrow> GZVMState" where
  "gzvm_accel_instance_init s = s\<lparr>gz_fd := -1, vmfd := -1, slots := [], sorted_ids := []\<rparr>"

definition gzvm_accel_instance_finalize :: "kernel \<Rightarrow> AddressSpace \<Rightarrow> AddressSpace \<Rightarrow> gzvm_vm \<Rightarrow> gzvm_vm option" where
  "gzvm_accel_instance_finalize K mem io v =
     do {
       let v = (if gz_fd (vm_state v) \<ge> 0 then v\<lparr>vm_hist := vm_hist v @ [Close (gz_fd (vm_state v))]\<rparr> else v);
       let v = (if vmfd (vm_state v) \<ge> 0 then v\<lparr>vm_hist := vm_hist v @ [Close (vmfd (vm_state v))]\<rparr> else v);
       v \<leftarrow> gzvm_cleanup_mem_state K mem io v;
       s \<leftarrow> slots_lock_destroy (vm_state v);
       Some (set_vm_state (s\<lparr>slots := [], sorted_ids := []\<rparr>) v)
     }"

definition accel_init_machine :: "kernel \<Rightarrow> AddressSpace \<Rightarrow> AddressSpace \<Rightarrow> gzvm_vm \<Rightarrow> (int \<times> gzvm_vm) option" where
  "accel_init_machine K mem io v =
     do {
       (ret, v) \<leftarrow> gzvm_create_vm K mem io (v\<lparr>vm_accel := True\<rparr>);
       if ret < 0 then do {
         v \<leftarrow> gzvm_accel_instance_finalize K mem io (v\<lparr>vm_accel := False\<rparr>);
         Some (ret, v)
       }
       else Some (ret, v)
     }"


section \<open>The slot table under insertion and removal\<close>

lemma slots_wfD:
  assumes "slots_wf s"
  shows "slots_shape s" "length (slots s) = nr_slots_allocated s"
    "i < nr_slots_allocated s \<Longrightarrow> slot_id (slots s ! i) = i"
    "i \<in> set (active_ids s) \<Longrightarrow> i < nr_slots_allocated s"
    "i \<in> set (active_ids s) \<Longrightarrow> slot_size (slots s ! i) \<noteq> 0"
  using assms by (auto simp: slots_wf_def slots_shape_def)

lemma slots_wf_insert:
  assumes wf: "slots_wf s" and i: "i < nr_slots_allocated s" "slot_size (slots s ! i) = 0"
    and x: "slot_id x = i" "slot_size x \<noteq> 0" "slot_fits x"
  obtains t where "gzvm_update_sorted_ids (s\<lparr>slots := (slots s)[i := x]\<rparr>) i True = Some t"
    and "slots_wf t" "active_slots t = insert x (active_slots s)"
    and "t = s\<lparr>slots := (slots s)[i := x], sorted_ids := sorted_ids t, nr_active_slots := Suc (nr_active_slots s)\<rparr>"
proof -
  let ?s = "s\<lparr>slots := (slots s)[i := x]\<rparr>"
  note D = slots_wfD [OF wf]
  have out: "i \<notin> set (active_ids s)" using wf i slots_wf_active_iff by blast
  have ids: "active_ids ?s = active_ids s" by (simp add: active_ids_def)
  have shape: "slots_shape ?s" using D(1) out x(1) by (rule slots_shape_slot_update)
  obtain ids k where u:
    "gzvm_update_sorted_ids ?s i True =
       Some (?s\<lparr>sorted_ids := ids, nr_active_slots := Suc (nr_active_slots ?s)\<rparr>)"
    "slots_shape (?s\<lparr>sorted_ids := ids, nr_active_slots := Suc (nr_active_slots ?s)\<rparr>)"
    "take (Suc (nr_active_slots ?s)) ids = take k (active_ids ?s) @ i # drop k (active_ids ?s)"
    by (rule gzvm_update_sorted_ids_add [OF shape, of i])
      (use i out slots_wf_room [OF wf i] in \<open>auto simp: ids\<close>)
  define t where "t = s\<lparr>slots := (slots s)[i := x], sorted_ids := ids, nr_active_slots := Suc (nr_active_slots s)\<rparr>"
  have tids: "active_ids t = take k (active_ids s) @ i # drop k (active_ids s)"
    using u(3) by (simp add: t_def active_ids_def)
  have "set (active_ids s) = set (take k (active_ids s)) \<union> set (drop k (active_ids s))"
    by (metis append_take_drop_id set_append)
  then have tset: "set (active_ids t) = insert i (set (active_ids s))"
    by (simp add: tids)
  have ti: "slots t ! i = x" using i D(2) by (simp add: t_def)
  have tj: "slots t ! j = slots s ! j" if "j \<noteq> i" for j using that by (simp add: t_def)
  have n: "nr_slots_allocated t = nr_slots_allocated s" by (simp add: t_def)
  have wft: "slots_wf t"
    unfolding slots_wf_def
  proof (intro conjI allI ballI impI)
    show "slots_shape t" using u(2) by (simp add: t_def)
    fix j assume "j < nr_slots_allocated t"
    then show "j \<in> set (active_ids t) \<longleftrightarrow> slot_size (slots t ! j) \<noteq> 0"
      using slots_wf_active_iff [OF wf, of j] ti tj x(2) n by (cases "j = i") (auto simp: tset)
  next
    fix j assume "j \<in> set (active_ids t)"
    then show "slot_fits (slots t ! j)"
      using wf ti tj x(3) by (cases "j = i") (auto simp: tset slots_wf_def)
  qed
  moreover have "active_slots t = insert x (active_slots s)"
    unfolding active_slots_ids [OF wft] active_slots_ids [OF wf] tset
    using ti tj out by (auto simp: image_iff) (metis tj)+
  ultimately show thesis using u(1) that [of t] by (simp add: t_def)
qed

lemma slots_wf_delete:
  assumes wf: "slots_wf s" and i: "i \<in> set (active_ids s)"
  obtains t where "gzvm_update_sorted_ids s i False = Some t"
    and "t = s\<lparr>sorted_ids := sorted_ids t, nr_active_slots := nr_active_slots s - 1\<rparr>"
    and "slots_wf (t\<lparr>slots := (slots s)[i := blank_slot i]\<rparr>)"
    and "active_slots (t\<lparr>slots := (slots s)[i := blank_slot i]\<rparr>) = active_slots s - {slots s ! i}"
proof -
  note D = slots_wfD [OF wf]
  obtain ids where u:
    "gzvm_update_sorted_ids s i False = Some (s\<lparr>sorted_ids := ids, nr_active_slots := nr_active_slots s - 1\<rparr>)"
    "slots_shape (s\<lparr>sorted_ids := ids, nr_active_slots := nr_active_slots s - 1\<rparr>)"
    "set (take (nr_active_slots s - 1) ids) = set (active_ids s) - {i}"
    by (rule gzvm_update_sorted_ids_remove [OF D(1) i])
  define t where "t = s\<lparr>sorted_ids := ids, nr_active_slots := nr_active_slots s - 1\<rparr>"
  define w where "w = t\<lparr>slots := (slots s)[i := blank_slot i]\<rparr>"
  have tset: "set (active_ids t) = set (active_ids s) - {i}"
    unfolding t_def active_ids_def [of "_\<lparr>sorted_ids := _, nr_active_slots := _\<rparr>"] using u(3) by simp
  have wset: "set (active_ids w) = set (active_ids s) - {i}"
    using tset by (simp add: w_def active_ids_def)
  have il: "i < nr_slots_allocated s" using D(4) i by blast
  have wi: "slots w ! i = blank_slot i" using il D(2) by (simp add: w_def)
  have wj: "slots w ! j = slots s ! j" if "j \<noteq> i" for j using that by (simp add: w_def)
  have n: "nr_slots_allocated w = nr_slots_allocated s" by (simp add: w_def t_def)
  have "slots_shape (t\<lparr>slots := (slots t)[i := blank_slot i]\<rparr>)"
    by (rule slots_shape_slot_update) (use u(2) tset in \<open>simp_all add: t_def blank_slot_def\<close>)
  then have shape: "slots_shape w" by (simp add: w_def t_def)
  have wfw: "slots_wf w"
    unfolding slots_wf_def
  proof (intro conjI allI ballI impI)
    show "slots_shape w" by (rule shape)
    fix j assume "j < nr_slots_allocated w"
    then show "j \<in> set (active_ids w) \<longleftrightarrow> slot_size (slots w ! j) \<noteq> 0"
      using slots_wf_active_iff [OF wf, of j] wi wj n
      by (cases "j = i") (auto simp: wset blank_slot_def)
  next
    fix j assume "j \<in> set (active_ids w)"
    then show "slot_fits (slots w ! j)"
      using wf wj [of j] by (auto simp: wset slots_wf_def)
  qed
  have inj: "j = i" if "j \<in> set (active_ids s)" "slots s ! j = slots s ! i" for j
    using D(3) [of j] D(3) [of i] D(4) that i by metis
  have "active_slots w = active_slots s - {slots s ! i}"
    unfolding active_slots_ids [OF wfw] active_slots_ids [OF wf] wset
    using wj inj i by (auto simp: image_iff)
  with wfw u(1) that [of t] show thesis by (simp add: w_def t_def)
qed

lemma find_matching_from_correct:
  assumes "slots_shape s"
  shows "i \<le> nr_active_slots s \<Longrightarrow> find_matching_from s st sz m i =
    Some (find (\<lambda>k. slot_start (slots s ! k) = st \<and> slot_size (slots s ! k) = sz \<and> slot_mem (slots s ! k) = m)
            (drop i (active_ids s)))"
proof (induction "nr_active_slots s - i" arbitrary: i)
  case 0
  then show ?case using length_active_ids [OF assms] by (simp add: find_matching_from.simps [of s st sz m i])
next
  case (Suc n)
  then have i: "i < nr_active_slots s" by simp
  have "drop i (active_ids s) = active_ids s ! i # drop (Suc i) (active_ids s)"
    using i length_active_ids [OF assms] by (simp add: Cons_nth_drop_Suc)
  with Suc.hyps(1) [of "Suc i"] Suc.hyps(2) slots_shape_reads [OF assms i] i show ?case
    by (simp add: find_matching_from.simps [of s st sz m i])
qed

lemma find_matching_locked:
  assumes "slots_wf s" "slots_locked s"
  shows "gzvm_find_matching_slot_locked s st sz m =
    Some (find (\<lambda>k. slot_start (slots s ! k) = st \<and> slot_size (slots s ! k) = sz \<and> slot_mem (slots s ! k) = m)
            (active_ids s))"
  using find_matching_from_correct [of s 0 st sz m] assms
  by (simp add: gzvm_find_matching_slot_locked_def gzvm_assert_mutex_locked_def slots_wf_def)

end
