(* ===== verification/Gzvm_Memory_Spec.thy ===== *)
theory Gzvm_Memory_Spec
  imports Gzvm_Memory
begin

text \<open>
  What the memory listener promises.  Two views of the guest's memory are compared with the slot
  table: \<open>kernel_view\<close>, the slots the kernel holds according to the requests it accepted, and
  \<open>mem_spec\<close>, the set of regions a sequence of transactions asks for.  The table agrees with the
  first whatever the kernel refuses, and refines the second as long as it refuses nothing.
\<close>

section \<open>What the kernel was told\<close>

definition view_step :: "kernel \<Rightarrow> history \<Rightarrow> host_call \<Rightarrow> (nat \<rightharpoonup> gzvm_userspace_memory_region) \<Rightarrow>
    (nat \<rightharpoonup> gzvm_userspace_memory_region)" where
  "view_step K h c m =
     (case c of
        VmIoctl fd (GZVM_SET_USER_MEMORY_REGION g) \<Rightarrow>
          if ans_ret (K h c) = 0 then m(gumr_slot g := (if memory_size g = 0 then None else Some g)) else m
      | CreateVm fd \<Rightarrow> if 0 \<le> ans_ret (K h c) then Map.empty else m
      | _ \<Rightarrow> m)"

primrec kernel_view_rev :: "kernel \<Rightarrow> history \<Rightarrow> (nat \<rightharpoonup> gzvm_userspace_memory_region)" where
  "kernel_view_rev K [] = Map.empty"
| "kernel_view_rev K (c # r) = view_step K (rev r) c (kernel_view_rev K r)"

definition kernel_view :: "kernel \<Rightarrow> history \<Rightarrow> (nat \<rightharpoonup> gzvm_userspace_memory_region)" where
  "kernel_view K h = kernel_view_rev K (rev h)"

lemma kernel_view_snoc: "kernel_view K (h @ [c]) = view_step K h c (kernel_view K h)"
  by (simp add: kernel_view_def)

definition slot_request :: "gzvm_slot \<Rightarrow> gzvm_userspace_memory_region" where
  "slot_request x = \<lparr>gumr_slot = slot_id x, gumr_flags = slot_flags x, guest_phys_addr = slot_start x,
     memory_size = slot_size x, userspace_addr = slot_mem x\<rparr>"

definition slot_view :: "GZVMState \<Rightarrow> (nat \<rightharpoonup> gzvm_userspace_memory_region)" where
  "slot_view s i =
     (if i < nr_slots_allocated s \<and> slot_size (slots s ! i) \<noteq> 0 then Some (slot_request (slots s ! i))
      else None)"

definition kernel_agrees :: "kernel \<Rightarrow> gzvm_vm \<Rightarrow> bool" where
  "kernel_agrees K v \<longleftrightarrow> kernel_view K (vm_hist v) = slot_view (vm_state v)"

text \<open>The ranges of the signal handler are those of the table.\<close>

definition snapshot_current :: "gzvm_vm \<Rightarrow> bool" where
  "snapshot_current v \<longleftrightarrow>
     take (gzvm_signal_nr_hva_ranges v) (gzvm_signal_hva_ranges v) =
       map hva_range (take GZVM_SIGNAL_MAX_REGIONS (mapped_slots (vm_state v)))"

section \<open>The set of regions\<close>

type_synonym region = "u64 \<times> u64 \<times> u64 \<times> u32"

text \<open>Guest address, size, host address and flags; the first three identify a region.\<close>

fun region_key :: "region \<Rightarrow> u64 \<times> u64 \<times> u64" where
  "region_key (gpa, sz, hva, fl) = (gpa, sz, hva)"

definition slot_region :: "gzvm_slot \<Rightarrow> region" where
  "slot_region x = (slot_start x, slot_size x, slot_mem x, slot_flags x)"

definition mem_map :: "GZVMState \<Rightarrow> region set" where
  "mem_map s = slot_region ` active_slots s"

definition slots_keyed :: "GZVMState \<Rightarrow> bool" where
  "slots_keyed s \<longleftrightarrow> inj_on (\<lambda>x. region_key (slot_region x)) (active_slots s)"

text \<open>
  The region a section stands for, with the machine's RAM base, RAM size and page size: only RAM
  inside the RAM window and ROM at guest address 0 are registered, in whole pages.
\<close>

type_synonym mem_cfg = "u64 \<times> u64 \<times> u64"

fun section_region :: "mem_cfg \<Rightarrow> MemoryRegionSection \<Rightarrow> region option" where
  "section_region (base, ram, page) sec =
     (let mr = sec_mr sec; gpa = sec_offset_within_address_space sec; sz = ucast (sec_size sec) :: u64;
          rom = memory_region_is_rom mr \<or> memory_region_is_romd mr
      in if (memory_region_is_ram mr \<or> rom) \<and> sz \<noteq> 0 \<and> gpa \<le> -1 - sz \<and>
            sz mod page = 0 \<and> gpa mod page = 0 \<and>
            (if rom then gpa = 0 else base \<le> gpa \<and> gpa + sz \<le> base + ram)
         then Some (gpa, sz, mr_ram_ptr mr + sec_offset_within_region sec,
                    if mr_readonly mr \<or> mr_rom_device mr then GZVM_USER_MEM_REGION_PROTECT_FW
                    else GZVM_USER_MEM_REGION_GUEST_MEM)
         else None)"

definition map_del :: "region \<Rightarrow> region set \<Rightarrow> region set" where
  "map_del r M = {q \<in> M. region_key q \<noteq> region_key r}"

definition map_add_region :: "region \<Rightarrow> region set \<Rightarrow> region set" where
  "map_add_region r M =
     (if region_key r \<in> region_key ` M \<or> card M = GZVM_MAX_MEM_SLOTS then M else insert r M)"

definition map_update :: "mem_cfg \<Rightarrow> bool \<Rightarrow> MemoryRegionSection \<Rightarrow> region set \<Rightarrow> region set" where
  "map_update cfg add sec M =
     (case section_region cfg sec of
        None \<Rightarrow> M
      | Some r \<Rightarrow> if add then map_add_region r M else map_del r M)"

record mem_spec =
  ms_cfg :: mem_cfg
  ms_map :: "region set"
  ms_del :: "MemoryRegionSection list"
  ms_add :: "MemoryRegionSection list"

datatype listener_op = RegionAdd MemoryRegionSection | RegionDel MemoryRegionSection | Commit

fun spec_step :: "listener_op \<Rightarrow> mem_spec \<Rightarrow> mem_spec" where
  "spec_step (RegionAdd sec) m = m\<lparr>ms_add := ms_add m @ [sec]\<rparr>"
| "spec_step (RegionDel sec) m = m\<lparr>ms_del := ms_del m @ [sec]\<rparr>"
| "spec_step Commit m =
     m\<lparr>ms_map := fold (map_update (ms_cfg m) True) (ms_add m)
                   (fold (map_update (ms_cfg m) False) (ms_del m) (ms_map m)),
       ms_del := [], ms_add := []\<rparr>"

fun listener_step :: "kernel \<Rightarrow> listener_op \<Rightarrow> gzvm_vm \<Rightarrow> gzvm_vm option" where
  "listener_step K (RegionAdd sec) v = Some (gzvm_region_add sec v)"
| "listener_step K (RegionDel sec) v = Some (gzvm_region_del sec v)"
| "listener_step K Commit v = gzvm_region_commit K v"

definition vm_cfg :: "gzvm_vm \<Rightarrow> mem_cfg" where
  "vm_cfg v = (ram_base (vm_state v), machine_ram_size v, host_page_size v)"

definition mem_abs :: "gzvm_vm \<Rightarrow> mem_spec" where
  "mem_abs v = \<lparr>ms_cfg = vm_cfg v, ms_map = mem_map (vm_state v),
     ms_del = transaction_del (vm_state v), ms_add = transaction_add (vm_state v)\<rparr>"

text \<open>Sections whose size fits 64 bits; \<open>int128_get64()\<close> asserts it of every section.\<close>

definition section_fits :: "MemoryRegionSection \<Rightarrow> bool" where
  "section_fits sec \<longleftrightarrow> int128_get64 (sec_size sec) \<noteq> None"

fun op_fits :: "listener_op \<Rightarrow> bool" where
  "op_fits (RegionAdd sec) = section_fits sec"
| "op_fits (RegionDel sec) = section_fits sec"
| "op_fits Commit = True"

text \<open>A kernel that refuses no memory region.\<close>

definition accepts_memory :: "kernel \<Rightarrow> bool" where
  "accepts_memory K \<longleftrightarrow> (\<forall>h fd g. ans_ret (K h (VmIoctl fd (GZVM_SET_USER_MEMORY_REGION g))) = 0)"

section \<open>Invariants\<close>

definition mem_inv :: "kernel \<Rightarrow> gzvm_vm \<Rightarrow> bool" where
  "mem_inv K v \<longleftrightarrow> slots_wf (vm_state v) \<and> slots_keyed (vm_state v) \<and> snapshot_ok v \<and>
     snapshot_current v \<and> kernel_agrees K v"

definition mem_ready :: "kernel \<Rightarrow> gzvm_vm \<Rightarrow> bool" where
  "mem_ready K v \<longleftrightarrow> mem_inv K v \<and> vm_accel v \<and> slots_lock (vm_state v) = MutexUnlocked \<and>
     list_all section_fits (transaction_add (vm_state v)) \<and>
     list_all section_fits (transaction_del (vm_state v))"

text \<open>What no registration changes: everything but the table, the snapshot and the history.\<close>

definition core :: "gzvm_vm \<Rightarrow> gzvm_vm" where
  "core v = v\<lparr>vm_state := (vm_state v)\<lparr>slots := [], sorted_ids := [], nr_active_slots := 0,
       nr_slots_allocated := 0\<rparr>,
     gzvm_signal_hva_ranges := [], gzvm_signal_nr_hva_ranges := 0, vm_hist := []\<rparr>"

lemma coreD:
  assumes "core w = core v"
  shows "slots_lock (vm_state w) = slots_lock (vm_state v)" "vm_accel w = vm_accel v"
    "transaction_add (vm_state w) = transaction_add (vm_state v)"
    "transaction_del (vm_state w) = transaction_del (vm_state v)"
    "ram_base (vm_state w) = ram_base (vm_state v)" "machine_ram_size w = machine_ram_size v"
    "host_page_size w = host_page_size v" "vmfd (vm_state w) = vmfd (vm_state v)"
    "vm_cfg w = vm_cfg v" "gz_fd (vm_state w) = gz_fd (vm_state v)"
    "vm_listeners w = vm_listeners v" "gzvm_signal_page_size w = gzvm_signal_page_size v"
  using arg_cong [OF assms, of "\<lambda>v. slots_lock (vm_state v)"] arg_cong [OF assms, of vm_accel]
    arg_cong [OF assms, of "\<lambda>v. transaction_add (vm_state v)"]
    arg_cong [OF assms, of "\<lambda>v. transaction_del (vm_state v)"]
    arg_cong [OF assms, of "\<lambda>v. ram_base (vm_state v)"] arg_cong [OF assms, of machine_ram_size]
    arg_cong [OF assms, of host_page_size] arg_cong [OF assms, of "\<lambda>v. vmfd (vm_state v)"]
    arg_cong [OF assms, of "\<lambda>v. gz_fd (vm_state v)"] arg_cong [OF assms, of vm_listeners]
    arg_cong [OF assms, of gzvm_signal_page_size]
  by (simp_all add: core_def vm_cfg_def)

lemma slot_view_update:
  assumes "i < nr_slots_allocated s" "length (slots s) = nr_slots_allocated s"
    and "slots t = (slots s)[i := x]" "nr_slots_allocated t = nr_slots_allocated s"
  shows "slot_view t = (slot_view s)(i := (if slot_size x = 0 then None else Some (slot_request x)))"
  using assms by (auto simp: slot_view_def fun_eq_iff nth_list_update)

lemma free_slot_keeps:
  assumes wf: "slots_wf s" and get: "gzvm_get_free_slot s = (r, t)"
  shows "slot_view t = slot_view s" "mapped_slots t = mapped_slots s"
proof -
  have len: "length (slots s) = nr_slots_allocated s" using slots_wfD [OF wf] by simp
  have old: "slots t ! i = slots s ! i" if "i < nr_slots_allocated s" for i
    using get that len by (auto simp: gzvm_get_free_slot_def Let_def nth_append split: option.splits if_splits)
  have n: "nr_slots_allocated s \<le> nr_slots_allocated t"
    using get by (auto simp: gzvm_get_free_slot_def Let_def split: option.splits if_splits)
  have new: "slot_size (slots t ! i) = 0" if "nr_slots_allocated s \<le> i" "i < nr_slots_allocated t" for i
    using get that len
    by (auto simp: gzvm_get_free_slot_def Let_def nth_append blank_slot_def split: option.splits if_splits)
  show "slot_view t = slot_view s"
  proof
    fix i
    consider "i < nr_slots_allocated s" | "nr_slots_allocated s \<le> i" "i < nr_slots_allocated t"
      | "nr_slots_allocated t \<le> i" by linarith
    then show "slot_view t i = slot_view s i"
      using n by cases (simp_all add: slot_view_def old new)
  qed
  have ids: "active_ids t = active_ids s"
    using get slots_wfD(1) [OF wf]
    by (auto simp: gzvm_get_free_slot_def Let_def active_ids_def slots_shape_def split: option.splits if_splits)
  have "map (\<lambda>i. slots t ! i) (active_ids s) = map (\<lambda>i. slots s ! i) (active_ids s)"
    using old slots_wfD(4) [OF wf] by simp
  then show "mapped_slots t = mapped_slots s" unfolding mapped_slots_def ids by (simp only:)
qed

lemma set_region_view:
  assumes "slots_locked (vm_state v)"
  obtains ret w where
    "gzvm_set_memory_region_locked K slot fl gpa sz hva v = Some (ret, w)"
    "w = v\<lparr>vm_hist := vm_hist w\<rparr>"
    "kernel_view K (vm_hist w) =
       (if ret = 0 then (kernel_view K (vm_hist v))(slot := (if sz = 0 then None else
          Some \<lparr>gumr_slot = slot, gumr_flags = fl, guest_phys_addr = gpa, memory_size = sz, userspace_addr = hva\<rparr>))
        else kernel_view K (vm_hist v))"
    "accepts_memory K \<longrightarrow> ret = 0"
proof -
  define g where "g = \<lparr>gumr_slot = slot, gumr_flags = fl, guest_phys_addr = gpa, memory_size = sz, userspace_addr = hva\<rparr>"
  define c where "c = VmIoctl (vmfd (vm_state v)) (GZVM_SET_USER_MEMORY_REGION g)"
  show thesis
  proof (rule that)
    show "gzvm_set_memory_region_locked K slot fl gpa sz hva v =
        Some (ans_ret (K (vm_hist v) c), v\<lparr>vm_hist := vm_hist v @ [c]\<rparr>)"
      using assms by (simp add: gzvm_set_memory_region_locked_def gzvm_assert_mutex_locked_def
          gzvm_vm_ioctl_def hcall_def c_def g_def)
  qed (simp_all add: kernel_view_snoc view_step_def c_def g_def accepts_memory_def)
qed

lemma signal_update:
  assumes "slots_shape (vm_state v)" "snapshot_ok v"
  obtains w where "gzvm_signal_update_regions v = Some w" "snapshot_ok w" "snapshot_current w"
    "w = v\<lparr>gzvm_signal_hva_ranges := gzvm_signal_hva_ranges w,
           gzvm_signal_nr_hva_ranges := gzvm_signal_nr_hva_ranges w\<rparr>"
proof -
  obtain w where w: "gzvm_signal_update_regions v = Some w"
    "w = v\<lparr>gzvm_signal_hva_ranges := gzvm_signal_hva_ranges w,
           gzvm_signal_nr_hva_ranges := gzvm_signal_nr_hva_ranges w\<rparr>"
    "length (gzvm_signal_hva_ranges w) = GZVM_SIGNAL_MAX_REGIONS"
    "gzvm_signal_nr_hva_ranges w \<le> GZVM_SIGNAL_MAX_REGIONS"
    "take (gzvm_signal_nr_hva_ranges w) (gzvm_signal_hva_ranges w) =
       map hva_range (take GZVM_SIGNAL_MAX_REGIONS (mapped_slots (vm_state v)))"
    by (rule gzvm_signal_update_regions_correct [OF assms(1)]) (use assms(2) in \<open>simp add: snapshot_ok_def\<close>)
  have "vm_state w = vm_state v" using arg_cong [OF w(2), of vm_state] by simp
  with w that show thesis by (simp add: snapshot_ok_def snapshot_current_def)
qed

lemma card_mem_map:
  assumes "slots_wf s" "slots_keyed s"
  shows "card (mem_map s) = nr_active_slots s" "finite (mem_map s)"
proof -
  note D = slots_wfD [OF assms(1)]
  have "inj_on slot_region (active_slots s)"
    using assms(2) by (auto simp: slots_keyed_def inj_on_def)
  then have "card (mem_map s) = card (active_slots s)" by (simp add: mem_map_def card_image)
  also have "\<dots> = card (set (active_ids s))"
    unfolding active_slots_ids [OF assms(1)]
    by (rule card_image) (metis D(3,4) inj_onI)
  also have "\<dots> = nr_active_slots s"
    using D(1) length_active_ids [OF D(1)] by (simp add: distinct_card slots_shape_def)
  finally show "card (mem_map s) = nr_active_slots s" .
  show "finite (mem_map s)" by (simp add: mem_map_def active_slots_ids [OF assms(1)])
qed


section \<open>One registration\<close>

lemma remove_slot:
  assumes inv: "mem_inv K v" and locked: "slots_locked (vm_state v)" and i: "i \<in> set (active_ids (vm_state v))"
  obtains ret w where "gzvm_remove_mem_slot_locked K i v = Some (ret, w)" "mem_inv K w" "core w = core v"
    "active_slots (vm_state w) =
       (if ret = 0 then active_slots (vm_state v) - {slots (vm_state v) ! i} else active_slots (vm_state v))"
    "accepts_memory K \<longrightarrow> ret = 0"
proof -
  define s where "s = vm_state v"
  have wf: "slots_wf s" and agrees: "kernel_view K (vm_hist v) = slot_view s"
    and keyed: "slots_keyed s" and snap: "snapshot_ok v"
    using inv by (simp_all add: mem_inv_def kernel_agrees_def s_def)
  note D = slots_wfD [OF wf]
  have il: "i < nr_slots_allocated s" using D(4) i by (simp add: s_def)
  have rd: "aget (slots s) (int i) = Some (slots s ! i)" using il D(2) by (simp add: aget_nat)
  have id: "slot_id (slots s ! i) = i" using D(3) il by simp
  obtain ret u where u: "gzvm_set_memory_region_locked K i 0 0 0 0 v = Some (ret, u)"
    "u = v\<lparr>vm_hist := vm_hist u\<rparr>"
    "kernel_view K (vm_hist u) = (if ret = 0 then (slot_view s)(i := None) else slot_view s)"
    "accepts_memory K \<longrightarrow> ret = 0"
    by (rule set_region_view [OF locked, of K i 0 0 0 0]) (simp add: agrees)
  have us: "vm_state u = s" using arg_cong [OF u(2), of vm_state] by (simp add: s_def)
  have cu: "core u = core v" by (subst u(2)) (simp add: core_def)
  show thesis
  proof (cases "ret = 0")
    case False
    have "snapshot_ok u" "snapshot_current u"
      using inv by (subst u(2); simp add: mem_inv_def snapshot_ok_def snapshot_current_def)+
    with False u us wf keyed have "mem_inv K u" by (simp add: mem_inv_def kernel_agrees_def)
    with False u us cu rd id locked show thesis
      by (intro that [of ret u]) (auto simp: gzvm_remove_mem_slot_locked_def gzvm_assert_mutex_locked_def s_def)
  next
    case True
    obtain t where t: "gzvm_update_sorted_ids s i False = Some t"
      "t = s\<lparr>sorted_ids := sorted_ids t, nr_active_slots := nr_active_slots s - 1\<rparr>"
      "slots_wf (t\<lparr>slots := (slots s)[i := blank_slot i]\<rparr>)"
      "active_slots (t\<lparr>slots := (slots s)[i := blank_slot i]\<rparr>) = active_slots s - {slots s ! i}"
      using slots_wf_delete [OF wf, of i] i by (auto simp: s_def)
    define x where "x = t\<lparr>slots := (slots s)[i := blank_slot i]\<rparr>"
    have ts: "slots t = slots s" using arg_cong [OF t(2), of slots] by simp
    have blank: "(slots s ! i)\<lparr>slot_size := 0, slot_mem := 0, slot_start := 0, slot_flags := 0\<rparr> = blank_slot i"
      using id by (cases "slots s ! i") (simp add: blank_slot_def)
    have "snapshot_ok (set_vm_state x u)" using snap by (subst u(2)) (simp add: snapshot_ok_def)
    then obtain w where w: "gzvm_signal_update_regions (set_vm_state x u) = Some w"
      "snapshot_ok w" "snapshot_current w"
      "w = (set_vm_state x u)\<lparr>gzvm_signal_hva_ranges := gzvm_signal_hva_ranges w,
           gzvm_signal_nr_hva_ranges := gzvm_signal_nr_hva_ranges w\<rparr>"
      using signal_update [of "set_vm_state x u"] t(3) by (auto simp: x_def slots_wf_def)
    have ws: "vm_state w = x" and wh: "vm_hist w = vm_hist u"
      using arg_cong [OF w(4), of vm_state] arg_cong [OF w(4), of vm_hist] by simp_all
    have vx: "slot_view x = (slot_view s)(i := None)"
      using slot_view_update [OF il D(2), of x "blank_slot i"] arg_cong [OF t(2), of nr_slots_allocated]
      by (simp add: x_def blank_slot_def)
    have "slots_keyed x" using keyed t(4) by (auto simp: x_def slots_keyed_def intro: inj_on_subset)
    then have "mem_inv K w"
      using w(2,3) t(3) ws wh u(3) vx True by (simp add: mem_inv_def kernel_agrees_def x_def)
    moreover have "core x' = core v" if "x' = w" for x'
      unfolding that by (subst w(4), subst u(2)) (simp add: core_def x_def, subst t(2), simp add: s_def)
    ultimately show thesis
      using u(1,4) us rd id locked t(1,4) w(1) ws ts blank True
      by (intro that [of 0 w])
        (auto simp: gzvm_remove_mem_slot_locked_def gzvm_mem_slot_deactivate_locked_def
          gzvm_assert_mutex_locked_def s_def x_def)
  qed
qed


lemma add_slot:
  assumes inv: "mem_inv K v" and locked: "slots_locked (vm_state v)"
    and sz: "sz \<noteq> 0" "unat gpa + unat sz < 2 ^ 64"
    and fresh: "(gpa, sz, hva) \<notin> region_key ` mem_map (vm_state v)"
  obtains ret w where "gzvm_add_mem_slot K hva gpa sz fl v = Some (ret, w)" "mem_inv K w" "core w = core v"
    "mem_map (vm_state w) =
       (if ret = 0 then insert (gpa, sz, hva, fl) (mem_map (vm_state v)) else mem_map (vm_state v))"
    "nr_active_slots (vm_state v) = GZVM_MAX_MEM_SLOTS \<longrightarrow> ret = - ENOSPC"
    "accepts_memory K \<longrightarrow> nr_active_slots (vm_state v) \<noteq> GZVM_MAX_MEM_SLOTS \<longrightarrow> ret = 0"
proof -
  define s where "s = vm_state v"
  have wf: "slots_wf s" and agrees: "kernel_view K (vm_hist v) = slot_view s"
    and keyed: "slots_keyed s" and snap: "snapshot_ok v" "snapshot_current v"
    using inv by (simp_all add: mem_inv_def kernel_agrees_def s_def)
  obtain r t where get: "gzvm_get_free_slot s = (r, t)" by (cases "gzvm_get_free_slot s")
  show thesis
  proof (cases r)
    case None
    then have "t = s" using get by (auto simp: gzvm_get_free_slot_def Let_def split: option.splits if_splits)
    with None get have "gzvm_add_mem_slot K hva gpa sz fl v = Some (- ENOSPC, v)"
      by (simp add: gzvm_add_mem_slot_def s_def)
    with gzvm_get_free_slot_None_iff [OF wf] None get inv show thesis
      by (intro that [of "- ENOSPC" v]) (simp_all add: s_def ENOSPC_def)
  next
    case (Some i)
    note G = gzvm_get_free_slot_correct [OF wf get [unfolded Some]]
    note D = slots_wfD [OF G(1)]
    have room: "nr_active_slots s \<noteq> GZVM_MAX_MEM_SLOTS"
      using gzvm_get_free_slot_None_iff [OF wf] Some get by simp
    have view: "slot_view t = slot_view s" and mapped: "mapped_slots t = mapped_slots s"
      using free_slot_keeps [OF wf get] .
    have rd: "aget (slots t) (int i) = Some (slots t ! i)" using G(2) D(2) by (simp add: aget_nat)
    have id: "slot_id (slots t ! i) = i" using D(3) G(2) by simp
    have tl: "slots_locked (vm_state (set_vm_state t v))"
      using arg_cong [OF G(6), of slots_lock] locked by (simp add: s_def)
    have ct: "core (set_vm_state t v) = core v"
      by (subst G(6)) (simp add: core_def s_def)
    obtain ret u where u: "gzvm_set_memory_region_locked K i fl gpa sz hva (set_vm_state t v) = Some (ret, u)"
      "u = (set_vm_state t v)\<lparr>vm_hist := vm_hist u\<rparr>"
      "kernel_view K (vm_hist u) =
         (if ret = 0 then (slot_view s)(i := Some \<lparr>gumr_slot = i, gumr_flags = fl, guest_phys_addr = gpa,
            memory_size = sz, userspace_addr = hva\<rparr>) else slot_view s)"
      "accepts_memory K \<longrightarrow> ret = 0"
      by (rule set_region_view [OF tl, of K i fl gpa sz hva]) (simp add: agrees sz)
    have us: "vm_state u = t" using arg_cong [OF u(2), of vm_state] by simp
    have cu: "core u = core v" using ct by (subst u(2)) (simp add: core_def)
    have snapu: "snapshot_ok u" by (subst u(2)) (use snap in \<open>simp add: snapshot_ok_def\<close>)
    show thesis
    proof (cases "ret = 0")
      case False
      have "snapshot_current u"
        by (subst u(2)) (use snap mapped in \<open>simp add: snapshot_current_def s_def\<close>)
      moreover have "slots_keyed t" using keyed by (simp add: slots_keyed_def G(5))
      ultimately have "mem_inv K u"
        using False u(3) us G(1) view snapu by (simp add: mem_inv_def kernel_agrees_def)
      with False u us cu rd id get Some room show thesis
        by (intro that [of ret u]) (auto simp: gzvm_add_mem_slot_def mem_map_def G(5) s_def)
    next
      case True
      define x where "x = (slots t ! i)\<lparr>slot_size := sz, slot_mem := hva, slot_start := gpa, slot_flags := fl\<rparr>"
      have x: "slot_id x = i" "slot_size x \<noteq> 0" "slot_fits x" "slot_region x = (gpa, sz, hva, fl)"
        using sz id by (simp_all add: x_def slot_fits_def slot_region_def)
      obtain y where y: "gzvm_update_sorted_ids (t\<lparr>slots := (slots t)[i := x]\<rparr>) i True = Some y"
        "slots_wf y" "active_slots y = insert x (active_slots t)"
        "y = t\<lparr>slots := (slots t)[i := x], sorted_ids := sorted_ids y, nr_active_slots := Suc (nr_active_slots t)\<rparr>"
        by (rule slots_wf_insert [OF G(1-3) x(1-3)])
      have "snapshot_ok (set_vm_state y u)" using snapu by (simp add: snapshot_ok_def)
      then obtain w where w: "gzvm_signal_update_regions (set_vm_state y u) = Some w"
        "snapshot_ok w" "snapshot_current w"
        "w = (set_vm_state y u)\<lparr>gzvm_signal_hva_ranges := gzvm_signal_hva_ranges w,
             gzvm_signal_nr_hva_ranges := gzvm_signal_nr_hva_ranges w\<rparr>"
        using signal_update [of "set_vm_state y u"] y(2) by (auto simp: slots_wf_def)
      have ws: "vm_state w = y" and wh: "vm_hist w = vm_hist u"
        using arg_cong [OF w(4), of vm_state] arg_cong [OF w(4), of vm_hist] by simp_all
      have vy: "slot_view y = (slot_view s)(i := Some (slot_request x))"
        using slot_view_update [OF G(2) D(2), of y x] arg_cong [OF y(4), of slots]
          arg_cong [OF y(4), of nr_slots_allocated] x(2) view by simp
      have req: "slot_request x = \<lparr>gumr_slot = i, gumr_flags = fl, guest_phys_addr = gpa,
            memory_size = sz, userspace_addr = hva\<rparr>"
        using id by (simp add: slot_request_def x_def)
      have map: "mem_map y = insert (gpa, sz, hva, fl) (mem_map s)"
        using x(4) by (simp add: mem_map_def y(3) G(5))
      have "slots_keyed y"
        using keyed fresh x(4) unfolding slots_keyed_def y(3) G(5)
        by (auto simp: mem_map_def s_def image_image)
      then have "mem_inv K w"
        using w(2,3) y(2) ws wh u(3) vy req True by (simp add: mem_inv_def kernel_agrees_def)
      moreover have "core w = core v"
      proof -
        have "core w = core (set_vm_state y u)" by (subst w(4)) (simp add: core_def)
        also have "\<dots> = core u" by (subst y(4)) (simp add: core_def us)
        finally show ?thesis using cu by simp
      qed
      ultimately show thesis
        using u(1) us rd id get Some room y(1) w(1) ws map True
        by (intro that [of 0 w]) (auto simp: gzvm_add_mem_slot_def s_def x_def)
    qed
  qed
qed


lemma section_region_bounds:
  assumes "section_region cfg sec = Some (gpa, sz, hva, fl)"
  shows "sz \<noteq> 0" "unat gpa + unat sz < 2 ^ 64"
proof -
  obtain base ram page where cfg: "cfg = (base, ram, page)" by (metis prod.exhaust)
  from assms have *: "sz \<noteq> 0 \<and> gpa \<le> -1 - sz" by (auto simp: cfg Let_def split: if_splits)
  then show "sz \<noteq> 0" by simp
  have "unat (-1 - sz) = 2 ^ 64 - 1 - unat sz"
    by (simp add: unat_sub unsigned_minus_1_eq_mask mask_eq_exp_minus_1)
  moreover have lt: "unat sz < 2 ^ 64" by (rule order_less_le_trans [OF unsigned_less]) simp
  moreover have "unat gpa \<le> unat (-1 - sz)" using * by (simp add: word_le_nat_alt)
  ultimately show "unat gpa + unat sz < 2 ^ 64" using lt by simp
qed

text \<open>The guards of \<open>gzvm_set_phys_mem_locked()\<close>, in one place.\<close>

lemma set_phys_mem_cases:
  assumes "section_fits sec"
  shows "gzvm_set_phys_mem_locked K sec add v =
    (case section_region (vm_cfg v) sec of
       None \<Rightarrow> Some v
     | Some (gpa, sz, hva, fl) \<Rightarrow>
         do {
           slot \<leftarrow> gzvm_find_matching_slot_locked (vm_state v) gpa sz hva;
           case slot of
             Some k \<Rightarrow> if add then Some v else gzvm_remove_mem_slot_locked K k v \<bind> (\<lambda>(_, v). Some v)
           | None \<Rightarrow> if add then gzvm_add_mem_slot K hva gpa sz fl v \<bind> (\<lambda>(_, v). Some v) else Some v
         })"
proof -
  have sz: "int128_get64 (sec_size sec) = Some (ucast (sec_size sec))"
    using assms by (auto simp: section_fits_def int128_get64_def Let_def split: if_splits)
  have bool_bind: "(case b of None \<Rightarrow> if add then x else y | Some k \<Rightarrow> if add then z else f k) =
      (if add then (case b of None \<Rightarrow> x | Some k \<Rightarrow> z) else (case b of None \<Rightarrow> y | Some k \<Rightarrow> f k))"
    for b :: "nat option" and x y z :: "gzvm_vm option" and f
    by (cases b) simp_all
  let ?gpa = "sec_offset_within_address_space sec" and ?sz = "ucast (sec_size sec) :: u64"
  let ?base = "ram_base (vm_state v)"
  show ?thesis
    by (cases "?gpa \<le> -1 - ?sz"; cases "?base \<le> ?gpa"; cases "?gpa + ?sz \<le> ?base + machine_ram_size v";
        cases "memory_region_is_rom (sec_mr sec)"; cases "memory_region_is_romd (sec_mr sec)")
      (simp_all add: gzvm_set_phys_mem_locked_def sz Let_def vm_cfg_def gzvm_add_mem_def UINT64_MAX_def
        QEMU_IS_ALIGNED_def bool_bind not_le [symmetric] del: linorder_not_le not_le)
qed


lemma find_matching_slot:
  assumes "slots_wf s" "slots_locked s"
  obtains (found) k where "gzvm_find_matching_slot_locked s gpa sz hva = Some (Some k)" "k \<in> set (active_ids s)"
      "region_key (slot_region (slots s ! k)) = (gpa, sz, hva)"
    | (absent) "gzvm_find_matching_slot_locked s gpa sz hva = Some None"
      "(gpa, sz, hva) \<notin> region_key ` mem_map s"
proof (cases "find (\<lambda>k. slot_start (slots s ! k) = gpa \<and> slot_size (slots s ! k) = sz \<and> slot_mem (slots s ! k) = hva)
            (active_ids s)")
  case None
  then have "\<not> (\<exists>k \<in> set (active_ids s). slot_start (slots s ! k) = gpa \<and> slot_size (slots s ! k) = sz \<and>
      slot_mem (slots s ! k) = hva)"
    by (auto simp: find_None_iff)
  then have "(gpa, sz, hva) \<notin> region_key ` mem_map s"
    unfolding mem_map_def active_slots_ids [OF assms(1)] by (auto simp: slot_region_def)
  with None show thesis using absent find_matching_locked [OF assms] by simp
next
  case (Some k)
  then have "k \<in> set (active_ids s)" "region_key (slot_region (slots s ! k)) = (gpa, sz, hva)"
    by (auto simp: find_Some_iff slot_region_def)
  with Some show thesis using found find_matching_locked [OF assms] by simp
qed

lemma mem_map_delete:
  assumes "slots_wf s" "slots_keyed s" "k \<in> set (active_ids s)"
    and "region_key (slot_region (slots s ! k)) = region_key r"
  shows "slot_region ` (active_slots s - {slots s ! k}) = map_del r (mem_map s)"
proof -
  have x: "slots s ! k \<in> active_slots s" using assms(3) by (simp add: active_slots_ids [OF assms(1)])
  have "y \<noteq> slots s ! k \<longleftrightarrow> region_key (slot_region y) \<noteq> region_key r" if "y \<in> active_slots s" for y
    using inj_on_eq_iff [OF assms(2) [unfolded slots_keyed_def] that x] assms(4) by simp
  then show ?thesis by (auto simp: mem_map_def map_del_def)
qed

lemma set_phys_mem:
  assumes inv: "mem_inv K v" and locked: "slots_locked (vm_state v)" and fits: "section_fits sec"
  obtains w where "gzvm_set_phys_mem_locked K sec add v = Some w" "mem_inv K w" "core w = core v"
    "mem_map (vm_state w) \<in> {mem_map (vm_state v), map_update (vm_cfg v) add sec (mem_map (vm_state v))}"
    "accepts_memory K \<longrightarrow> mem_map (vm_state w) = map_update (vm_cfg v) add sec (mem_map (vm_state v))"
proof (cases "section_region (vm_cfg v) sec")
  case None
  with inv that [of v] show thesis by (simp add: set_phys_mem_cases [OF fits] map_update_def)
next
  case (Some r)
  obtain gpa sz hva fl where r: "r = (gpa, sz, hva, fl)" by (metis prod.exhaust)
  have wf: "slots_wf (vm_state v)" and keyed: "slots_keyed (vm_state v)" using inv by (simp_all add: mem_inv_def)
  have upd: "map_update (vm_cfg v) b sec M = (if b then map_add_region r M else map_del r M)" for b M
    by (simp add: map_update_def Some)
  show thesis
  proof (rule find_matching_slot [OF wf locked, of gpa sz hva])
    fix k
    assume found: "gzvm_find_matching_slot_locked (vm_state v) gpa sz hva = Some (Some k)"
      "k \<in> set (active_ids (vm_state v))"
      "region_key (slot_region (slots (vm_state v) ! k)) = (gpa, sz, hva)"
    note del = mem_map_delete [OF wf keyed found(2), of r, unfolded r, simplified, OF found(3)]
    show thesis
    proof (cases add)
      case True
      have "region_key (slot_region (slots (vm_state v) ! k)) \<in> region_key ` mem_map (vm_state v)"
        using found(2) by (auto simp: mem_map_def active_slots_ids [OF wf])
      with True found(3) r have "map_update (vm_cfg v) add sec (mem_map (vm_state v)) = mem_map (vm_state v)"
        by (simp add: upd map_add_region_def)
      with True found inv Some r show thesis
        by (intro that [of v]) (simp_all add: set_phys_mem_cases [OF fits])
    next
      case False
      obtain ret w where w: "gzvm_remove_mem_slot_locked K k v = Some (ret, w)" "mem_inv K w" "core w = core v"
        "active_slots (vm_state w) = (if ret = 0 then active_slots (vm_state v) - {slots (vm_state v) ! k}
           else active_slots (vm_state v))"
        "accepts_memory K \<longrightarrow> ret = 0"
        by (rule remove_slot [OF inv locked found(2)])
      from w(4) del have "mem_map (vm_state w) =
          (if ret = 0 then map_del r (mem_map (vm_state v)) else mem_map (vm_state v))"
        by (simp add: mem_map_def r)
      with False found(1) Some r w(1,2,3,5) show thesis
        by (intro that [of w]) (auto simp: set_phys_mem_cases [OF fits] upd)
    qed
  next
    assume absent: "gzvm_find_matching_slot_locked (vm_state v) gpa sz hva = Some None"
      "(gpa, sz, hva) \<notin> region_key ` mem_map (vm_state v)"
    show thesis
    proof (cases add)
      case False
      have "map_del r (mem_map (vm_state v)) = mem_map (vm_state v)"
        using absent(2) by (auto simp: map_del_def r image_iff)
      with False absent(1) Some r inv show thesis
        by (intro that [of v]) (simp_all add: set_phys_mem_cases [OF fits] upd)
    next
      case True
      note b = section_region_bounds [OF Some [unfolded r]]
      obtain ret w where w: "gzvm_add_mem_slot K hva gpa sz fl v = Some (ret, w)" "mem_inv K w" "core w = core v"
        "mem_map (vm_state w) =
           (if ret = 0 then insert (gpa, sz, hva, fl) (mem_map (vm_state v)) else mem_map (vm_state v))"
        "nr_active_slots (vm_state v) = GZVM_MAX_MEM_SLOTS \<longrightarrow> ret = - ENOSPC"
        "accepts_memory K \<longrightarrow> nr_active_slots (vm_state v) \<noteq> GZVM_MAX_MEM_SLOTS \<longrightarrow> ret = 0"
        by (rule add_slot [OF inv locked b absent(2)])
      have "map_add_region r (mem_map (vm_state v)) =
          (if nr_active_slots (vm_state v) = GZVM_MAX_MEM_SLOTS then mem_map (vm_state v)
           else insert (gpa, sz, hva, fl) (mem_map (vm_state v)))"
        using absent(2) by (simp add: map_add_region_def r card_mem_map [OF wf keyed])
      with True absent(1) Some r w show thesis
        by (intro that [of w]) (auto simp: set_phys_mem_cases [OF fits] upd ENOSPC_def)
    qed
  qed
qed


section \<open>Transactions\<close>

lemma table_other_fields [simp]:
  "slots_wf (s\<lparr>transaction_add := q\<rparr>) = slots_wf s" "slots_wf (s\<lparr>transaction_del := q\<rparr>) = slots_wf s"
  "slots_wf (s\<lparr>slots_lock := l\<rparr>) = slots_wf s"
  "active_slots (s\<lparr>transaction_add := q\<rparr>) = active_slots s" "active_slots (s\<lparr>transaction_del := q\<rparr>) = active_slots s"
  "active_slots (s\<lparr>slots_lock := l\<rparr>) = active_slots s"
  "mapped_slots (s\<lparr>transaction_add := q\<rparr>) = mapped_slots s" "mapped_slots (s\<lparr>transaction_del := q\<rparr>) = mapped_slots s"
  "mapped_slots (s\<lparr>slots_lock := l\<rparr>) = mapped_slots s"
  "slot_view (s\<lparr>transaction_add := q\<rparr>) = slot_view s" "slot_view (s\<lparr>transaction_del := q\<rparr>) = slot_view s"
  "slot_view (s\<lparr>slots_lock := l\<rparr>) = slot_view s"
  by (simp_all add: slots_wf_def slots_shape_def active_ids_def active_slots_def mapped_slots_def
      slot_view_def fun_eq_iff)

lemma mem_inv_other_fields [simp]:
  "mem_inv K (set_vm_state ((vm_state v)\<lparr>transaction_add := q\<rparr>) v) = mem_inv K v"
  "mem_inv K (set_vm_state ((vm_state v)\<lparr>transaction_del := q\<rparr>) v) = mem_inv K v"
  "mem_inv K (set_vm_state ((vm_state v)\<lparr>slots_lock := l\<rparr>) v) = mem_inv K v"
  by (simp_all add: mem_inv_def slots_keyed_def snapshot_ok_def snapshot_current_def kernel_agrees_def)

lemma mem_map_other_fields [simp]:
  "mem_map (s\<lparr>transaction_add := q\<rparr>) = mem_map s" "mem_map (s\<lparr>transaction_del := q\<rparr>) = mem_map s"
  "mem_map (s\<lparr>slots_lock := l\<rparr>) = mem_map s"
  by (simp_all add: mem_map_def)

lemma set_queue_simps [simp]:
  "mem_inv K (set_vm_state (set_queue add q (vm_state v)) v) = mem_inv K v"
  "mem_map (set_queue add q s) = mem_map s" "slots_lock (set_queue add q s) = slots_lock s"
  "ram_base (set_queue add q s) = ram_base s"
  by (simp_all add: set_queue_def)

definition get_queue :: "bool \<Rightarrow> GZVMState \<Rightarrow> MemoryRegionSection list" where
  "get_queue add s = (if add then transaction_add s else transaction_del s)"

lemma drain_queue:
  assumes "mem_inv K v" "slots_locked (vm_state v)" "list_all section_fits us" "get_queue add (vm_state v) = us"
  shows "\<exists>w. drain_queue K add us v = Some w \<and> mem_inv K w \<and>
    core w = core (set_vm_state (set_queue add [] (vm_state v)) v) \<and>
    (accepts_memory K \<longrightarrow> mem_map (vm_state w) = fold (map_update (vm_cfg v) add) us (mem_map (vm_state v)))"
  using assms
proof (induction us arbitrary: v)
  case Nil
  from Nil.prems(4) have same: "set_vm_state (set_queue add [] (vm_state v)) v = v"
    by (cases add) (simp_all add: set_queue_def get_queue_def)
  show ?case unfolding same using Nil.prems(1) by simp
next
  case (Cons u us)
  let ?v = "set_vm_state (set_queue add us (vm_state v)) v"
  have "mem_inv K ?v" "slots_locked (vm_state ?v)" "section_fits u" using Cons.prems by simp_all
  then obtain w where w: "gzvm_set_phys_mem_locked K u add ?v = Some w" "mem_inv K w" "core w = core ?v"
    "accepts_memory K \<longrightarrow> mem_map (vm_state w) = map_update (vm_cfg ?v) add u (mem_map (vm_state ?v))"
    by (rule set_phys_mem)
  have q: "get_queue add (vm_state w) = us" and l: "slots_locked (vm_state w)"
    using coreD [OF w(3)] Cons.prems by (simp_all add: get_queue_def set_queue_def)
  from w(3) have c: "core (set_vm_state (set_queue add [] (vm_state w)) w) =
      core (set_vm_state (set_queue add [] (vm_state v)) v)"
  proof -
    have shape: "core (set_vm_state (set_queue add [] (vm_state x)) x) =
        set_vm_state (set_queue add [] (vm_state (core x))) (core x)" for x
      by (simp add: core_def set_queue_def)
    show ?thesis unfolding shape w(3) by (simp add: core_def set_queue_def)
  qed
  have cfg: "vm_cfg w = vm_cfg v" using coreD(9) [OF w(3)] by (simp add: vm_cfg_def)
  have us: "list_all section_fits us" using Cons.prems(3) by simp
  obtain x where x: "drain_queue K add us w = Some x" "mem_inv K x"
    "core x = core (set_vm_state (set_queue add [] (vm_state w)) w)"
    "accepts_memory K \<longrightarrow> mem_map (vm_state x) = fold (map_update (vm_cfg w) add) us (mem_map (vm_state w))"
    using Cons.IH [OF w(2) l us q] by blast
  have "mem_map (vm_state x) = fold (map_update (vm_cfg v) add) (u # us) (mem_map (vm_state v))"
    if "accepts_memory K"
    using that w(4) x(4) cfg by (simp add: vm_cfg_def)
  moreover have "drain_queue K add (u # us) v = Some x" using w(1) x(1) by simp
  moreover note x(2) x(3) [unfolded c]
  ultimately show ?case by blast
qed

text \<open>
  A commit on a table in order: it returns with the table in order, the lock released and both
  queues empty, whatever the kernel answers.
\<close>

lemma region_commit:
  assumes ready: "mem_ready K v"
  shows "\<exists>w. gzvm_region_commit K v = Some w \<and> mem_ready K w \<and>
    core w = core (set_vm_state ((vm_state v)\<lparr>transaction_add := [], transaction_del := []\<rparr>) v) \<and>
    (accepts_memory K \<longrightarrow> mem_map (vm_state w) =
       fold (map_update (vm_cfg v) True) (transaction_add (vm_state v))
         (fold (map_update (vm_cfg v) False) (transaction_del (vm_state v)) (mem_map (vm_state v))))"
proof (cases "transaction_add (vm_state v) = [] \<and> transaction_del (vm_state v) = []")
  case True
  then have same: "set_vm_state ((vm_state v)\<lparr>transaction_add := [], transaction_del := []\<rparr>) v = v"
    by simp
  show ?thesis unfolding same using True ready by (simp add: gzvm_region_commit_def)
next
  case False
  let ?v = "set_vm_state ((vm_state v)\<lparr>slots_lock := MutexLocked\<rparr>) v"
  have r: "mem_inv K v" "vm_accel v" "slots_lock (vm_state v) = MutexUnlocked"
    "list_all section_fits (transaction_add (vm_state v))" "list_all section_fits (transaction_del (vm_state v))"
    using ready by (simp_all add: mem_ready_def)
  have "mem_inv K ?v" using r by simp
  from drain_queue [OF this, of "transaction_del (vm_state v)" False] r obtain w where
    w: "gzvm_drain_updates K False ?v = Some w" "mem_inv K w"
      "core w = core (set_vm_state (set_queue False [] (vm_state ?v)) ?v)"
      "accepts_memory K \<longrightarrow> mem_map (vm_state w) =
         fold (map_update (vm_cfg v) False) (transaction_del (vm_state v)) (mem_map (vm_state v))"
    by (auto simp: gzvm_drain_updates_def get_queue_def vm_cfg_def)
  note cw = coreD [OF w(3), unfolded set_queue_def, simplified]
  from drain_queue [OF w(2), of "transaction_add (vm_state v)" True] r obtain x where
    x: "gzvm_drain_updates K True w = Some x" "mem_inv K x"
      "core x = core (set_vm_state (set_queue True [] (vm_state w)) w)"
      "accepts_memory K \<longrightarrow> mem_map (vm_state x) =
         fold (map_update (vm_cfg w) True) (transaction_add (vm_state v)) (mem_map (vm_state w))"
    by (auto simp: gzvm_drain_updates_def get_queue_def cw)
  note cx = coreD [OF x(3), unfolded set_queue_def, simplified]
  define y where "y = set_vm_state ((vm_state x)\<lparr>slots_lock := MutexUnlocked\<rparr>) x"
  have "gzvm_region_commit K v = Some y"
    using False r w(1) x(1) cx cw
    by (auto simp: gzvm_region_commit_def gzvm_slots_lock_def gzvm_slots_unlock_def y_def)
  moreover have "mem_ready K y"
    using x(2) cx cw r by (simp add: y_def mem_ready_def)
  moreover have "core y = core (set_vm_state ((vm_state v)\<lparr>transaction_add := [], transaction_del := []\<rparr>) v)"
  proof -
    have shape: "core (set_vm_state ((vm_state x)\<lparr>slots_lock := l\<rparr>) x) =
        set_vm_state ((vm_state (core x))\<lparr>slots_lock := l\<rparr>) (core x)"
      "core (set_vm_state (set_queue b [] (vm_state x)) x) =
        set_vm_state (set_queue b [] (vm_state (core x))) (core x)" for x l b
      by (simp_all add: core_def set_queue_def)
    show ?thesis unfolding y_def shape x(3) w(3) using r(3) by (simp add: core_def set_queue_def)
  qed
  moreover have "vm_cfg w = vm_cfg v" using cw by (simp add: vm_cfg_def)
  ultimately show ?thesis using w(4) x(4) by (auto simp: y_def)
qed


lemma listener_step_ready:
  assumes "mem_ready K v" "op_fits e"
  shows "\<exists>w. listener_step K e v = Some w \<and> mem_ready K w \<and> (accepts_memory K \<longrightarrow> mem_abs w = spec_step e (mem_abs v))"
proof (cases e)
  case (RegionAdd sec)
  with assms show ?thesis by (simp add: gzvm_region_add_def mem_ready_def mem_abs_def vm_cfg_def)
next
  case (RegionDel sec)
  with assms show ?thesis by (simp add: gzvm_region_del_def mem_ready_def mem_abs_def vm_cfg_def)
next
  case Commit
  from region_commit [OF assms(1)] obtain w where w: "gzvm_region_commit K v = Some w" "mem_ready K w"
    "core w = core (set_vm_state ((vm_state v)\<lparr>transaction_add := [], transaction_del := []\<rparr>) v)"
    "accepts_memory K \<longrightarrow> mem_map (vm_state w) =
       fold (map_update (vm_cfg v) True) (transaction_add (vm_state v))
         (fold (map_update (vm_cfg v) False) (transaction_del (vm_state v)) (mem_map (vm_state v)))"
    by blast
  have "mem_abs w = spec_step Commit (mem_abs v)" if "accepts_memory K"
    using coreD [OF w(3)] w(4) that by (simp add: mem_abs_def vm_cfg_def)
  with Commit w(1,2) show ?thesis by auto
qed

text \<open>The listener against any kernel, and against one that accepts what it is asked for.\<close>

interpretation mem_run: invariant_system "listener_step K" op_fits "mem_ready K" for K
  using listener_step_ready by unfold_locales blast

interpretation mem_ref: refinement_system "listener_step K" op_fits "\<lambda>v. mem_ready K v \<and> accepts_memory K"
  mem_abs spec_step for K
proof unfold_locales
  fix v e
  assume "mem_ready K v \<and> accepts_memory K" "op_fits e"
  then show "\<exists>w. listener_step K e v = Some w \<and> mem_ready K w \<and> accepts_memory K"
    using listener_step_ready [of K v e] by blast
next
  fix v e w
  assume "mem_ready K v \<and> accepts_memory K" "op_fits e" "listener_step K e v = Some w"
  then show "mem_abs w = spec_step e (mem_abs v)"
    using listener_step_ready [of K v e] by auto
qed

section \<open>Creating and destroying the VM\<close>

definition other_request :: "vm_ioctl \<Rightarrow> bool" where
  "other_request req \<longleftrightarrow> (\<forall>g. req \<noteq> GZVM_SET_USER_MEMORY_REGION g)"

lemma other_request_ready:
  assumes "other_request req"
  shows "mem_ready K (snd (gzvm_vm_ioctl K req v)) = mem_ready K v"
    "kernel_view K (vm_hist (snd (gzvm_vm_ioctl K req v))) = kernel_view K (vm_hist v)"
proof -
  show *: "kernel_view K (vm_hist (snd (gzvm_vm_ioctl K req v))) = kernel_view K (vm_hist v)"
    using assms by (cases req) (simp_all add: gzvm_vm_ioctl_hist kernel_view_snoc view_step_def other_request_def)
  show "mem_ready K (snd (gzvm_vm_ioctl K req v)) = mem_ready K v"
    by (simp add: mem_ready_def mem_inv_def snapshot_ok_def snapshot_current_def kernel_agrees_def * frame_simps)
qed

definition eventfds_fit :: "AddressSpace \<Rightarrow> bool" where
  "eventfds_fit as \<longleftrightarrow> list_all (\<lambda>(sec, _). section_fits sec) (as_ioeventfds as)"

text \<open>The four ioeventfd callbacks are one request of that kind each.\<close>

definition eventfd_callback :: "kernel \<Rightarrow>
    (MemoryRegionSection \<Rightarrow> bool \<Rightarrow> u64 \<Rightarrow> EventNotifier \<Rightarrow> gzvm_vm \<Rightarrow> (bool \<times> gzvm_vm) option) \<Rightarrow> bool" where
  "eventfd_callback K f \<longleftrightarrow> (\<forall>sec m d e v. section_fits sec \<longrightarrow>
     (\<exists>r io. f sec m d e v = Some (r, snd (gzvm_vm_ioctl K (GZVM_IOEVENTFD io) v))))"

lemma eventfd_callbacks:
  "eventfd_callback K (gzvm_mem_ioeventfd_add K)" "eventfd_callback K (gzvm_mem_ioeventfd_del K)"
  "eventfd_callback K (gzvm_io_ioeventfd_add K)" "eventfd_callback K (gzvm_io_ioeventfd_del K)"
  by (auto simp: eventfd_callback_def section_fits_def gzvm_mem_ioeventfd_add_def gzvm_mem_ioeventfd_del_def
      gzvm_io_ioeventfd_add_def gzvm_io_ioeventfd_del_def gzvm_set_ioeventfd_mmio_def
      gzvm_set_ioeventfd_pio_def split: prod.splits) (metis snd_conv)+

lemma eventfd_each_returns:
  assumes "eventfd_callback K f"
  shows "list_all (\<lambda>(sec, _). section_fits sec) es \<Longrightarrow>
    \<exists>w. eventfd_each f es v = Some w \<and> core w = core v \<and> vm_state w = vm_state v \<and> (mem_ready K v \<longrightarrow> mem_ready K w)"
proof (induction es arbitrary: v)
  case Nil
  then show ?case by simp
next
  case (Cons e es)
  obtain sec m d n where e: "e = (sec, m, d, n)" by (metis prod.exhaust)
  have "section_fits sec" using Cons.prems by (simp add: e)
  with assms obtain r io where
    f: "f sec m d n v = Some (r, snd (gzvm_vm_ioctl K (GZVM_IOEVENTFD io) v))"
    unfolding eventfd_callback_def by blast
  let ?u = "snd (gzvm_vm_ioctl K (GZVM_IOEVENTFD io) v)"
  have "mem_ready K ?u = mem_ready K v" by (rule other_request_ready) (simp add: other_request_def)
  moreover have "core ?u = core v" by (simp add: gzvm_vm_ioctl_def hcall_def core_def)
  moreover have "vm_state ?u = vm_state v" by (simp add: frame_simps)
  ultimately show ?case using Cons.IH [of ?u] Cons.prems f by (auto simp: e)
qed


lemma region_adds:
  assumes "vm_accel v"
  shows "fold gzvm_region_add secs v =
    set_vm_state ((vm_state v)\<lparr>transaction_add := transaction_add (vm_state v) @ secs\<rparr>) v"
  using assms by (induction secs arbitrary: v) (simp_all add: gzvm_region_add_def)

lemma fresh_table_ready:
  assumes "snapshot_ok v" "gzvm_signal_nr_hva_ranges v = 0" "kernel_view K (vm_hist v) = Map.empty" "vm_accel v"
    and "vm_state v = fresh_slot_table s"
  shows "mem_ready K v" "mem_map (vm_state v) = {}"
proof -
  have a: "active_slots (fresh_slot_table s) = {}"
    by (auto simp: active_slots_def fresh_slot_table_def blank_slot_def)
  have "slots_wf (fresh_slot_table s)"
    by (auto simp: slots_wf_def slots_shape_def active_ids_def fresh_slot_table_def blank_slot_def
        GZVM_MAX_MEM_SLOTS_def)
  moreover have "slot_view (fresh_slot_table s) = Map.empty"
    by (auto simp: slot_view_def fresh_slot_table_def blank_slot_def fun_eq_iff)
  moreover have "mapped_slots (fresh_slot_table s) = []"
    by (simp add: mapped_slots_def active_ids_def fresh_slot_table_def)
  ultimately show "mem_ready K v"
    using assms a
    by (simp add: mem_ready_def mem_inv_def slots_keyed_def snapshot_current_def kernel_agrees_def)
      (simp add: fresh_slot_table_def)
  show "mem_map (vm_state v) = {}" using assms(5) a by (simp add: mem_map_def)
qed

lemma register_memory_listener:
  assumes "mem_ready K v" "list_all section_fits (as_view as)" "transaction_add (vm_state v) = []"
    "transaction_del (vm_state v) = []"
  obtains w where "memory_listener_register K ''gzvm'' as v = Some w" "mem_ready K w"
    "vm_listeners w = vm_listeners v @ [''gzvm'']" "vm_cfg w = vm_cfg v"
    "accepts_memory K \<longrightarrow> mem_map (vm_state w) =
       fold (map_update (vm_cfg v) True) (as_view as) (mem_map (vm_state v))"
proof -
  define u where "u = set_vm_state ((vm_state v)\<lparr>transaction_add := as_view as\<rparr>)
    (v\<lparr>vm_listeners := vm_listeners v @ [''gzvm'']\<rparr>)"
  have "mem_ready K u"
    using assms by (simp add: u_def mem_ready_def mem_inv_def slots_keyed_def snapshot_ok_def
        snapshot_current_def kernel_agrees_def)
  from region_commit [OF this] obtain w where w: "gzvm_region_commit K u = Some w" "mem_ready K w"
    "core w = core (set_vm_state ((vm_state u)\<lparr>transaction_add := [], transaction_del := []\<rparr>) u)"
    "accepts_memory K \<longrightarrow> mem_map (vm_state w) =
       fold (map_update (vm_cfg u) True) (transaction_add (vm_state u))
         (fold (map_update (vm_cfg u) False) (transaction_del (vm_state u)) (mem_map (vm_state u)))"
    by blast
  have "memory_listener_register K ''gzvm'' as v = Some w"
    using w(1) assms(1,3)
    by (simp add: memory_listener_register_def listener_add_address_space_def region_adds mem_ready_def u_def)
  moreover have "vm_listeners w = vm_listeners v @ [''gzvm'']" "vm_cfg w = vm_cfg v"
    using coreD [OF w(3)] by (simp_all add: u_def vm_cfg_def)
  moreover have "vm_cfg u = vm_cfg v" by (simp add: u_def vm_cfg_def)
  ultimately show thesis using w(2,4) assms(4) that by (simp add: u_def)
qed

lemma register_eventfd_listener:
  assumes "mem_ready K v" "eventfds_fit as" "name \<noteq> ''gzvm''"
  obtains w where "memory_listener_register K name as v = Some w" "mem_ready K w"
    "vm_listeners w = vm_listeners v @ [name]" "vm_cfg w = vm_cfg v" "vm_state w = vm_state v"
proof -
  let ?v = "v\<lparr>vm_listeners := vm_listeners v @ [name]\<rparr>"
  have r: "mem_ready K ?v"
    using assms by (simp add: mem_ready_def mem_inv_def snapshot_ok_def snapshot_current_def kernel_agrees_def)
  have "\<exists>w. memory_listener_register K name as v = Some w \<and> core w = core ?v \<and> vm_state w = vm_state ?v \<and>
      mem_ready K w"
    using assms r eventfd_each_returns [OF eventfd_callbacks(1) [of K], where es = "as_ioeventfds as" and v = ?v]
      eventfd_each_returns [OF eventfd_callbacks(3) [of K], where es = "as_ioeventfds as" and v = ?v]
    by (auto simp: memory_listener_register_def listener_add_address_space_def eventfds_fit_def)
  then obtain w where w: "memory_listener_register K name as v = Some w" "core w = core ?v"
    "vm_state w = vm_state ?v" "mem_ready K w" by blast
  with coreD [OF w(2)] that show thesis by (simp add: vm_cfg_def)
qed


text \<open>What creating the VM relies on: the static variables of the process before the first VM.\<close>

definition boot_ok :: "gzvm_vm \<Rightarrow> bool" where
  "boot_ok v \<longleftrightarrow> snapshot_ok v \<and> gzvm_signal_nr_hva_ranges v = 0 \<and> vm_listeners v = []"

definition spaces_fit :: "AddressSpace \<Rightarrow> AddressSpace \<Rightarrow> bool" where
  "spaces_fit mem io \<longleftrightarrow> list_all section_fits (as_view mem) \<and> eventfds_fit mem \<and> eventfds_fit io"

definition vm_created :: "kernel \<Rightarrow> history \<Rightarrow> bool" where
  "vm_created K h \<longleftrightarrow>
     (let a = K h Open_gzvm
      in ans_ret a \<noteq> -1 \<and> 0 \<le> ans_ret (K (h @ [Open_gzvm]) (CreateVm (ans_ret a))))"

lemma open_device_failed:
  assumes "\<not> vm_created K (vm_hist v)"
  obtains w where "gzvm_open_device K v = (-1, w)"
    "slots_lock (vm_state w) = slots_lock (vm_state v)" "vm_listeners w = vm_listeners v"
  using assms that by (fastforce simp: gzvm_open_device_def hcall_def vm_created_def
      gzvm_dev_ioctl_create_vm_def Let_def split: if_splits)

lemma open_device_created:
  assumes "vm_created K (vm_hist v)"
  obtains w where "gzvm_open_device K v = (0, w)" "kernel_view K (vm_hist w) = Map.empty"
    "vm_accel w = vm_accel v" "snapshot_ok w = snapshot_ok v" "vm_listeners w = vm_listeners v"
    "gzvm_signal_nr_hva_ranges w = gzvm_signal_nr_hva_ranges v" "vm_cfg w = vm_cfg v"
proof -
  let ?fd = "ans_ret (K (vm_hist v) Open_gzvm)"
  let ?h = "vm_hist v @ [Open_gzvm]"
  let ?w = "v\<lparr>vm_state := (vm_state v)\<lparr>gz_fd := ?fd, vmfd := ans_ret (K ?h (CreateVm ?fd))\<rparr>,
     vm_hist := ?h @ [CreateVm ?fd]\<rparr>"
  have "gzvm_open_device K v = (0, ?w)"
    using assms by (simp add: gzvm_open_device_def hcall_def vm_created_def gzvm_dev_ioctl_create_vm_def Let_def)
  moreover have "kernel_view K (vm_hist ?w) = Map.empty"
    using assms kernel_view_snoc [of K ?h "CreateVm ?fd"] by (simp add: view_step_def vm_created_def Let_def)
  ultimately show thesis by (rule that) (simp_all add: snapshot_ok_def vm_cfg_def)
qed

lemma vgic_devices:
  assumes "mem_ready K v"
  obtains (ok) w where "gzvm_create_vgic_devices K v = (0, w)" "mem_ready K w" "vm_listeners w = vm_listeners v"
      "mem_map (vm_state w) = mem_map (vm_state v)"
    | (failed) w where "gzvm_create_vgic_devices K v = (-1, w)" "slots_lock (vm_state w) = MutexUnlocked"
      "vmfd (vm_state w) = -1" "gz_fd (vm_state w) = -1" "vm_listeners w = vm_listeners v"
proof -
  let ?d = "GZVM_CREATE_DEVICE \<lparr>dev_type = GZVM_DEV_TYPE_ARM_VGIC_V3_DIST, dev_addr = 0x08000000, dev_reg_size = 0x10000\<rparr>"
  let ?r = "GZVM_CREATE_DEVICE \<lparr>dev_type = GZVM_DEV_TYPE_ARM_VGIC_V3_REDIST, dev_addr = 0x080A0000, dev_reg_size = 0x20000\<rparr>"
  define a where "a = snd (gzvm_vm_ioctl K ?d v)"
  define b where "b = set_vm_state ((vm_state a)\<lparr>gic_dist_base := 0x08000000\<rparr>) a"
  define c where "c = snd (gzvm_vm_ioctl K ?r b)"
  have bases: "mem_ready K (set_vm_state ((vm_state x)\<lparr>gic_dist_base := n\<rparr>) x) = mem_ready K x"
    "mem_ready K (set_vm_state ((vm_state x)\<lparr>gic_redist_base := n\<rparr>) x) = mem_ready K x" for x n
    by (simp_all add: mem_ready_def mem_inv_def slots_wf_def slots_shape_def active_ids_def slots_keyed_def
        active_slots_def snapshot_ok_def snapshot_current_def mapped_slots_def kernel_agrees_def
        slot_view_def fun_eq_iff)
  have ready: "mem_ready K a" "mem_ready K b" "mem_ready K c"
    using assms by (simp_all add: a_def b_def c_def bases other_request_ready other_request_def)
  have same: "vm_state a = vm_state v" "vm_state c = (vm_state v)\<lparr>gic_dist_base := 0x08000000\<rparr>"
    "vm_listeners c = vm_listeners v" "vm_listeners a = vm_listeners v"
    by (simp_all add: a_def b_def c_def frame_simps)
  have unlocked: "slots_lock (vm_state v) = MutexUnlocked" using assms by (simp add: mem_ready_def)
  define w where "w = set_vm_state ((vm_state c)\<lparr>gic_redist_base := 0x080A0000\<rparr>) c"
  have w: "mem_ready K w" "vm_listeners w = vm_listeners v" "mem_map (vm_state w) = mem_map (vm_state v)"
    using ready(3) by (simp_all add: w_def bases) (simp_all add: same mem_map_def active_slots_def)
  have eq: "gzvm_create_vgic_devices K v =
      (if ans_ret (fst (gzvm_vm_ioctl K ?d v)) \<noteq> 0 then (-1, close_vm_fds a)
       else if ans_ret (fst (gzvm_vm_ioctl K ?r b)) \<noteq> 0 then (-1, close_vm_fds c) else (0, w))"
    by (simp add: gzvm_create_vgic_devices_def gzvm_create_vgic_device_def case_prod_beta Let_def
        a_def b_def c_def w_def)
  have closed: "slots_lock (vm_state (close_vm_fds x)) = slots_lock (vm_state x)"
    "vmfd (vm_state (close_vm_fds x)) = -1" "gz_fd (vm_state (close_vm_fds x)) = -1"
    "vm_listeners (close_vm_fds x) = vm_listeners x" for x
    by (simp_all add: close_vm_fds_def)
  consider "gzvm_create_vgic_devices K v = (-1, close_vm_fds a)"
    | "gzvm_create_vgic_devices K v = (-1, close_vm_fds c)" | "gzvm_create_vgic_devices K v = (0, w)"
    unfolding eq by argo
  then show thesis
    by cases (use closed same unlocked in \<open>auto intro: failed\<close>, use closed same unlocked in \<open>auto intro: failed\<close>,
      use w in \<open>auto intro: ok\<close>)
qed


lemma probe_caps:
  "vm_state (gzvm_probe_caps K v) = vm_state v" "vm_accel (gzvm_probe_caps K v) = vm_accel v"
  "vm_listeners (gzvm_probe_caps K v) = vm_listeners v" "snapshot_ok (gzvm_probe_caps K v) = snapshot_ok v"
  "gzvm_signal_nr_hva_ranges (gzvm_probe_caps K v) = gzvm_signal_nr_hva_ranges v"
  "machine_ram_size (gzvm_probe_caps K v) = machine_ram_size v" "host_page_size (gzvm_probe_caps K v) = host_page_size v"
  "kernel_view K (vm_hist (gzvm_probe_caps K v)) = kernel_view K (vm_hist v)"
  by (simp_all add: gzvm_probe_caps_def case_prod_beta frame_simps snapshot_ok_def other_request_ready
      other_request_def)

abbreviation gzvm_listeners :: "string list" where
  "gzvm_listeners \<equiv> [''gzvm'', ''gzvm-ioeventfd'', ''gzvm-io'']"

lemma create_vm_done:
  assumes v: "vm_accel v" "boot_ok v" and fit: "spaces_fit mem io" and created: "vm_created K (vm_hist v)"
  obtains (ok) w where "gzvm_create_vm K mem io v = Some (0, w)" "mem_ready K w" "vm_listeners w = gzvm_listeners"
      "accepts_memory K \<longrightarrow> mem_map (vm_state w) = fold (map_update (vm_cfg v) True) (as_view mem) {}"
    | (failed) w where "gzvm_create_vm K mem io v = Some (-1, w)" "slots_lock (vm_state w) = MutexUnlocked"
      "vmfd (vm_state w) = -1" "gz_fd (vm_state w) = -1" "vm_listeners w = gzvm_listeners"
proof -
  have fits: "list_all section_fits (as_view mem)" "eventfds_fit mem" "eventfds_fit io"
    using fit by (simp_all add: spaces_fit_def)
  obtain a where a: "gzvm_open_device K v = (0, a)" "kernel_view K (vm_hist a) = Map.empty"
    "vm_accel a = vm_accel v" "snapshot_ok a = snapshot_ok v" "vm_listeners a = vm_listeners v"
    "gzvm_signal_nr_hva_ranges a = gzvm_signal_nr_hva_ranges v" "vm_cfg a = vm_cfg v"
    by (rule open_device_created [OF created])
  define b where "b = gzvm_install_sigsegv_handler
    (set_vm_state (fresh_slot_table (vm_state (gzvm_probe_caps K a))) (gzvm_probe_caps K a))"
  have st: "vm_state b = fresh_slot_table (vm_state a)"
    by (simp add: b_def gzvm_install_sigsegv_handler_def probe_caps)
  have bl: "vm_listeners b = []" using v a by (simp add: b_def gzvm_install_sigsegv_handler_def probe_caps boot_ok_def)
  have cfg: "vm_cfg b = vm_cfg v"
    using a(7) by (simp add: vm_cfg_def b_def gzvm_install_sigsegv_handler_def probe_caps fresh_slot_table_def)
  have sb: "snapshot_ok b" "gzvm_signal_nr_hva_ranges b = 0" "vm_accel b"
    using v a probe_caps(4) [of K a]
    by (simp_all add: b_def gzvm_install_sigsegv_handler_def probe_caps boot_ok_def snapshot_ok_def)
  have kb: "kernel_view K (vm_hist b) = Map.empty"
    using a(2) by (simp add: b_def gzvm_install_sigsegv_handler_def probe_caps kernel_view_snoc view_step_def)
  note ready = fresh_table_ready [OF sb(1,2) kb sb(3) st]
  have q: "transaction_add (vm_state b) = []" "transaction_del (vm_state b) = []"
    by (simp_all add: st fresh_slot_table_def)
  obtain c where c: "memory_listener_register K ''gzvm'' mem b = Some c" "mem_ready K c"
    "vm_listeners c = vm_listeners b @ [''gzvm'']" "vm_cfg c = vm_cfg b"
    "accepts_memory K \<longrightarrow> mem_map (vm_state c) = fold (map_update (vm_cfg b) True) (as_view mem) (mem_map (vm_state b))"
    by (rule register_memory_listener [OF ready(1) fits(1) q])
  obtain d where d: "memory_listener_register K ''gzvm-ioeventfd'' mem c = Some d" "mem_ready K d"
    "vm_listeners d = vm_listeners c @ [''gzvm-ioeventfd'']" "vm_state d = vm_state c"
    by (rule register_eventfd_listener [OF c(2) fits(2), of "''gzvm-ioeventfd''"]) simp
  obtain e where e: "memory_listener_register K ''gzvm-io'' io d = Some e" "mem_ready K e"
    "vm_listeners e = vm_listeners d @ [''gzvm-io'']" "vm_state e = vm_state d"
    by (rule register_eventfd_listener [OF d(2) fits(3), of "''gzvm-io''"]) simp
  have eq: "gzvm_create_vm K mem io v = Some (gzvm_create_vgic_devices K e)"
    using v(1) a(1) c(1) d(1) e(1) by (simp add: gzvm_create_vm_def b_def Let_def)
  have ls: "vm_listeners e = gzvm_listeners" using bl c(3) d(3) e(3) by simp
  show thesis
    by (rule vgic_devices [OF e(2)]) (use eq ls c(5) d(4) e(4) ready(2) cfg in \<open>auto intro: ok failed\<close>)
qed

lemma create_vm_refused:
  assumes "\<not> vm_created K (vm_hist v)"
  obtains w where "gzvm_create_vm K mem io v = Some (-1, w)"
    "slots_lock (vm_state w) = slots_lock (vm_state v)" "vm_listeners w = vm_listeners v"
proof (cases "vm_accel v")
  case True
  obtain w where "gzvm_open_device K v = (-1, w)" "slots_lock (vm_state w) = slots_lock (vm_state v)"
      "vm_listeners w = vm_listeners v"
    by (rule open_device_failed [OF assms])
  with True that show thesis by (simp add: gzvm_create_vm_def)
next
  case False
  with that show thesis by (simp add: gzvm_create_vm_def)
qed

section \<open>The end of the object\<close>

lemma region_dels_off: "\<not> vm_accel v \<Longrightarrow> fold gzvm_region_del secs v = v"
  by (induction secs arbitrary: v) (simp_all add: gzvm_region_del_def)

lemma unregister_off:
  assumes "\<not> vm_accel v" "eventfds_fit as"
  shows "\<exists>w. memory_listener_unregister K name as v = Some w \<and> \<not> vm_accel w \<and>
    vm_listeners w = filter (\<lambda>n. n \<noteq> name) (vm_listeners v) \<and> vm_state w = vm_state v"
proof (cases "name \<in> set (vm_listeners v)")
  case False
  then have "filter (\<lambda>n. n \<noteq> name) (vm_listeners v) = vm_listeners v"
    by (auto simp: filter_id_conv)
  with False assms show ?thesis by (simp add: memory_listener_unregister_def)
next
  case True
  have "\<exists>w. listener_del_address_space K name as v = Some w \<and> core w = core v \<and> vm_state w = vm_state v"
    using assms eventfd_each_returns [OF eventfd_callbacks(2) [of K], where es = "as_ioeventfds as" and v = v]
      eventfd_each_returns [OF eventfd_callbacks(4) [of K], where es = "as_ioeventfds as" and v = v]
    by (auto simp: listener_del_address_space_def region_dels_off gzvm_region_commit_def eventfds_fit_def)
  then obtain w where w: "listener_del_address_space K name as v = Some w" "core w = core v"
    "vm_state w = vm_state v" by blast
  with coreD [OF w(2)] True assms show ?thesis by (simp add: memory_listener_unregister_def)
qed

lemma cleanup_off:
  assumes "\<not> vm_accel v" "spaces_fit mem io"
  shows "\<exists>w. gzvm_cleanup_mem_state K mem io v = Some w \<and> vm_state w = gzvm_free_pending_updates (vm_state v) \<and> \<not> vm_accel w \<and>
    vm_listeners w = filter (\<lambda>n. n \<notin> set gzvm_listeners) (vm_listeners v)"
proof -
  have fit: "eventfds_fit mem" "eventfds_fit io" using assms(2) by (simp_all add: spaces_fit_def)
  obtain a where a: "memory_listener_unregister K ''gzvm'' mem v = Some a" "\<not> vm_accel a"
    "vm_listeners a = filter (\<lambda>n. n \<noteq> ''gzvm'') (vm_listeners v)" "vm_state a = vm_state v"
    using unregister_off [OF assms(1) fit(1), of K "''gzvm''"] by blast
  obtain b where b: "memory_listener_unregister K ''gzvm-ioeventfd'' mem a = Some b" "\<not> vm_accel b"
    "vm_listeners b = filter (\<lambda>n. n \<noteq> ''gzvm-ioeventfd'') (vm_listeners a)" "vm_state b = vm_state a"
    using unregister_off [OF a(2) fit(1), of K "''gzvm-ioeventfd''"] by blast
  obtain c where c: "memory_listener_unregister K ''gzvm-io'' io b = Some c" "\<not> vm_accel c"
    "vm_listeners c = filter (\<lambda>n. n \<noteq> ''gzvm-io'') (vm_listeners b)" "vm_state c = vm_state b"
    using unregister_off [OF b(2) fit(2), of K "''gzvm-io''"] by blast
  show ?thesis
    using a b c by (simp add: gzvm_cleanup_mem_state_def)
qed


section \<open>Lookups by region\<close>

fun in_region :: "u64 \<Rightarrow> region \<Rightarrow> bool" where
  "in_region a (gpa, sz, hva, fl) \<longleftrightarrow> unat gpa \<le> unat a \<and> unat a < unat gpa + unat sz"

definition region_at :: "GZVMState \<Rightarrow> u64 \<Rightarrow> region option" where
  "region_at s a = map_option slot_region (table_lookup s a)"

lemma in_region_slot [simp]: "in_region a (slot_region x) = in_slot a x"
  by (simp add: slot_region_def in_slot_def)

definition regions_disjoint :: "region set \<Rightarrow> bool" where
  "regions_disjoint M \<longleftrightarrow> (\<forall>r \<in> M. \<forall>q \<in> M. \<forall>a. in_region a r \<and> in_region a q \<longrightarrow> r = q)"

definition region_inv :: "GZVMState \<Rightarrow> bool" where
  "region_inv s \<longleftrightarrow> slots_wf s \<and> slots_keyed s \<and> slots_locked s \<and> regions_disjoint (mem_map s)"

lemma region_inv_table: "region_inv s \<Longrightarrow> table_inv s"
  by (auto simp: region_inv_def table_inv_def slots_disjoint_def regions_disjoint_def mem_map_def
      slots_keyed_def inj_on_def)

interpretation region_map: region_table region_inv mem_map in_region region_at
proof
  fix s a r assume "region_inv s"
  then have "table_inv s" by (rule region_inv_table)
  then show "region_at s a = Some r \<longleftrightarrow> r \<in> mem_map s \<and> in_region a r"
    by (auto simp: region_at_def mem_map_def slot_table.lookup_iff)
qed

text \<open>The public lookup on a table in order: it takes the lock, searches and releases it.\<close>

definition lock_table :: "GZVMState \<Rightarrow> GZVMState" where
  "lock_table s = s\<lparr>slots_lock := MutexLocked\<rparr>"

lemma lock_table_simps [simp]:
  "mem_map (lock_table s) = mem_map s" "slots_wf (lock_table s) = slots_wf s"
  "active_slots (lock_table s) = active_slots s" "slots_keyed (lock_table s) = slots_keyed s"
  "slots_lock (lock_table s) = MutexLocked"
  by (simp_all add: lock_table_def slots_keyed_def)

lemma region_inv_lock:
  "mem_ready K v \<Longrightarrow> regions_disjoint (mem_map (vm_state v)) \<Longrightarrow> region_inv (lock_table (vm_state v))"
  by (simp add: region_inv_def mem_ready_def mem_inv_def)

lemma find_slot_by_addr:
  assumes "mem_ready K v"
  shows "gzvm_find_slot_by_addr v a = Some (table_lookup (lock_table (vm_state v)) a, v)"
proof -
  have u: "slots_lock (vm_state v) = MutexUnlocked" "vm_accel v" "slots_wf (lock_table (vm_state v))"
    using assms by (simp_all add: mem_ready_def mem_inv_def)
  obtain r where r: "gzvm_find_slot_by_addr_locked (lock_table (vm_state v)) a = Some r"
    using gzvm_find_slot_returns [OF u(3)] by auto
  have "(lock_table (vm_state v))\<lparr>slots_lock := MutexUnlocked\<rparr> = vm_state v"
    using u(1) by (simp add: lock_table_def)
  with r u show ?thesis
    by (simp add: gzvm_find_slot_by_addr_def gzvm_slots_lock_def gzvm_slots_unlock_def table_lookup_def
        flip: lock_table_def)
qed

end
