(* ===== verification/Gzvm_Memory_Props.thy ===== *)
theory Gzvm_Memory_Props
  imports Gzvm_Memory_Spec
begin

text \<open>
  The properties of the memory listener, the slot table, the signal handler and the life cycle of
  the accelerator, with an example machine on which their hypotheses hold.
\<close>

section \<open>An example machine\<close>

definition example_vm :: gzvm_vm where
  "example_vm = \<lparr>vm_accel = True, vm_state = fresh_slot_table (zero_state\<lparr>ram_base := 0x40000000\<rparr>),
     vm_listeners = [], gzvm_signal_hva_ranges = replicate 64 \<lparr>hva_start = 0, hva_end = 0\<rparr>,
     gzvm_signal_nr_hva_ranges = 0, gzvm_signal_page_size = 0x1000, machine_ram_size = 0x80000000,
     host_page_size = 0x1000, vm_hist = []\<rparr>"

definition example_ram :: MemoryRegionSection where
  "example_ram = \<lparr>sec_mr = \<lparr>mr_ram = True, mr_readonly = False, mr_rom_device = False, mr_romd_mode = False,
       mr_ram_ptr = 0x700000000000\<rparr>,
     sec_offset_within_region = 0, sec_offset_within_address_space = 0x40000000, sec_size = 0x8000\<rparr>"

definition example_rom :: MemoryRegionSection where
  "example_rom = \<lparr>sec_mr = \<lparr>mr_ram = True, mr_readonly = True, mr_rom_device = False, mr_romd_mode = False,
       mr_ram_ptr = 0x710000000000\<rparr>,
     sec_offset_within_region = 0, sec_offset_within_address_space = 0, sec_size = 0x4000\<rparr>"

lemma example_ready: "mem_ready kernel_ok example_vm" "mem_map (vm_state example_vm) = {}"
  by (rule fresh_table_ready [of example_vm kernel_ok "zero_state\<lparr>ram_base := 0x40000000\<rparr>"];
      simp add: example_vm_def snapshot_ok_def GZVM_SIGNAL_MAX_REGIONS_def kernel_view_def)+

lemma example_fits: "section_fits example_ram" "section_fits example_rom"
  by (simp_all add: section_fits_def int128_get64_def example_ram_def example_rom_def)

lemma example_regions:
  "section_region (vm_cfg example_vm) example_ram = Some (0x40000000, 0x8000, 0x700000000000, GZVM_USER_MEM_REGION_GUEST_MEM)"
  "section_region (vm_cfg example_vm) example_rom = Some (0, 0x4000, 0x710000000000, GZVM_USER_MEM_REGION_PROTECT_FW)"
  by (simp_all add: vm_cfg_def example_vm_def example_ram_def example_rom_def fresh_slot_table_def
      memory_region_is_ram_def memory_region_is_rom_def memory_region_is_romd_def Let_def)

lemma kernel_ok_accepts: "accepts_memory kernel_ok"
  by (simp add: accepts_memory_def kernel_ok_def)


text \<open>Registering the example's RAM: the table then holds that region alone.\<close>

lemma example_commit:
  obtains w where "run_ops (listener_step kernel_ok) [RegionAdd example_ram, Commit] example_vm = Some w"
    "mem_ready kernel_ok w" "vm_cfg w = vm_cfg example_vm" "transaction_add (vm_state w) = []"
    "transaction_del (vm_state w) = []"
    "mem_map (vm_state w) = {(0x40000000, 0x8000, 0x700000000000, GZVM_USER_MEM_REGION_GUEST_MEM)}"
proof -
  let ?ops = "[RegionAdd example_ram, Commit]"
  obtain w where w: "run_ops (listener_step kernel_ok) ?ops example_vm = Some w" "mem_ready kernel_ok w"
    using mem_run.run_inv [OF example_ready(1), of ?ops] example_fits by auto
  have "mem_abs w = fold spec_step ?ops (mem_abs example_vm)"
    using mem_ref.run_abs [OF _ _ w(1)] example_ready kernel_ok_accepts example_fits by simp
  moreover have "mem_abs example_vm = \<lparr>ms_cfg = vm_cfg example_vm, ms_map = {}, ms_del = [], ms_add = []\<rparr>"
    using example_ready(2) by (simp add: mem_abs_def) (simp add: example_vm_def fresh_slot_table_def)
  ultimately show thesis
    by (intro that [OF w])
      (simp_all add: mem_abs_def map_update_def example_regions map_add_region_def GZVM_MAX_MEM_SLOTS_def)
qed

section \<open>The memory listener\<close>

lemma lookup_pair:
  assumes "mem_ready K v" "mem_ready K w"
    and "\<And>a. region_at (lock_table (vm_state w)) a = (if P a then r else region_at (lock_table (vm_state v)) a)"
  shows "\<forall>a. \<exists>x y. gzvm_find_slot_by_addr v a = Some (x, v) \<and> gzvm_find_slot_by_addr w a = Some (y, w) \<and>
       map_option slot_region y = (if P a then r else map_option slot_region x)"
  using assms(3) unfolding region_at_def
  by (simp only: find_slot_by_addr [OF assms(1)] find_slot_by_addr [OF assms(2)]) blast

text \<open>
  C1.  Whatever memory transactions the machine performs, on sections that fit 64-bit addresses, and
  whatever the kernel answers, the listener returns, its lock is released, and the slot table is well formed: sorted by guest
  address, every slot in use listed once.  Slot by slot the table is exactly what the kernel
  accepted, so a refused registration or removal never leaves the two in disagreement, and the
  signal handler's ranges are those of the table.
\<close>

theorem memory_listener_invariant:
  assumes "mem_ready K v" "list_all op_fits ops"
  shows "\<exists>w. run_ops (listener_step K) ops v = Some w \<and> slots_wf (vm_state w) \<and>
    slots_lock (vm_state w) = MutexUnlocked \<and>
    kernel_view K (vm_hist w) = slot_view (vm_state w) \<and> snapshot_current w"
  using mem_run.run_inv [OF assms] by (auto simp: mem_ready_def mem_inv_def kernel_agrees_def)

theorem memory_listener_invariant_witness:
  "\<exists>w. run_ops (listener_step kernel_ok)
      [RegionAdd example_ram, RegionAdd example_rom, Commit, RegionDel example_ram, Commit] example_vm = Some w \<and>
    slots_wf (vm_state w) \<and> slots_lock (vm_state w) = MutexUnlocked \<and>
    kernel_view kernel_ok (vm_hist w) = slot_view (vm_state w) \<and> snapshot_current w"
  by (rule memory_listener_invariant) (simp_all add: example_ready example_fits)

text \<open>
  C2.  With a kernel that accepts every region, the table after any sequence of transactions is
  the set of regions the transactions ask for: at each commit the removed sections leave the set
  and then the added ones enter it, restricted to RAM inside the machine's RAM window and ROM at
  address 0 in whole pages, firmware marked as such, at most 512 regions, none twice.
\<close>

theorem memory_listener_refines_region_set:
  assumes "mem_ready K v" "accepts_memory K" "list_all op_fits ops"
  shows "\<exists>w. run_ops (listener_step K) ops v = Some w \<and> mem_abs w = fold spec_step ops (mem_abs v)"
proof -
  obtain w where "run_ops (listener_step K) ops v = Some w"
    using mem_run.run_inv [OF assms(1,3)] by blast
  with mem_ref.run_abs [of K v ops w] assms show ?thesis by blast
qed

theorem memory_listener_refines_region_set_witness:
  "\<exists>w. run_ops (listener_step kernel_ok) [RegionAdd example_ram, RegionAdd example_rom, Commit] example_vm = Some w \<and>
    mem_abs w = fold spec_step [RegionAdd example_ram, RegionAdd example_rom, Commit] (mem_abs example_vm)"
  by (rule memory_listener_refines_region_set) (simp_all add: example_ready example_fits kernel_ok_accepts)

text \<open>
  C3.  Looking an address up after one region was registered: the address is found in the new
  region when it lies inside it, and every other lookup gives what it gave before.
\<close>

theorem lookup_after_add:
  assumes ready: "mem_ready K v" "accepts_memory K" and fits: "section_fits sec"
    and idle: "transaction_add (vm_state v) = []" "transaction_del (vm_state v) = []"
    and region: "section_region (vm_cfg v) sec = Some r"
    and new: "regions_disjoint (insert r (mem_map (vm_state v)))"
      "region_key r \<notin> region_key ` mem_map (vm_state v)" "nr_active_slots (vm_state v) < GZVM_MAX_MEM_SLOTS"
  shows "\<exists>w. gzvm_region_commit K (gzvm_region_add sec v) = Some w \<and>
    (\<forall>a. \<exists>x y. gzvm_find_slot_by_addr v a = Some (x, v) \<and> gzvm_find_slot_by_addr w a = Some (y, w) \<and>
       map_option slot_region y = (if in_region a r then Some r else map_option slot_region x))"
proof -
  obtain w where run: "run_ops (listener_step K) [RegionAdd sec, Commit] v = Some w" and w: "mem_ready K w"
    using mem_run.run_inv [OF ready(1), of "[RegionAdd sec, Commit]"] fits by auto
  have abs: "mem_abs w = fold spec_step [RegionAdd sec, Commit] (mem_abs v)"
    using mem_ref.run_abs [OF _ _ run] ready fits by simp
  have "card (mem_map (vm_state v)) \<noteq> GZVM_MAX_MEM_SLOTS"
    using card_mem_map [of "vm_state v"] ready(1) new(3) by (simp add: mem_ready_def mem_inv_def)
  with abs have map: "mem_map (vm_state w) = insert r (mem_map (vm_state v))"
    using idle region new(2) by (simp add: mem_abs_def map_update_def map_add_region_def)
  have v: "region_inv (lock_table (vm_state v))"
    using new(1) by (intro region_inv_lock [OF ready(1)]) (auto simp: regions_disjoint_def)
  have w': "region_inv (lock_table (vm_state w))"
    using new(1) by (intro region_inv_lock [OF w]) (simp add: map)
  have "region_at (lock_table (vm_state w)) a =
      (if in_region a r then Some r else region_at (lock_table (vm_state v)) a)" for a
    by (rule region_map.lookup_added [OF v w']) (simp add: map)
  note pair = lookup_pair [OF ready(1) w this]
  have "gzvm_region_commit K (gzvm_region_add sec v) = Some w"
    using run by (auto split: option.splits)
  with pair show ?thesis by blast
qed

theorem lookup_after_add_witness:
  "\<exists>w. gzvm_region_commit kernel_ok (gzvm_region_add example_ram example_vm) = Some w \<and>
    (\<forall>a. \<exists>x y. gzvm_find_slot_by_addr example_vm a = Some (x, example_vm) \<and>
       gzvm_find_slot_by_addr w a = Some (y, w) \<and>
       map_option slot_region y =
         (if in_region a (0x40000000, 0x8000, 0x700000000000, GZVM_USER_MEM_REGION_GUEST_MEM)
          then Some (0x40000000, 0x8000, 0x700000000000, GZVM_USER_MEM_REGION_GUEST_MEM)
          else map_option slot_region x))"
proof (rule lookup_after_add [OF example_ready(1) kernel_ok_accepts example_fits(1) _ _ example_regions(1)])
  show "regions_disjoint (insert (0x40000000, 0x8000, 0x700000000000, GZVM_USER_MEM_REGION_GUEST_MEM)
      (mem_map (vm_state example_vm)))"
    unfolding example_ready(2) by (simp add: regions_disjoint_def)
qed (simp_all only: example_ready(2), simp_all add: example_vm_def fresh_slot_table_def GZVM_MAX_MEM_SLOTS_def)

text \<open>
  C4.  Looking an address up after a registered region was removed: nothing is found inside the
  removed region, and every other lookup gives what it gave before.
\<close>

theorem lookup_after_del:
  assumes ready: "mem_ready K v" "accepts_memory K" and fits: "section_fits sec"
    and idle: "transaction_add (vm_state v) = []" "transaction_del (vm_state v) = []"
    and region: "section_region (vm_cfg v) sec = Some r" "r \<in> mem_map (vm_state v)"
    and disjoint: "regions_disjoint (mem_map (vm_state v))"
  shows "\<exists>w. gzvm_region_commit K (gzvm_region_del sec v) = Some w \<and>
    (\<forall>a. \<exists>x y. gzvm_find_slot_by_addr v a = Some (x, v) \<and> gzvm_find_slot_by_addr w a = Some (y, w) \<and>
       map_option slot_region y = (if in_region a r then None else map_option slot_region x))"
proof -
  obtain w where run: "run_ops (listener_step K) [RegionDel sec, Commit] v = Some w" and w: "mem_ready K w"
    using mem_run.run_inv [OF ready(1), of "[RegionDel sec, Commit]"] fits by auto
  have abs: "mem_abs w = fold spec_step [RegionDel sec, Commit] (mem_abs v)"
    using mem_ref.run_abs [OF _ _ run] ready fits by simp
  then have "mem_map (vm_state w) = map_del r (mem_map (vm_state v))"
    using idle region by (simp add: mem_abs_def map_update_def)
  also have "\<dots> = mem_map (vm_state v) - {r}"
    using ready(1) region(2)
    by (auto simp: map_del_def mem_map_def mem_ready_def mem_inv_def slots_keyed_def inj_on_def)
  finally have map: "mem_map (vm_state w) = mem_map (vm_state v) - {r}" .
  have v: "region_inv (lock_table (vm_state v))" by (rule region_inv_lock [OF ready(1) disjoint])
  have w': "region_inv (lock_table (vm_state w))"
    using disjoint by (intro region_inv_lock [OF w]) (auto simp: map regions_disjoint_def)
  have "region_at (lock_table (vm_state w)) a = (if region_at (lock_table (vm_state v)) a = Some r then None
      else region_at (lock_table (vm_state v)) a)" for a
    by (rule region_map.lookup_deleted [OF v w']) (simp add: map)
  then have "region_at (lock_table (vm_state w)) a =
      (if in_region a r then None else region_at (lock_table (vm_state v)) a)" for a
    using region_map.lookup_iff [OF v, of a r] region(2) by auto
  note pair = lookup_pair [OF ready(1) w this]
  have "gzvm_region_commit K (gzvm_region_del sec v) = Some w"
    using run by (auto split: option.splits)
  with pair show ?thesis by blast
qed

theorem lookup_after_del_witness:
  "\<exists>v. run_ops (listener_step kernel_ok) [RegionAdd example_ram, Commit] example_vm = Some v \<and>
    (\<exists>w. gzvm_region_commit kernel_ok (gzvm_region_del example_ram v) = Some w \<and>
    (\<forall>a. \<exists>x y. gzvm_find_slot_by_addr v a = Some (x, v) \<and> gzvm_find_slot_by_addr w a = Some (y, w) \<and>
       map_option slot_region y =
         (if in_region a (0x40000000, 0x8000, 0x700000000000, GZVM_USER_MEM_REGION_GUEST_MEM)
          then None else map_option slot_region x)))"
proof -
  obtain v where v: "run_ops (listener_step kernel_ok) [RegionAdd example_ram, Commit] example_vm = Some v"
    "mem_ready kernel_ok v" "vm_cfg v = vm_cfg example_vm" "transaction_add (vm_state v) = []"
    "transaction_del (vm_state v) = []"
    "mem_map (vm_state v) = {(0x40000000, 0x8000, 0x700000000000, GZVM_USER_MEM_REGION_GUEST_MEM)}"
    by (rule example_commit)
  have "section_region (vm_cfg v) example_ram =
      Some (0x40000000, 0x8000, 0x700000000000, GZVM_USER_MEM_REGION_GUEST_MEM)"
    using v(3) example_regions by simp
  from lookup_after_del [OF v(2) kernel_ok_accepts example_fits(1) v(4,5) this] v(1,6) show ?thesis
    by (simp add: regions_disjoint_def)
qed


text \<open>
  C5.  The public lookup on a table whose regions do not overlap returns, keeps the state, and
  answers with a slot exactly when that slot is in use and covers the address, also for the
  highest guest address, where the search key \<open>addr + 1\<close> wraps to 0.
\<close>

theorem find_slot_by_addr_exact:
  assumes "mem_ready K v" "regions_disjoint (mem_map (vm_state v))"
  shows "\<exists>r. gzvm_find_slot_by_addr v a = Some (r, v) \<and>
    (\<forall>x. r = Some x \<longleftrightarrow> x \<in> active_slots (vm_state v) \<and> in_slot a x)"
  using find_slot_by_addr [OF assms(1), of a]
    slot_table.lookup_iff [OF region_inv_table [OF region_inv_lock [OF assms]], of a]
  by simp

theorem find_slot_by_addr_exact_witness:
  "\<exists>v. run_ops (listener_step kernel_ok) [RegionAdd example_ram, Commit] example_vm = Some v \<and>
    (\<exists>r. gzvm_find_slot_by_addr v 0x40000010 = Some (r, v) \<and>
      (\<forall>x. r = Some x \<longleftrightarrow> x \<in> active_slots (vm_state v) \<and> in_slot 0x40000010 x))"
proof -
  obtain v where v: "run_ops (listener_step kernel_ok) [RegionAdd example_ram, Commit] example_vm = Some v"
    "mem_ready kernel_ok v"
    "mem_map (vm_state v) = {(0x40000000, 0x8000, 0x700000000000, GZVM_USER_MEM_REGION_GUEST_MEM)}"
    by (rule example_commit)
  have "regions_disjoint (mem_map (vm_state v))" unfolding v(3) by (simp add: regions_disjoint_def)
  from find_slot_by_addr_exact [OF v(2) this, of "0x40000010"] v(1) show ?thesis by blast
qed

text \<open>
  C26.  The binary search over the sorted index returns, without a read out of bounds, the number
  of slots a linear scan passes before the first one that does not start below the address.
\<close>

theorem find_first_ge_is_linear_scan:
  assumes "slots_wf s"
  shows "gzvm_find_first_ge s addr =
    Some (int (length (takeWhile (\<lambda>i. slot_start (slots s ! i) < addr) (active_ids s))))"
  using gzvm_find_first_ge_linear slots_wfD(1) [OF assms] by blast

definition example_table :: GZVMState where
  "example_table = (fresh_slot_table zero_state)\<lparr>
     slots := [\<lparr>slot_start = 0x3000, slot_size = 0x1000, slot_mem = 0x30000, slot_id = 0, slot_flags = 0\<rparr>,
               \<lparr>slot_start = 0x1000, slot_size = 0x2000, slot_mem = 0x10000, slot_id = 1, slot_flags = 0\<rparr>,
               blank_slot 2],
     sorted_ids := [1, 0, 0], nr_active_slots := 2, nr_slots_allocated := 3\<rparr>"

lemma all_less_3: "(\<forall>i < (3 :: nat). P i) \<longleftrightarrow> P 0 \<and> P 1 \<and> P 2"
  by (auto simp: less_Suc_eq numeral_eq_Suc)

lemma example_table_wf: "slots_wf example_table"
  by (simp add: slots_wf_def slots_shape_def active_ids_def example_table_def all_less_3
      GZVM_MAX_MEM_SLOTS_def slot_fits_def blank_slot_def)

lemma example_table_free: "gzvm_get_free_slot example_table = (Some 2, example_table)"
  by (simp add: gzvm_get_free_slot_def example_table_def blank_slot_def)

theorem find_first_ge_is_linear_scan_witness:
  "slots_wf example_table \<and> gzvm_find_first_ge example_table 0x2000 = Some 1"
  using find_first_ge_is_linear_scan [OF example_table_wf, of "0x2000"] example_table_wf
  by (simp add: active_ids_def example_table_def)

text \<open>
  C27.  A free slot is refused exactly when 512 slots are in use.  Otherwise the slot given out is
  inside the table and unused, and the table, grown or not, is well formed and holds what it held.
\<close>

theorem free_slot_until_limit:
  assumes "slots_wf s"
  shows "(fst (gzvm_get_free_slot s) = None \<longleftrightarrow> nr_active_slots s = GZVM_MAX_MEM_SLOTS) \<and>
    (\<forall>i t. gzvm_get_free_slot s = (Some i, t) \<longrightarrow>
       slots_wf t \<and> i < nr_slots_allocated t \<and> i \<notin> set (active_ids t) \<and> active_slots t = active_slots s)"
proof (intro conjI allI impI)
  show "fst (gzvm_get_free_slot s) = None \<longleftrightarrow> nr_active_slots s = GZVM_MAX_MEM_SLOTS"
    by (rule gzvm_get_free_slot_None_iff [OF assms])
  fix i t
  assume g: "gzvm_get_free_slot s = (Some i, t)"
  note G = gzvm_get_free_slot_correct [OF assms g]
  show "slots_wf t" "i < nr_slots_allocated t" "active_slots t = active_slots s" using G by simp_all
  show "i \<notin> set (active_ids t)" using slots_wf_active_iff [OF G(1,2)] G(3) by simp
qed

theorem free_slot_until_limit_witness:
  "slots_wf example_table \<and> gzvm_get_free_slot example_table = (Some 2, example_table) \<and>
   2 < nr_slots_allocated example_table \<and> 2 \<notin> set (active_ids example_table)"
  using free_slot_until_limit [OF example_table_wf] example_table_wf example_table_free by simp

text \<open>
  A section that is not RAM or ROM, is empty, ends beyond the address space, is not made of
  whole pages, is RAM outside the machine's RAM window or ROM away from address 0 is ignored: the
  state keeps every field and no request reaches the kernel.
\<close>

lemma ineligible_section_ignored:
  assumes "section_fits sec"
    and "let mr = sec_mr sec; gpa = sec_offset_within_address_space sec; sz = ucast (sec_size sec) :: u64;
             rom = memory_region_is_rom mr \<or> memory_region_is_romd mr
         in \<not> (memory_region_is_ram mr \<or> rom) \<or> sz = 0 \<or> UINT64_MAX - sz < gpa \<or>
            \<not> QEMU_IS_ALIGNED sz (host_page_size v) \<or> \<not> QEMU_IS_ALIGNED gpa (host_page_size v) \<or>
            (rom \<and> gpa \<noteq> 0) \<or>
            (\<not> rom \<and> (gpa < ram_base (vm_state v) \<or> ram_base (vm_state v) + machine_ram_size v < gpa + sz))"
  shows "gzvm_set_phys_mem_locked K sec add v = Some v"
proof -
  have "section_region (vm_cfg v) sec = None"
    using assms(2) by (auto simp: vm_cfg_def Let_def UINT64_MAX_def QEMU_IS_ALIGNED_def not_le)
  then show ?thesis by (simp add: set_phys_mem_cases [OF assms(1)])
qed

lemma ineligible_section_ignored_witness:
  "gzvm_set_phys_mem_locked kernel_ok (example_ram\<lparr>sec_size := 0x8010\<rparr>) True example_vm = Some example_vm"
  by (rule ineligible_section_ignored)
    (simp_all add: section_fits_def int128_get64_def example_ram_def example_vm_def Let_def QEMU_IS_ALIGNED_def)


section \<open>The life of the accelerator\<close>

lemma finalize_off:
  assumes "\<not> vm_accel v" "spaces_fit mem io"
  shows "if slots_lock (vm_state v) = MutexUnlocked
    then \<exists>w. gzvm_accel_instance_finalize K mem io v = Some w \<and> \<not> vm_accel w \<and>
      vm_state w = (gzvm_free_pending_updates (vm_state v))\<lparr>slots_lock := MutexUninit, slots := [], sorted_ids := []\<rparr> \<and>
      vm_listeners w = filter (\<lambda>n. n \<notin> set gzvm_listeners) (vm_listeners v)
    else gzvm_accel_instance_finalize K mem io v = None"
proof -
  define u where "u = (if gz_fd (vm_state v) \<ge> 0 then v\<lparr>vm_hist := vm_hist v @ [Close (gz_fd (vm_state v))]\<rparr> else v)"
  define x where "x = (if vmfd (vm_state u) \<ge> 0 then u\<lparr>vm_hist := vm_hist u @ [Close (vmfd (vm_state u))]\<rparr> else u)"
  have x: "\<not> vm_accel x" "vm_state x = vm_state v" "vm_listeners x = vm_listeners v"
    using assms(1) by (simp_all add: x_def u_def)
  obtain w where "gzvm_cleanup_mem_state K mem io x = Some w" "vm_state w = gzvm_free_pending_updates (vm_state v)" "\<not> vm_accel w"
    "vm_listeners w = filter (\<lambda>n. n \<notin> set gzvm_listeners) (vm_listeners v)"
    using cleanup_off [OF x(1) assms(2), of K] x by auto
  then show ?thesis
    by (simp add: gzvm_accel_instance_finalize_def Let_def slots_lock_destroy_def gzvm_free_pending_updates_def flip: u_def x_def)
qed

text \<open>
  C28.  Where \<open>/dev/gzvm\<close> cannot be opened or the kernel refuses to create a VM, the machine's
  initialisation does not report the failure: it drops the accelerator, whose finalizer destroys
  a mutex that \<open>gzvm_create_vm()\<close> had not initialised yet, and the process aborts.
\<close>

theorem accel_init_failure_aborts:
  assumes "vm_state v = gzvm_accel_instance_init zero_state" "spaces_fit mem io" "\<not> vm_created K (vm_hist v)"
  shows "accel_init_machine K mem io v = None"
proof -
  let ?v = "v\<lparr>vm_accel := True\<rparr>"
  obtain w where w: "gzvm_create_vm K mem io ?v = Some (-1, w)" "slots_lock (vm_state w) = slots_lock (vm_state ?v)"
    using create_vm_refused [of K ?v mem io] assms(3) by auto
  have "slots_lock (vm_state (w\<lparr>vm_accel := False\<rparr>)) = MutexUninit"
    using w(2) assms(1) by (simp add: gzvm_accel_instance_init_def zero_state_def)
  then have "gzvm_accel_instance_finalize K mem io (w\<lparr>vm_accel := False\<rparr>) = None"
    using finalize_off [of "w\<lparr>vm_accel := False\<rparr>" mem io K] assms(2) by simp
  with w(1) show ?thesis by (simp add: accel_init_machine_def)
qed

definition example_boot :: gzvm_vm where
  "example_boot = example_vm\<lparr>vm_accel := False, vm_state := gzvm_accel_instance_init zero_state\<rparr>"

definition example_memory :: AddressSpace where
  "example_memory = \<lparr>as_view = [example_ram], as_ioeventfds = []\<rparr>"

definition kernel_without_gzvm :: kernel where
  "kernel_without_gzvm h c = \<lparr>ans_ret = -1, ans_errno = ENOENT, ans_out = 0, ans_fds = (0, 0)\<rparr>"

lemma example_spaces: "spaces_fit example_memory \<lparr>as_view = [], as_ioeventfds = []\<rparr>"
  by (simp add: spaces_fit_def eventfds_fit_def example_memory_def example_fits)

theorem accel_init_failure_aborts_witness:
  "accel_init_machine kernel_without_gzvm example_memory \<lparr>as_view = [], as_ioeventfds = []\<rparr> example_boot = None"
  by (rule accel_init_failure_aborts [OF _ example_spaces])
    (simp_all add: example_boot_def vm_created_def kernel_without_gzvm_def)

text \<open>
  C29.  Once the kernel has created the VM, initialising the machine returns.  Either it succeeds: the
  three listeners are registered, the memory listener's invariant holds and, where the kernel
  accepts every region it is asked for, the table holds what the address space shows.  Or it fails
  with -1: the accelerator is no longer enabled, no listener is left registered, the table's lock is
  destroyed, its arrays and the queued updates are freed and both descriptors are given up.
\<close>

theorem accel_init_machine_outcome:
  assumes "boot_ok v" "spaces_fit mem io" "vm_created K (vm_hist v)"
  shows "\<exists>ret w. accel_init_machine K mem io v = Some (ret, w) \<and>
    (if ret = 0 then vm_accel w \<and> mem_ready K w \<and> vm_listeners w = gzvm_listeners \<and>
       (accepts_memory K \<longrightarrow> mem_map (vm_state w) = fold (map_update (vm_cfg v) True) (as_view mem) {})
     else ret = -1 \<and> \<not> vm_accel w \<and> vm_listeners w = [] \<and> slots_lock (vm_state w) = MutexUninit \<and>
       slots (vm_state w) = [] \<and> sorted_ids (vm_state w) = [] \<and> transaction_add (vm_state w) = [] \<and> transaction_del (vm_state w) = [] \<and>
       vmfd (vm_state w) = -1 \<and> gz_fd (vm_state w) = -1)"
proof -
  let ?v = "v\<lparr>vm_accel := True\<rparr>"
  have v: "vm_accel ?v" "boot_ok ?v" "vm_created K (vm_hist ?v)" and cfg: "vm_cfg ?v = vm_cfg v"
    using assms by (simp_all add: boot_ok_def snapshot_ok_def vm_cfg_def)
  show ?thesis
  proof (rule create_vm_done [OF v(1,2) assms(2) v(3)])
    fix w
    assume "gzvm_create_vm K mem io ?v = Some (0, w)" "mem_ready K w" "vm_listeners w = gzvm_listeners"
      "accepts_memory K \<longrightarrow> mem_map (vm_state w) = fold (map_update (vm_cfg ?v) True) (as_view mem) {}"
    then show ?thesis unfolding cfg by (simp add: accel_init_machine_def mem_ready_def)
  next
    fix w
    assume w: "gzvm_create_vm K mem io ?v = Some (-1, w)" "slots_lock (vm_state w) = MutexUnlocked"
      "vmfd (vm_state w) = -1" "gz_fd (vm_state w) = -1" "vm_listeners w = gzvm_listeners"
    obtain x where "gzvm_accel_instance_finalize K mem io (w\<lparr>vm_accel := False\<rparr>) = Some x" "\<not> vm_accel x" "vm_listeners x = []"
      "vm_state x = (gzvm_free_pending_updates (vm_state w))\<lparr>slots_lock := MutexUninit, slots := [], sorted_ids := []\<rparr>"
      using finalize_off [of "w\<lparr>vm_accel := False\<rparr>" mem io K] assms(2) w(2,5) by auto
    with w(1,3,4) show ?thesis by (intro exI [of _ "-1"]) (auto simp: accel_init_machine_def gzvm_free_pending_updates_def)
  qed
qed

theorem accel_init_machine_outcome_witness:
  "\<exists>ret w. accel_init_machine kernel_ok example_memory \<lparr>as_view = [], as_ioeventfds = []\<rparr> example_boot = Some (ret, w) \<and>
    (if ret = 0 then vm_accel w \<and> vm_listeners w = gzvm_listeners \<and>
       mem_map (vm_state w) = fold (map_update (vm_cfg example_boot) True) (as_view example_memory) {}
     else ret = -1 \<and> slots (vm_state w) = [] \<and> vm_listeners w = [])"
proof -
  have "boot_ok example_boot" "vm_created kernel_ok (vm_hist example_boot)"
    by (simp_all add: boot_ok_def snapshot_ok_def GZVM_SIGNAL_MAX_REGIONS_def example_boot_def example_vm_def vm_created_def kernel_ok_def)
  from accel_init_machine_outcome [OF this(1) example_spaces this(2)] kernel_ok_accepts show ?thesis by (auto split: if_splits)
qed

section \<open>Demand paging\<close>



text \<open>
  C31.  A bus error outside the ranges of the first 64 slots goes to the default handler and ends
  the process, also when the address is guest memory of a later slot: the table allows 512 slots
  and the snapshot holds 64.
\<close>

theorem fault_beyond_snapshot_is_fatal:
  assumes "snapshot_ok v" "snapshot_current v"
    and "\<forall>x \<in> set (take GZVM_SIGNAL_MAX_REGIONS (mapped_slots (vm_state v))).
           \<not> (slot_mem x \<le> addr \<and> addr < slot_mem x + slot_size x)"
  shows "gzvm_sigsegv_handler K noreplace SIGBUS addr v =
    Some (v\<lparr>vm_hist := vm_hist v @ [SigactionDefault SIGBUS, Raise SIGBUS]\<rparr>)"
proof -
  have "\<not> snapshot_covers v addr"
    using assms(2,3) by (auto simp: snapshot_covers_def snapshot_current_def hva_range_def)
  then show ?thesis by (simp add: gzvm_sigsegv_handler_cases [OF assms(1)])
qed

definition example_slot :: "nat \<Rightarrow> gzvm_slot" where
  "example_slot i = \<lparr>slot_start = of_nat i * 0x1000, slot_size = 0x1000, slot_mem = 0x70000000 + of_nat i * 0x1000,
     slot_id = i, slot_flags = 0\<rparr>"

text \<open>65 slots in use, and the snapshot of the first 64.\<close>

definition example_many :: gzvm_vm where
  "example_many = example_vm\<lparr>vm_state := (vm_state example_vm)\<lparr>slots := map example_slot [0..<65],
       sorted_ids := [0..<65], nr_active_slots := 65, nr_slots_allocated := 65\<rparr>,
     gzvm_signal_hva_ranges := map (\<lambda>i. hva_range (example_slot i)) [0..<64], gzvm_signal_nr_hva_ranges := 64\<rparr>"

lemma example_mem: "\<forall>i \<in> set [0..<65]. slot_mem (example_slot i) \<noteq> 0"
  by code_simp

lemma example_many_mapped: "mapped_slots (vm_state example_many) = map example_slot [0..<65]"
proof -
  have "map (\<lambda>i. map example_slot [0..<65] ! i) [0..<65] = map example_slot [0..<65]"
    by (rule map_cong) simp_all
  then show ?thesis
    using example_mem by (simp add: mapped_slots_def active_ids_def example_many_def filter_map o_def filter_id_conv)
qed

lemma example_many_outside:
  "\<forall>i \<in> set [0..<64]. \<not> (slot_mem (example_slot i) \<le> 0x70040010 \<and>
     0x70040010 < slot_mem (example_slot i) + slot_size (example_slot i))"
  by code_simp

theorem fault_beyond_snapshot_is_fatal_witness:
  "(\<exists>x \<in> set (mapped_slots (vm_state example_many)). slot_mem x \<le> 0x70040010 \<and> 0x70040010 < slot_mem x + slot_size x) \<and>
   gzvm_sigsegv_handler kernel_ok True SIGBUS 0x70040010 example_many =
     Some (example_many\<lparr>vm_hist := vm_hist example_many @ [SigactionDefault SIGBUS, Raise SIGBUS]\<rparr>)"
proof
  have "slot_mem (example_slot 64) \<le> 0x70040010 \<and>
      0x70040010 < slot_mem (example_slot 64) + slot_size (example_slot 64)"
    by (simp add: example_slot_def)
  moreover have "example_slot 64 \<in> set (mapped_slots (vm_state example_many))"
    by (simp add: example_many_mapped)
  ultimately show "\<exists>x \<in> set (mapped_slots (vm_state example_many)).
      slot_mem x \<le> 0x70040010 \<and> 0x70040010 < slot_mem x + slot_size x" by blast
  have tk: "take GZVM_SIGNAL_MAX_REGIONS (mapped_slots (vm_state example_many)) = map example_slot [0..<64]"
    by (simp add: example_many_mapped take_map GZVM_SIGNAL_MAX_REGIONS_def)
  show "gzvm_sigsegv_handler kernel_ok True SIGBUS 0x70040010 example_many =
     Some (example_many\<lparr>vm_hist := vm_hist example_many @ [SigactionDefault SIGBUS, Raise SIGBUS]\<rparr>)"
  proof (rule fault_beyond_snapshot_is_fatal)
    show "snapshot_ok example_many"
      by (simp add: snapshot_ok_def example_many_def GZVM_SIGNAL_MAX_REGIONS_def)
    show "snapshot_current example_many"
      unfolding snapshot_current_def tk by (simp add: example_many_def)
    show "\<forall>x \<in> set (take GZVM_SIGNAL_MAX_REGIONS (mapped_slots (vm_state example_many))).
           \<not> (slot_mem x \<le> 0x70040010 \<and> 0x70040010 < slot_mem x + slot_size x)"
      unfolding tk set_map using example_many_outside by blast
  qed
qed

end
