(* ===== verification/Gzvm_Vcpu.thy ===== *)
theory Gzvm_Vcpu
  imports Gzvm_Memory_Props
begin

text \<open>
  A vCPU thread (\<open>accel/gzvm/gzvm.c\<close>, \<open>accel/gzvm/gzvm-vcpu.c\<close>) and the handlers of the exits it
  takes from the hypervisor (\<open>accel/gzvm/gzvm-mmio.c\<close>), with the requests they make of the main loop
  (\<open>system/cpus.c\<close>, \<open>system/runstate.c\<close>).  The hypervisor's effect on the shared page,
  and QEMU's memory core behind \<open>address_space_rw()\<close>, are parameters.
\<close>

section \<open>State\<close>

definition EXCP_INTERRUPT :: int where "EXCP_INTERRUPT = 0x10000"
definition EXCP_DEBUG :: int where "EXCP_DEBUG = 0x10002"

text \<open>
  The shared page, with the members of its union that the handlers read.  A handler reads the
  member of its exit reason only.
\<close>

record gzvm_vcpu_run =
  exit_reason :: u32
  immediate_exit :: u8
  mmio_phys_addr :: u64
  mmio_data :: "u8 list"
  mmio_size :: u64
  mmio_is_write :: bool
  system_event_type :: u32

definition zero_run :: gzvm_vcpu_run where
  "zero_run = \<lparr>exit_reason = 0, immediate_exit = 0, mmio_phys_addr = 0, mmio_data = replicate 8 0, mmio_size = 0,
     mmio_is_write = False, system_event_type = 0\<rparr>"

text \<open>The causes, states and configured actions that the requests below name.\<close>

datatype ShutdownCause = SHUTDOWN_CAUSE_GUEST_SHUTDOWN | SHUTDOWN_CAUSE_GUEST_RESET | SHUTDOWN_CAUSE_GUEST_PANIC | SHUTDOWN_CAUSE_SUBSYSTEM_RESET
datatype RunState = RUN_STATE_INTERNAL_ERROR | RUN_STATE_GUEST_PANICKED
datatype RebootAction = REBOOT_ACTION_RESET | REBOOT_ACTION_SHUTDOWN
datatype ShutdownAction = SHUTDOWN_ACTION_POWEROFF | SHUTDOWN_ACTION_PAUSE
datatype PanicAction = PANIC_ACTION_PAUSE | PANIC_ACTION_SHUTDOWN | PANIC_ACTION_EXIT_FAILURE | PANIC_ACTION_NONE

record run_actions =
  reboot_action :: RebootAction
  shutdown_action :: ShutdownAction
  panic_action :: PanicAction

datatype sys_request = ShutdownRequest ShutdownCause | ResetRequest ShutdownCause | VmStopRequest RunState | DebugRequest

type_synonym host_memory = "u64 \<Rightarrow> u8"

text \<open>
  The vCPU as its thread sees it: the \<open>GZVCPUState\<close> its \<open>accel\<close> points to (none before it is
  initialised), the fields of \<open>CPUState\<close> the thread uses, whether the thread's \<open>current_cpu\<close> points to
  this vCPU (it is \<open>NULL\<close> otherwise), whether the thread holds the big lock, whether the machine is in
  the running state, the configured actions, the requests made of the main loop, the host's memory
  and the state of the machine's devices.
\<close>

record GZVCPUState =
  vcpu_fd :: int
  vcpu_run :: gzvm_vcpu_run

record 'd vcpu =
  vc_vm :: gzvm_vm
  cpu_index :: nat
  vc_accel :: "GZVCPUState option"
  current_cpu :: bool
  exit_request :: bool
  cpu_halted :: bool
  cpu_stop :: bool
  cpu_stopped :: bool
  cpu_created :: bool
  crash_occurred :: bool
  bql_held :: bool
  runstate_running :: bool
  vc_actions :: run_actions
  vc_requests :: "sys_request list"
  vc_mem :: host_memory
  vc_dev :: 'd

definition bql_lock :: "'d vcpu \<Rightarrow> 'd vcpu option" where
  "bql_lock c = (if bql_held c then None else Some (c\<lparr>bql_held := True\<rparr>))"

definition bql_unlock :: "'d vcpu \<Rightarrow> 'd vcpu option" where
  "bql_unlock c = (if bql_held c then Some (c\<lparr>bql_held := False\<rparr>) else None)"

definition request :: "sys_request \<Rightarrow> 'd vcpu \<Rightarrow> 'd vcpu" where
  "request r c = c\<lparr>vc_requests := vc_requests c @ [r]\<rparr>"

section \<open>Requests to the main loop\<close>

text \<open>
  These run on the vCPU's own thread.  A request is recorded and the main loop notified; the monitor
  events and log lines that go with it are left out.  Stopping the machine from a vCPU thread, where
  \<open>qemu_in_vcpu_thread()\<close> holds, is a request too, after which the vCPU stops itself.
\<close>

definition cpu_stop_current :: "'d vcpu \<Rightarrow> 'd vcpu" where
  "cpu_stop_current c = (if current_cpu c then c\<lparr>cpu_stop := True, exit_request := True\<rparr> else c)"

definition vm_stop :: "RunState \<Rightarrow> 'd vcpu \<Rightarrow> 'd vcpu" where
  "vm_stop st c = cpu_stop_current (request (VmStopRequest st) c)"

definition qemu_system_shutdown_request :: "ShutdownCause \<Rightarrow> 'd vcpu \<Rightarrow> 'd vcpu" where
  "qemu_system_shutdown_request reason c = request (ShutdownRequest reason) c"

text \<open>The accelerator has no \<open>cpus_are_resettable\<close> hook, so that its CPUs count as resettable.\<close>

definition qemu_system_reset_request :: "ShutdownCause \<Rightarrow> 'd vcpu \<Rightarrow> 'd vcpu" where
  "qemu_system_reset_request reason c =
     cpu_stop_current
       (if reboot_action (vc_actions c) = REBOOT_ACTION_SHUTDOWN \<and> reason \<noteq> SHUTDOWN_CAUSE_SUBSYSTEM_RESET
        then request (ShutdownRequest reason) c else request (ResetRequest reason) c)"

definition qemu_system_guest_panicked :: "'d vcpu \<Rightarrow> 'd vcpu" where
  "qemu_system_guest_panicked c =
     (let c = (if current_cpu c then c\<lparr>crash_occurred := True\<rparr> else c); p = panic_action (vc_actions c)
      in if p = PANIC_ACTION_PAUSE \<or> p = PANIC_ACTION_SHUTDOWN \<and> shutdown_action (vc_actions c) = SHUTDOWN_ACTION_PAUSE
         then vm_stop RUN_STATE_GUEST_PANICKED c
         else if p = PANIC_ACTION_SHUTDOWN \<or> p = PANIC_ACTION_EXIT_FAILURE
         then qemu_system_shutdown_request SHUTDOWN_CAUSE_GUEST_PANIC (vm_stop RUN_STATE_GUEST_PANICKED c)
         else c)"

section \<open>Memory-mapped accesses\<close>

datatype MemTxAttrs = SecureAttrs | MEMTXATTRS_UNSPECIFIED

text \<open>
  \<open>address_space_rw()\<close>: from the machine's state and the buffer, whether the access succeeded, the
  buffer and the state afterwards.
\<close>

type_synonym 'd rw_fun =
  "'d \<times> host_memory \<Rightarrow> u64 \<Rightarrow> MemTxAttrs \<Rightarrow> u8 list \<Rightarrow> u64 \<Rightarrow> bool \<Rightarrow> bool \<times> u8 list \<times> 'd \<times> host_memory"

definition mem_read :: "host_memory \<Rightarrow> u64 \<Rightarrow> nat \<Rightarrow> u8 list" where
  "mem_read m a n = map (\<lambda>i. m (a + of_nat i)) [0..<n]"

definition mem_write :: "host_memory \<Rightarrow> u64 \<Rightarrow> u8 list \<Rightarrow> host_memory" where
  "mem_write m a bs x = (if unat (x - a) < length bs then bs ! unat (x - a) else m x)"

definition gzvm_handle_mmio_exit :: "'d rw_fun \<Rightarrow> gzvm_vcpu_run \<Rightarrow> 'd vcpu \<Rightarrow> (int \<times> gzvm_vcpu_run \<times> 'd vcpu) option" where
  "gzvm_handle_mmio_exit rw run c =
     (let addr = mmio_phys_addr run
      in if 8 < mmio_size run then Some (0, run, c)
         else do {
           (slot, c) \<leftarrow>
             (if vm_accel (vc_vm c) then do {
                s \<leftarrow> gzvm_slots_lock (vm_state (vc_vm c));
                slot \<leftarrow> gzvm_find_slot_by_addr_locked s addr;
                s \<leftarrow> gzvm_slots_unlock s;
                Some (case slot of None \<Rightarrow> None | Some x \<Rightarrow> if slot_mem x \<noteq> 0 then Some x else None,
                      c\<lparr>vc_vm := (vc_vm c)\<lparr>vm_state := s\<rparr>\<rparr>)
              }
              else Some (None, c));
           let attrs = (if slot = None then SecureAttrs else MEMTXATTRS_UNSPECIFIED);
           let (ok, data, d, m) = rw (vc_dev c, vc_mem c) addr attrs (mmio_data run) (mmio_size run) (mmio_is_write run);
           let run = run\<lparr>mmio_data := data\<rparr>;
           let c = c\<lparr>vc_dev := d, vc_mem := m\<rparr>;
           if ok then Some (0, run, c)
           else
             (case slot of
                None \<Rightarrow> Some (0, run, c)
              | Some x \<Rightarrow>
                  (let offset = addr - slot_start x
                   in if offset < slot_size x then
                        (let xlen = unat (min (mmio_size run) (slot_size x - offset))
                         in if mmio_is_write run
                            then Some (0, run, c\<lparr>vc_mem := mem_write m (slot_mem x + offset) (take xlen data)\<rparr>)
                            else Some (0, run\<lparr>mmio_data := mem_read m (slot_mem x + offset) xlen @ drop xlen data\<rparr>, c))
                      else Some (0, run, c)))
         })"

section \<open>The other exits\<close>

definition gzvm_handle_system_event :: "gzvm_vcpu_run \<Rightarrow> 'd vcpu \<Rightarrow> int \<times> 'd vcpu" where
  "gzvm_handle_system_event run c =
     (let t = system_event_type run
      in if t = GZVM_SYSTEM_EVENT_SHUTDOWN then (EXCP_INTERRUPT, qemu_system_shutdown_request SHUTDOWN_CAUSE_GUEST_SHUTDOWN c)
         else if t = GZVM_SYSTEM_EVENT_RESET then (EXCP_INTERRUPT, qemu_system_reset_request SHUTDOWN_CAUSE_GUEST_RESET c)
         else if t = GZVM_SYSTEM_EVENT_CRASH then (0, qemu_system_guest_panicked c)
         else if t = GZVM_SYSTEM_EVENT_WAKEUP then (EXCP_INTERRUPT, c\<lparr>cpu_halted := False\<rparr>)
         else if t = GZVM_SYSTEM_EVENT_SUSPEND \<or> t = GZVM_SYSTEM_EVENT_S2IDLE then (EXCP_INTERRUPT, c\<lparr>cpu_halted := True\<rparr>)
         else if t = GZVM_SYSTEM_EVENT_SEV_TERM then (EXCP_INTERRUPT, c)
         else (0, c))"

text \<open>These only report what they were told.\<close>

definition gzvm_handle_fail_entry :: "gzvm_vcpu_run \<Rightarrow> int" where
  "gzvm_handle_fail_entry run = -1"

definition gzvm_handle_internal_error :: "gzvm_vcpu_run \<Rightarrow> int" where
  "gzvm_handle_internal_error run = -1"

definition gzvm_handle_unknown_exit :: "gzvm_vcpu_run \<Rightarrow> int" where
  "gzvm_handle_unknown_exit run = 0"

section \<open>Signals\<close>

text \<open>\<open>GZVCPU(cpu)->run->immediate_exit = v\<close>; a \<open>NULL\<close> pointer is an abort.\<close>

definition set_immediate_exit :: "u8 \<Rightarrow> 'd vcpu \<Rightarrow> 'd vcpu option" where
  "set_immediate_exit b c =
     (case vc_accel c of None \<Rightarrow> None
      | Some a \<Rightarrow> Some (c\<lparr>vc_accel := Some (a\<lparr>vcpu_run := (vcpu_run a)\<lparr>immediate_exit := b\<rparr>\<rparr>)\<rparr>))"

text \<open>The handler of \<open>SIG_IPI\<close> looks at \<open>current_cpu\<close> first; a vCPU that kicks itself does not.\<close>

definition gzvm_ipi_signal :: "'d vcpu \<Rightarrow> 'd vcpu option" where
  "gzvm_ipi_signal c = (if current_cpu c then set_immediate_exit 1 c else Some c)"

definition gzvm_cpu_kick_self :: "'d vcpu \<Rightarrow> 'd vcpu option" where
  "gzvm_cpu_kick_self c = (if current_cpu c then set_immediate_exit 1 c else None)"

text \<open>\<open>pthread_sigmask\<close> with the current mask less \<open>SIG_IPI\<close> unblocks that signal.\<close>

definition gzvm_init_cpu_signals :: "history \<Rightarrow> history" where
  "gzvm_init_cpu_signals h = h @ [SigactionHandler SIG_IPI, SigmaskUnblock [SIG_IPI]]"

partial_function (option) eat_loop :: "kernel \<Rightarrow> history \<Rightarrow> history option" where
  "eat_loop K h =
     (let (a, h) = hcall K SigTimedWait h
      in if ans_ret a < 0 \<and> ans_errno a \<noteq> EAGAIN \<and> ans_errno a \<noteq> EINTR then Some h
         else
           (let (p, h) = hcall K SigPending h
            in if ans_ret p = 0 \<and> ans_out p \<noteq> 0 then eat_loop K h else Some h))"

definition set_hist :: "history \<Rightarrow> 'd vcpu \<Rightarrow> 'd vcpu" where
  "set_hist h c = c\<lparr>vc_vm := (vc_vm c)\<lparr>vm_hist := h\<rparr>\<rparr>"

definition gzvm_eat_signals :: "kernel \<Rightarrow> 'd vcpu \<Rightarrow> 'd vcpu option" where
  "gzvm_eat_signals K c = do {
     c \<leftarrow> set_immediate_exit 0 c;
     h \<leftarrow> eat_loop K (vm_hist (vc_vm c));
     Some (set_hist h c)
   }"

section \<open>Running the vCPU\<close>

text \<open>
  The dispatch on the exit reason.  \<open>guest h run\<close> is what the hypervisor leaves in the shared page
  when it returns from the \<open>GZVM_RUN\<close> that ends the history \<open>h\<close>.
\<close>

type_synonym guest = "history \<Rightarrow> gzvm_vcpu_run \<Rightarrow> gzvm_vcpu_run"

definition handle_exit :: "'d rw_fun \<Rightarrow> GZVCPUState \<Rightarrow> 'd vcpu \<Rightarrow> (int \<times> 'd vcpu) option" where
  "handle_exit rw a c =
     (let run = vcpu_run a; r = exit_reason run
      in if r = GZVM_EXIT_MMIO then do {
           (ret, run, c) \<leftarrow> gzvm_handle_mmio_exit rw run c;
           Some (ret, c\<lparr>vc_accel := Some (a\<lparr>vcpu_run := run\<rparr>)\<rparr>)
         }
         else if r = GZVM_EXIT_SYSTEM_EVENT then Some (gzvm_handle_system_event run c)
         else if r = GZVM_EXIT_FAIL_ENTRY then Some (gzvm_handle_fail_entry run, c)
         else if r = GZVM_EXIT_INTERNAL_ERROR then Some (gzvm_handle_internal_error run, c)
         else if r = GZVM_EXIT_IDLE \<or> r = GZVM_EXIT_IRQ \<or> r = GZVM_EXIT_HYPERCALL \<or> r = GZVM_EXIT_GZ \<or> r = GZVM_EXIT_IPI
           then Some (EXCP_INTERRUPT, c)
         else if r = GZVM_EXIT_DEBUG then Some (EXCP_DEBUG, c)
         else if r = GZVM_EXIT_SHUTDOWN then
           Some (EXCP_INTERRUPT, if cpu_index c = 0 then qemu_system_shutdown_request SHUTDOWN_CAUSE_GUEST_SHUTDOWN c else c)
         else if r = GZVM_EXIT_EXCEPTION then Some (-1, c)
         else if r = 0 then Some (0, c)
         else Some (gzvm_handle_unknown_exit run, c))"

definition gzvm_cpu_exec :: "kernel \<Rightarrow> guest \<Rightarrow> 'd rw_fun \<Rightarrow> 'd vcpu \<Rightarrow> (int \<times> 'd vcpu) option" where
  "gzvm_cpu_exec K guest rw c = do {
     c \<leftarrow> set_immediate_exit 0 c;
     c \<leftarrow> bql_unlock c;
     c \<leftarrow> (if exit_request c then gzvm_cpu_kick_self c else Some c);
     a \<leftarrow> vc_accel c;
     let (ans, h) = hcall K (VcpuIoctl (vcpu_fd a) (GZVM_RUN (immediate_exit (vcpu_run a)))) (vm_hist (vc_vm c));
     let a = a\<lparr>vcpu_run := guest h (vcpu_run a)\<rparr>;
     let c = (set_hist h c)\<lparr>vc_accel := Some a\<rparr>;
     c \<leftarrow> bql_lock c;
     let c = c\<lparr>exit_request := False\<rparr>;
     if ans_ret ans < 0 then
       (if ans_errno ans = EINTR \<or> ans_errno ans = EAGAIN then do {
          c \<leftarrow> gzvm_eat_signals K c;
          Some (EXCP_INTERRUPT, c)
        }
        else Some (-1, c))
     else handle_exit rw a c
   }"

text \<open>
  What the loop of the thread does with the result.
\<close>

definition cpu_handle_guest_debug :: "'d vcpu \<Rightarrow> 'd vcpu" where
  "cpu_handle_guest_debug c = (request DebugRequest c)\<lparr>cpu_stopped := True\<rparr>"

definition handle_result :: "int \<Rightarrow> 'd vcpu \<Rightarrow> 'd vcpu" where
  "handle_result ret c =
     (if ret = EXCP_DEBUG then cpu_handle_guest_debug c
      else if ret < 0 then vm_stop RUN_STATE_INTERNAL_ERROR c else c)"

section \<open>The thread's life\<close>

definition gzvm_init_vcpu :: "kernel \<Rightarrow> 'd vcpu \<Rightarrow> int \<times> 'd vcpu" where
  "gzvm_init_vcpu K c =
     (let (a, v) = gzvm_vm_ioctl K (GZVM_CREATE_VCPU (cpu_index c)) (vc_vm c)
      in if ans_ret a < 0 then (ans_ret a, c\<lparr>vc_vm := v\<rparr>)
         else (0, c\<lparr>vc_vm := v, vc_accel := Some \<lparr>vcpu_fd = ans_ret a, vcpu_run = zero_run\<rparr>\<rparr>))"

text \<open>The thread up to the point where the kick signal may arrive, and the creation of the vCPU in it.\<close>

definition thread_attach :: "'d vcpu \<Rightarrow> 'd vcpu option" where
  "thread_attach c = do {
     c \<leftarrow> bql_lock c;
     Some (set_hist (gzvm_init_vcpu_sigsegv (gzvm_init_cpu_signals (vm_hist (vc_vm c)))) (c\<lparr>current_cpu := True\<rparr>))
   }"

definition gzvm_cpu_thread_init :: "kernel \<Rightarrow> 'd vcpu \<Rightarrow> (bool \<times> 'd vcpu) option" where
  "gzvm_cpu_thread_init K c = do {
     c \<leftarrow> thread_attach c;
     let (r, c) = gzvm_init_vcpu K c;
     if r \<noteq> 0 then do {
       c \<leftarrow> bql_unlock (c\<lparr>cpu_created := False\<rparr>);
       Some (False, c)
     }
     else Some (True, c\<lparr>cpu_created := True\<rparr>)
   }"

definition gzvm_cpu_thread_cleanup :: "'d vcpu \<Rightarrow> 'd vcpu option" where
  "gzvm_cpu_thread_cleanup c =
     (case vc_accel c of None \<Rightarrow> None
      | Some a \<Rightarrow>
          bql_unlock ((set_hist (vm_hist (vc_vm c) @ [Close (vcpu_fd a)]) c)\<lparr>vc_accel := None, cpu_created := False\<rparr>))"

text \<open>
  Creating a vCPU (\<open>system/cpus.c\<close>): the thread is started and the caller, which gives up the big
  lock meanwhile, waits until it is marked created; it never returns where that does not happen.
  The thread changes nothing the caller waits for after its initialisation failed.
\<close>

partial_function (option) wait_created :: "'d vcpu \<Rightarrow> 'd vcpu option" where
  "wait_created c = (if cpu_created c then Some c else wait_created c)"

definition qemu_init_vcpu :: "kernel \<Rightarrow> 'd vcpu \<Rightarrow> 'd vcpu option" where
  "qemu_init_vcpu K c = do {
     (started, c) \<leftarrow> gzvm_cpu_thread_init K c;
     wait_created c
   }"

text \<open>
  A turn of the thread's loop: whether the CPU can run, the run, and the wait after it, where a stop
  request is served.  The wait ends when the CPU has something to do; the kick flag, queued work and
  the end of the loop for a CPU that is unplugged are in the theory of the kick.
\<close>

definition vcpu_can_run :: "'d vcpu \<Rightarrow> bool" where
  "vcpu_can_run c = (if cpu_stop c then False else if cpu_stopped c \<or> \<not> runstate_running c then False else True)"

definition vcpu_turn :: "kernel \<Rightarrow> guest \<Rightarrow> 'd rw_fun \<Rightarrow> 'd vcpu \<Rightarrow> 'd vcpu option" where
  "vcpu_turn K guest rw c =
     (if vcpu_can_run c then do {
        (ret, c) \<leftarrow> gzvm_cpu_exec K guest rw c;
        Some (handle_result ret c)
      }
      else Some c)"

definition vcpu_wait :: "'d vcpu \<Rightarrow> 'd vcpu" where
  "vcpu_wait c = (if cpu_stop c then c\<lparr>cpu_stop := False, cpu_stopped := True\<rparr> else c)"

text \<open>
  The events of a vCPU's life: a turn of its thread, and what other threads do to it between two
  turns, while it is parked or in the hypervisor.
\<close>

datatype 'd vcpu_event = LoopTurn guest "'d rw_fun" | CpuExit | CpuPause | CpuResume | RunStateIs bool

fun vcpu_step :: "kernel \<Rightarrow> 'd vcpu_event \<Rightarrow> 'd vcpu \<Rightarrow> 'd vcpu option" where
  "vcpu_step K (LoopTurn guest rw) c = do { c \<leftarrow> vcpu_turn K guest rw c; Some (vcpu_wait c) }"
| "vcpu_step K CpuExit c = Some (c\<lparr>exit_request := True\<rparr>)"
| "vcpu_step K CpuPause c = Some (c\<lparr>cpu_stop := True\<rparr>)"
| "vcpu_step K CpuResume c = Some (c\<lparr>cpu_stop := False, cpu_stopped := False\<rparr>)"
| "vcpu_step K (RunStateIs b) c = Some (c\<lparr>runstate_running := b\<rparr>)"

section \<open>Draining the signal\<close>

definition ipi_again :: "kernel \<Rightarrow> history \<Rightarrow> bool" where
  "ipi_again K h \<longleftrightarrow>
     \<not> (ans_ret (K h SigTimedWait) < 0 \<and> ans_errno (K h SigTimedWait) \<noteq> EAGAIN \<and> ans_errno (K h SigTimedWait) \<noteq> EINTR) \<and>
     ans_ret (K (h @ [SigTimedWait]) SigPending) = 0 \<and> ans_out (K (h @ [SigTimedWait]) SigPending) \<noteq> 0"

definition rounds :: "nat \<Rightarrow> history" where
  "rounds n = concat (replicate n [SigTimedWait, SigPending])"

lemma rounds_simps [simp]: "rounds 0 = []" "rounds (Suc n) = SigTimedWait # SigPending # rounds n"
  by (simp_all add: rounds_def)

lemma eat_loop_again: "ipi_again K h \<Longrightarrow> eat_loop K h = eat_loop K (h @ [SigTimedWait, SigPending])"
  by (subst eat_loop.simps) (auto simp: ipi_again_def hcall_def)

lemma eat_loop_last:
  "\<not> ipi_again K h \<Longrightarrow> eat_loop K h = Some (h @ [SigTimedWait]) \<or> eat_loop K h = Some (h @ [SigTimedWait, SigPending])"
  by (subst (1 2) eat_loop.simps) (auto simp: ipi_again_def hcall_def)

lemma eat_loop_rounds:
  "(\<And>k. k < n \<Longrightarrow> ipi_again K (h @ rounds k)) \<Longrightarrow> eat_loop K h = eat_loop K (h @ rounds n)"
proof (induction n arbitrary: h)
  case 0
  then show ?case by simp
next
  case (Suc n)
  have "ipi_again K h" using Suc.prems [of 0] by simp
  moreover have "ipi_again K ((h @ [SigTimedWait, SigPending]) @ rounds k)" if "k < n" for k
    using Suc.prems [of "Suc k"] that by simp
  ultimately show ?case using eat_loop_again Suc.IH [of "h @ [SigTimedWait, SigPending]"] by simp
qed

text \<open>The loop ends, from any history on.\<close>

definition drains :: "kernel \<Rightarrow> bool" where
  "drains K \<longleftrightarrow> (\<forall>h. \<exists>n. \<not> ipi_again K (h @ rounds n))"

lemma drains_kernel_ok [simp]: "drains kernel_ok"
  by (simp add: drains_def ipi_again_def kernel_ok_def)

lemma eat_loop_result:
  assumes "\<exists>n. \<not> ipi_again K (h @ rounds n)"
  obtains m h' where "eat_loop K h = Some h'" "\<not> ipi_again K (h @ rounds m)" "\<And>k. k < m \<Longrightarrow> ipi_again K (h @ rounds k)"
    "h' = h @ rounds m @ [SigTimedWait] \<or> h' = h @ rounds m @ [SigTimedWait, SigPending]"
proof -
  define m where "m = (LEAST n. \<not> ipi_again K (h @ rounds n))"
  have m: "\<not> ipi_again K (h @ rounds m)" "\<And>k. k < m \<Longrightarrow> ipi_again K (h @ rounds k)"
    using LeastI_ex [OF assms] not_less_Least by (auto simp: m_def)
  from eat_loop_last [OF m(1)] eat_loop_rounds [OF m(2)] show thesis using that [of _ m] m by auto
qed

text \<open>
  The host's side of the kick signal: \<open>pend h\<close> says whether the signal is pending after the calls \<open>h\<close>.
  A \<open>sigtimedwait()\<close> without waiting time takes a pending signal, or fails with \<open>EAGAIN\<close> where there is
  none, or is interrupted; \<open>sigpending()\<close> tells whether the signal is pending.
\<close>

definition ipi_host :: "kernel \<Rightarrow> (history \<Rightarrow> bool) \<Rightarrow> bool" where
  "ipi_host K pend \<longleftrightarrow>
     (\<forall>h. (if 0 \<le> ans_ret (K h SigTimedWait) then pend h
           else ans_errno (K h SigTimedWait) = EAGAIN \<and> \<not> pend h \<or> ans_errno (K h SigTimedWait) = EINTR) \<and>
          ans_ret (K h SigPending) = 0 \<and> (ans_out (K h SigPending) \<noteq> 0) = pend h)"

text \<open>The rounds of the loop in which a signal arrives, or is left, between the wait and the test.\<close>

definition late_rounds :: "(history \<Rightarrow> bool) \<Rightarrow> history \<Rightarrow> nat set" where
  "late_rounds pend h = {k. pend (h @ rounds k @ [SigTimedWait])}"

lemma ipi_host_again: "ipi_host K pend \<Longrightarrow> ipi_again K (h @ rounds k) \<longleftrightarrow> k \<in> late_rounds pend h"
  unfolding ipi_host_def ipi_again_def late_rounds_def by (metis append.assoc linorder_not_le mem_Collect_eq)


lemma finite_gap: "finite (A :: nat set) \<Longrightarrow> \<exists>m \<le> card A. m \<notin> A"
  by (metis card_atMost card_mono finite_subset lessI less_le_not_le linorder_not_le not_less_eq_eq subsetI atMost_iff)


lemma ipi_host_drains:
  assumes "ipi_host K pend" "\<And>h. finite (late_rounds pend h)"
  shows "drains K"
  unfolding drains_def using finite_gap [OF assms(2)] ipi_host_again [OF assms(1)] by blast

section \<open>What a turn does\<close>

definition vcpu_ready :: "kernel \<Rightarrow> 'd vcpu \<Rightarrow> bool" where
  "vcpu_ready K c \<longleftrightarrow> mem_ready K (vc_vm c) \<and> bql_held c \<and> current_cpu c \<and> vc_accel c \<noteq> None"

text \<open>Calls that neither create a VM nor set a memory region leave the memory listener's invariant alone.\<close>

definition not_region :: "host_call \<Rightarrow> bool" where
  "not_region c \<longleftrightarrow> (\<forall>vm g. c \<noteq> VmIoctl vm (GZVM_SET_USER_MEMORY_REGION g)) \<and> (\<forall>fd. c \<noteq> CreateVm fd)"

lemma hist_ready:
  assumes "list_all not_region q"
  shows "mem_ready K (v\<lparr>vm_hist := vm_hist v @ q\<rparr>) = mem_ready K v"
proof -
  have "kernel_view K (h @ q) = kernel_view K h" for h using assms
  proof (induction q arbitrary: h)
    case (Cons c q)
    then have "view_step K h c (kernel_view K h) = kernel_view K h"
      by (auto simp: view_step_def not_region_def split: host_call.splits vm_ioctl.splits)
    with Cons show ?case using kernel_view_snoc [of K h c] by (metis append.assoc append_Cons append_Nil list.pred_inject(2))
  qed simp
  then show ?thesis
    by (simp add: mem_ready_def mem_inv_def snapshot_ok_def snapshot_current_def kernel_agrees_def)
qed

text \<open>The slot that backs an address in host memory.\<close>

definition backing :: "gzvm_vm \<Rightarrow> u64 \<Rightarrow> gzvm_slot option" where
  "backing v a = (case table_lookup (lock_table (vm_state v)) a of None \<Rightarrow> None
     | Some x \<Rightarrow> if slot_mem x \<noteq> 0 then Some x else None)"

lemma backing_slot:
  assumes "mem_ready K v" "backing v a = Some x"
  shows "x \<in> active_slots (vm_state v)" "in_slot a x" "slot_mem x \<noteq> 0" "a - slot_start x < slot_size x"
proof -
  have wf: "slots_wf (lock_table (vm_state v))" "slots_locked (lock_table (vm_state v))"
    using assms(1) by (simp_all add: mem_ready_def mem_inv_def)
  obtain r where "gzvm_find_slot_by_addr_locked (lock_table (vm_state v)) a = Some r"
    using gzvm_find_slot_returns [of "lock_table (vm_state v)" a] wf by blast
  then have "gzvm_find_slot_by_addr_locked (lock_table (vm_state v)) a = Some (Some x)" and "slot_mem x \<noteq> 0"
    using assms(2) by (auto simp: backing_def table_lookup_def split: option.splits if_splits)
  from gzvm_find_slot_sound [OF wf this(1)] this(2) show "x \<in> active_slots (vm_state v)" "in_slot a x" "slot_mem x \<noteq> 0"
    by simp_all
  then show "a - slot_start x < slot_size x"
    by (auto simp: in_slot_def word_less_nat_alt unat_sub word_le_nat_alt)
qed

lemma mmio_exit:
  fixes rw :: "'d rw_fun" and c :: "'d vcpu"
  assumes "mem_ready K (vc_vm c)" "mmio_size run \<le> 8"
  defines "addr \<equiv> mmio_phys_addr run"
  defines "slot \<equiv> backing (vc_vm c) addr"
  defines "res \<equiv> rw (vc_dev c, vc_mem c) addr (if slot = None then SecureAttrs else MEMTXATTRS_UNSPECIFIED)
    (mmio_data run) (mmio_size run) (mmio_is_write run)"
  shows "gzvm_handle_mmio_exit rw run c =
    (case res of (ok, data, d, m) \<Rightarrow>
       (let c' = c\<lparr>vc_dev := d, vc_mem := m\<rparr>; run' = run\<lparr>mmio_data := data\<rparr>
        in if ok \<or> slot = None then Some (0, run', c')
           else (let x = the slot; xlen = unat (min (mmio_size run) (slot_size x - (addr - slot_start x)))
                 in if mmio_is_write run
                    then Some (0, run', c'\<lparr>vc_mem := mem_write m (slot_mem x + (addr - slot_start x)) (take xlen data)\<rparr>)
                    else Some (0, run'\<lparr>mmio_data := mem_read m (slot_mem x + (addr - slot_start x)) xlen @ drop xlen data\<rparr>, c'))))"
proof -
  let ?s = "vm_state (vc_vm c)"
  have ready: "vm_accel (vc_vm c)" "slots_lock ?s = MutexUnlocked" "slots_wf (lock_table ?s)" "slots_locked (lock_table ?s)"
    using assms(1) by (simp_all add: mem_ready_def mem_inv_def)
  obtain r where r: "gzvm_find_slot_by_addr_locked (lock_table ?s) addr = Some r"
    using gzvm_find_slot_returns [of "lock_table ?s" addr] ready(3,4) by blast
  have lock: "gzvm_slots_lock ?s = Some (lock_table ?s)" "gzvm_slots_unlock (lock_table ?s) = Some ?s"
    using ready(2) by (simp_all add: gzvm_slots_lock_def gzvm_slots_unlock_def lock_table_def)
  have slot: "slot = (case r of None \<Rightarrow> None | Some x \<Rightarrow> if slot_mem x \<noteq> 0 then Some x else None)"
    using r by (simp add: slot_def backing_def table_lookup_def)
  have same: "c\<lparr>vc_vm := (vc_vm c)\<lparr>vm_state := ?s\<rparr>\<rparr> = c" by simp
  have size: "\<not> 8 < mmio_size run" using assms(2) by simp
  show ?thesis
    unfolding gzvm_handle_mmio_exit_def Let_def if_not_P [OF size] addr_def [symmetric]
    using ready(1) lock r backing_slot(4) [OF assms(1), of addr]
    by (auto simp: slot [symmetric] res_def slot_def [symmetric] split: prod.splits option.splits)
qed

lemma mmio_exit_returns:
  assumes "mem_ready K (vc_vm c)"
  obtains run' d m where "gzvm_handle_mmio_exit rw run c = Some (0, run', c\<lparr>vc_dev := d, vc_mem := m\<rparr>)"
proof (cases "mmio_size run \<le> 8")
  case True
  show thesis
    using that mmio_exit [OF assms True, of rw] by (cases "rw (vc_dev c, vc_mem c) (mmio_phys_addr run)
      (if backing (vc_vm c) (mmio_phys_addr run) = None then SecureAttrs else MEMTXATTRS_UNSPECIFIED)
      (mmio_data run) (mmio_size run) (mmio_is_write run)") (auto simp: Let_def split: if_splits)
next
  case False
  then have "gzvm_handle_mmio_exit rw run c = Some (0, run, c\<lparr>vc_dev := vc_dev c, vc_mem := vc_mem c\<rparr>)"
    by (simp add: gzvm_handle_mmio_exit_def not_le)
  then show thesis by (rule that)
qed

text \<open>The requests after which the vCPU stops itself; a reset stops it also where it is configured to shut down.\<close>

fun stops_self :: "sys_request \<Rightarrow> bool" where
  "stops_self (ResetRequest reason) = True"
| "stops_self (VmStopRequest st) = True"
| "stops_self (ShutdownRequest reason) = (reason = SHUTDOWN_CAUSE_GUEST_RESET)"
| "stops_self DebugRequest = False"

text \<open>What the vCPU keeps when it makes the requests \<open>q\<close>, and what they do to it.\<close>

definition asks :: "sys_request list \<Rightarrow> 'd vcpu \<Rightarrow> 'd vcpu \<Rightarrow> bool" where
  "asks q c c' \<longleftrightarrow> vc_vm c' = vc_vm c \<and> bql_held c' = bql_held c \<and> current_cpu c' = current_cpu c \<and>
     cpu_index c' = cpu_index c \<and> runstate_running c' = runstate_running c \<and>
     map_option vcpu_fd (vc_accel c') = map_option vcpu_fd (vc_accel c) \<and>
     vc_requests c' = vc_requests c @ q \<and> exit_request c' = (exit_request c \<or> list_ex stops_self q) \<and>
     cpu_stop c' = (cpu_stop c \<or> list_ex stops_self q) \<and> cpu_stopped c' = (cpu_stopped c \<or> DebugRequest \<in> set q)"

lemma asks_trans: "asks q c c' \<Longrightarrow> asks q' c' c'' \<Longrightarrow> asks (q @ q') c c''"
  by (auto simp: asks_def)

definition panic_requests :: "run_actions \<Rightarrow> sys_request list" where
  "panic_requests acts =
     (case panic_action acts of
        PANIC_ACTION_PAUSE \<Rightarrow> [VmStopRequest RUN_STATE_GUEST_PANICKED]
      | PANIC_ACTION_SHUTDOWN \<Rightarrow> VmStopRequest RUN_STATE_GUEST_PANICKED #
          (if shutdown_action acts = SHUTDOWN_ACTION_PAUSE then [] else [ShutdownRequest SHUTDOWN_CAUSE_GUEST_PANIC])
      | PANIC_ACTION_EXIT_FAILURE \<Rightarrow> [VmStopRequest RUN_STATE_GUEST_PANICKED, ShutdownRequest SHUTDOWN_CAUSE_GUEST_PANIC]
      | PANIC_ACTION_NONE \<Rightarrow> [])"

definition event_requests :: "run_actions \<Rightarrow> u32 \<Rightarrow> sys_request list" where
  "event_requests acts t =
     (if t = GZVM_SYSTEM_EVENT_SHUTDOWN then [ShutdownRequest SHUTDOWN_CAUSE_GUEST_SHUTDOWN]
      else if t = GZVM_SYSTEM_EVENT_RESET then
        [if reboot_action acts = REBOOT_ACTION_SHUTDOWN then ShutdownRequest SHUTDOWN_CAUSE_GUEST_RESET else ResetRequest SHUTDOWN_CAUSE_GUEST_RESET]
      else if t = GZVM_SYSTEM_EVENT_CRASH then panic_requests acts else [])"

definition exit_requests :: "'d vcpu \<Rightarrow> gzvm_vcpu_run \<Rightarrow> sys_request list" where
  "exit_requests c run =
     (if exit_reason run = GZVM_EXIT_SYSTEM_EVENT then event_requests (vc_actions c) (system_event_type run)
      else if exit_reason run = GZVM_EXIT_SHUTDOWN \<and> cpu_index c = 0 then [ShutdownRequest SHUTDOWN_CAUSE_GUEST_SHUTDOWN] else [])"

text \<open>Whether the CPU is halted after an exit.\<close>

definition exit_halts :: "gzvm_vcpu_run \<Rightarrow> bool \<Rightarrow> bool" where
  "exit_halts run halted =
     (if exit_reason run = GZVM_EXIT_SYSTEM_EVENT
      then system_event_type run \<in> {GZVM_SYSTEM_EVENT_SUSPEND, GZVM_SYSTEM_EVENT_S2IDLE} \<or>
        halted \<and> system_event_type run \<noteq> GZVM_SYSTEM_EVENT_WAKEUP
      else halted)"

lemmas request_defs = request_def cpu_stop_current_def vm_stop_def qemu_system_shutdown_request_def qemu_system_reset_request_def
  qemu_system_guest_panicked_def

lemma system_event_asks:
  assumes "current_cpu c" "gzvm_handle_system_event run c = (ret, c')"
  shows "asks (event_requests (vc_actions c) (system_event_type run)) c c'" "0 \<le> ret" "ret \<noteq> EXCP_DEBUG"
    "cpu_halted c' = (system_event_type run \<in> {GZVM_SYSTEM_EVENT_SUSPEND, GZVM_SYSTEM_EVENT_S2IDLE} \<or>
        cpu_halted c \<and> system_event_type run \<noteq> GZVM_SYSTEM_EVENT_WAKEUP)"
  using assms
  by (cases "panic_action (vc_actions c)";
      auto simp: gzvm_handle_system_event_def event_requests_def panic_requests_def asks_def request_defs Let_def EXCP_DEBUG_def
        EXCP_INTERRUPT_def gzvm_system_event_defs split: if_splits)+

abbreviation error_exits :: "u32 set" where
  "error_exits \<equiv> {GZVM_EXIT_FAIL_ENTRY, GZVM_EXIT_INTERNAL_ERROR, GZVM_EXIT_EXCEPTION}"

lemma handle_exit_outcome:
  assumes "mem_ready K (vc_vm c)" "vc_accel c = Some a" "current_cpu c"
  obtains ret c' where "handle_exit rw a c = Some (ret, c')" "asks (exit_requests c (vcpu_run a)) c c'"
    "cpu_halted c' = exit_halts (vcpu_run a) (cpu_halted c)"
    "ret < 0 \<longleftrightarrow> exit_reason (vcpu_run a) \<in> error_exits" "ret = EXCP_DEBUG \<longleftrightarrow> exit_reason (vcpu_run a) = GZVM_EXIT_DEBUG"
proof -
  consider (mmio) "exit_reason (vcpu_run a) = GZVM_EXIT_MMIO" | (event) "exit_reason (vcpu_run a) = GZVM_EXIT_SYSTEM_EVENT"
    | (other) "exit_reason (vcpu_run a) \<noteq> GZVM_EXIT_MMIO" "exit_reason (vcpu_run a) \<noteq> GZVM_EXIT_SYSTEM_EVENT" by blast
  then show thesis
  proof cases
    case mmio
    obtain run' d m where "gzvm_handle_mmio_exit rw (vcpu_run a) c = Some (0, run', c\<lparr>vc_dev := d, vc_mem := m\<rparr>)"
      using mmio_exit_returns [OF assms(1)] by blast
    with mmio have "handle_exit rw a c = Some (0, c\<lparr>vc_dev := d, vc_mem := m, vc_accel := Some (a\<lparr>vcpu_run := run'\<rparr>)\<rparr>)"
      by (simp add: handle_exit_def)
    from that [OF this] mmio assms(2) show thesis
      by (simp add: asks_def exit_requests_def exit_halts_def EXCP_DEBUG_def gzvm_exit_defs)
  next
    case event
    obtain ret c' where e: "gzvm_handle_system_event (vcpu_run a) c = (ret, c')" by (cases "gzvm_handle_system_event (vcpu_run a) c")
    have "handle_exit rw a c = Some (ret, c')" using event e by (simp add: handle_exit_def gzvm_exit_defs)
    from that [OF this] event system_event_asks [OF assms(3) e] show thesis
      by (auto simp: exit_requests_def exit_halts_def gzvm_exit_defs)
  next
    case other
    show thesis using other
      by (intro that [of "fst (the (handle_exit rw a c))" "snd (the (handle_exit rw a c))"])
        (simp_all add: handle_exit_def asks_def exit_requests_def exit_halts_def request_defs Let_def EXCP_DEBUG_def EXCP_INTERRUPT_def
          gzvm_handle_fail_entry_def gzvm_handle_internal_error_def gzvm_handle_unknown_exit_def gzvm_exit_defs)
  qed
qed

text \<open>The state in which the hypervisor has returned.\<close>

definition run_call :: "'d vcpu \<Rightarrow> GZVCPUState \<Rightarrow> host_call" where
  "run_call c a = VcpuIoctl (vcpu_fd a) (GZVM_RUN (of_bool (exit_request c)))"

definition run_page :: "guest \<Rightarrow> 'd vcpu \<Rightarrow> GZVCPUState \<Rightarrow> gzvm_vcpu_run" where
  "run_page guest c a = guest (vm_hist (vc_vm c) @ [run_call c a]) ((vcpu_run a)\<lparr>immediate_exit := of_bool (exit_request c)\<rparr>)"

definition after_run :: "guest \<Rightarrow> 'd vcpu \<Rightarrow> GZVCPUState \<Rightarrow> 'd vcpu" where
  "after_run guest c a =
     (set_hist (vm_hist (vc_vm c) @ [run_call c a]) c)\<lparr>vc_accel := Some (a\<lparr>vcpu_run := run_page guest c a\<rparr>),
       bql_held := True, exit_request := False\<rparr>"

lemma cpu_exec_unfold:
  assumes "bql_held c" "current_cpu c" "vc_accel c = Some a"
  shows "gzvm_cpu_exec K guest rw c =
    (let ans = K (vm_hist (vc_vm c)) (run_call c a); c' = after_run guest c a
     in if ans_ret ans < 0 then
          (if ans_errno ans = EINTR \<or> ans_errno ans = EAGAIN
           then do { c \<leftarrow> gzvm_eat_signals K c'; Some (EXCP_INTERRUPT, c) }
           else Some (-1, c'))
        else handle_exit rw (a\<lparr>vcpu_run := run_page guest c a\<rparr>) c')"
  using assms
  by (cases "exit_request c")
    (simp_all add: gzvm_cpu_exec_def set_immediate_exit_def bql_unlock_def bql_lock_def gzvm_cpu_kick_self_def hcall_def
      run_call_def run_page_def after_run_def set_hist_def Let_def)

definition wait_calls :: "host_call list \<Rightarrow> bool" where
  "wait_calls q \<longleftrightarrow> list_all (\<lambda>c. c = SigTimedWait \<or> c = SigPending) q"

lemma wait_calls_rounds [simp]: "wait_calls (rounds n)"
  by (induction n) (simp_all add: wait_calls_def)

lemma eat_signals_outcome:
  assumes "drains K" "vc_accel c = Some a"
  obtains q where "gzvm_eat_signals K c = Some (set_hist (vm_hist (vc_vm c) @ q)
    (c\<lparr>vc_accel := Some (a\<lparr>vcpu_run := (vcpu_run a)\<lparr>immediate_exit := 0\<rparr>\<rparr>)\<rparr>))" "wait_calls q"
proof -
  have "\<exists>n. \<not> ipi_again K (vm_hist (vc_vm c) @ rounds n)" using assms(1) by (simp add: drains_def)
  then obtain m h' where m: "eat_loop K (vm_hist (vc_vm c)) = Some h'"
    "h' = vm_hist (vc_vm c) @ rounds m @ [SigTimedWait] \<or> h' = vm_hist (vc_vm c) @ rounds m @ [SigTimedWait, SigPending]"
    by (rule eat_loop_result) blast
  then obtain q where q: "h' = vm_hist (vc_vm c) @ q" "wait_calls q"
    using wait_calls_rounds [of m] by (auto simp: wait_calls_def)
  with m(1) assms(2) show thesis
    by (intro that [of q]) (simp_all add: gzvm_eat_signals_def set_immediate_exit_def)
qed

text \<open>One run, whatever the hypervisor answers.\<close>

definition interrupted :: "host_answer \<Rightarrow> bool" where
  "interrupted ans \<longleftrightarrow> ans_ret ans < 0 \<and> (ans_errno ans = EINTR \<or> ans_errno ans = EAGAIN)"

definition fatal_run :: "host_answer \<Rightarrow> bool" where
  "fatal_run ans \<longleftrightarrow> ans_ret ans < 0 \<and> ans_errno ans \<noteq> EINTR \<and> ans_errno ans \<noteq> EAGAIN"

lemma cpu_exec_outcome:
  fixes guest :: guest and rw :: "'d rw_fun" and c :: "'d vcpu"
  assumes "vcpu_ready K c" "drains K" "vc_accel c = Some a"
  defines "ans \<equiv> K (vm_hist (vc_vm c)) (run_call c a)" and "run \<equiv> run_page guest c a"
  obtains ret c' w where "gzvm_cpu_exec K guest rw c = Some (ret, c')" "mem_ready K (vc_vm c')"
    "vm_hist (vc_vm c') = vm_hist (vc_vm c) @ run_call c a # w" "wait_calls w" "w = [] \<or> interrupted ans"
    "asks (if 0 \<le> ans_ret ans then exit_requests c run else []) (c\<lparr>exit_request := False, vc_vm := vc_vm c'\<rparr>) c'"
    "cpu_halted c' = (if 0 \<le> ans_ret ans then exit_halts run (cpu_halted c) else cpu_halted c)"
    "ret < 0 \<longleftrightarrow> fatal_run ans \<or> 0 \<le> ans_ret ans \<and> exit_reason run \<in> error_exits"
    "ret = EXCP_DEBUG \<longleftrightarrow> 0 \<le> ans_ret ans \<and> exit_reason run = GZVM_EXIT_DEBUG"
proof -
  let ?c = "after_run guest c a" and ?a = "a\<lparr>vcpu_run := run\<rparr>"
  have held: "bql_held c" "current_cpu c" "mem_ready K (vc_vm c)" using assms(1) by (simp_all add: vcpu_ready_def)
  note unf = cpu_exec_unfold [OF held(1,2) assms(3), of K guest rw, folded ans_def run_def]
  have calls: "list_all not_region (run_call c a # q)" if "wait_calls q" for q
    using that by (auto simp: wait_calls_def not_region_def run_call_def list_all_iff)
  have vm: "vc_vm ?c = (vc_vm c)\<lparr>vm_hist := vm_hist (vc_vm c) @ [run_call c a]\<rparr>"
    by (simp add: after_run_def set_hist_def)
  have ready: "mem_ready K (vc_vm ?c)" unfolding vm using hist_ready [of "[run_call c a]"] calls [of "[]"] held(3)
    by (simp add: wait_calls_def)
  have fields: "vc_accel ?c = Some ?a" "current_cpu ?c" by (simp_all add: after_run_def set_hist_def run_def held)
  have same: "exit_requests ?c = exit_requests c" "cpu_halted ?c = cpu_halted c"
    by (simp_all add: fun_eq_iff exit_requests_def after_run_def set_hist_def)
  have base: "asks q ?c c' \<Longrightarrow> asks q (c\<lparr>exit_request := False, vc_vm := vc_vm c'\<rparr>) c'" for q c'
    using held assms(3) by (simp add: asks_def after_run_def set_hist_def)
  consider (eintr) "interrupted ans" | (fatal) "fatal_run ans" | (ok) "0 \<le> ans_ret ans"
    by (force simp: fatal_run_def interrupted_def)
  then show thesis
  proof cases
    case eintr
    obtain q where q: "gzvm_eat_signals K ?c = Some (set_hist (vm_hist (vc_vm ?c) @ q)
        (?c\<lparr>vc_accel := Some (?a\<lparr>vcpu_run := (vcpu_run ?a)\<lparr>immediate_exit := 0\<rparr>\<rparr>)\<rparr>))" "wait_calls q"
      using eat_signals_outcome [OF assms(2) fields(1)] by blast
    have "mem_ready K ((vc_vm c)\<lparr>vm_hist := vm_hist (vc_vm c) @ run_call c a # q\<rparr>)"
      using hist_ready [OF calls [OF q(2)]] held(3) by simp
    with eintr q fields vm unf same held assms(3) show thesis
      by (intro that [of EXCP_INTERRUPT "set_hist (vm_hist (vc_vm ?c) @ q)
        (?c\<lparr>vc_accel := Some (?a\<lparr>vcpu_run := (vcpu_run ?a)\<lparr>immediate_exit := 0\<rparr>\<rparr>)\<rparr>)" q])
        (auto simp: set_hist_def fatal_run_def interrupted_def EXCP_INTERRUPT_def EXCP_DEBUG_def asks_def after_run_def)
  next
    case fatal
    have "asks [] ?c ?c" by (simp add: asks_def)
    with fatal vm unf ready same base [of "[]" ?c] show thesis
      by (intro that [of "-1" ?c "[]"]) (auto simp: fatal_run_def EXCP_DEBUG_def wait_calls_def)
  next
    case ok
    obtain ret c' where e: "handle_exit rw ?a ?c = Some (ret, c')" "asks (exit_requests ?c (vcpu_run ?a)) ?c c'"
      "cpu_halted c' = exit_halts (vcpu_run ?a) (cpu_halted ?c)"
      "ret < 0 \<longleftrightarrow> exit_reason (vcpu_run ?a) \<in> error_exits" "ret = EXCP_DEBUG \<longleftrightarrow> exit_reason (vcpu_run ?a) = GZVM_EXIT_DEBUG"
      using handle_exit_outcome [OF ready fields] by blast
    have "vc_vm c' = vc_vm ?c" using e(2) by (simp add: asks_def)
    with ok e(1,3,4,5) base [OF e(2)] same vm unf ready show thesis
      by (intro that [of ret c' "[]"]) (auto simp: fatal_run_def wait_calls_def)
  qed
qed

lemma handle_result_asks:
  "current_cpu c \<Longrightarrow>
     asks (if ret = EXCP_DEBUG then [DebugRequest] else if ret < 0 then [VmStopRequest RUN_STATE_INTERNAL_ERROR] else []) c (handle_result ret c)"
  "cpu_halted (handle_result ret c) = cpu_halted c"
  by (simp_all add: handle_result_def cpu_handle_guest_debug_def asks_def request_defs)

text \<open>What a turn asks of the main loop.\<close>

definition turn_asks :: "host_answer \<Rightarrow> 'd vcpu \<Rightarrow> gzvm_vcpu_run \<Rightarrow> sys_request list" where
  "turn_asks ans c run =
     (if ans_ret ans < 0 then (if ans_errno ans = EINTR \<or> ans_errno ans = EAGAIN then [] else [VmStopRequest RUN_STATE_INTERNAL_ERROR])
      else exit_requests c run @
        (if exit_reason run \<in> error_exits then [VmStopRequest RUN_STATE_INTERNAL_ERROR]
         else if exit_reason run = GZVM_EXIT_DEBUG then [DebugRequest] else []))"

lemma turn_outcome:
  fixes guest :: guest and rw :: "'d rw_fun" and c :: "'d vcpu"
  assumes "vcpu_ready K c" "drains K" "vc_accel c = Some a" "vcpu_can_run c"
  defines "ans \<equiv> K (vm_hist (vc_vm c)) (run_call c a)" and "run \<equiv> run_page guest c a"
  obtains t w where "vcpu_turn K guest rw c = Some t" "vcpu_ready K t"
    "vm_hist (vc_vm t) = vm_hist (vc_vm c) @ run_call c a # w" "wait_calls w" "w = [] \<or> interrupted ans"
    "asks (turn_asks ans c run) (c\<lparr>exit_request := False, vc_vm := vc_vm t\<rparr>) t"
    "cpu_halted t = (if 0 \<le> ans_ret ans then exit_halts run (cpu_halted c) else cpu_halted c)"
proof -
  obtain ret c' w where r: "gzvm_cpu_exec K guest rw c = Some (ret, c')" "mem_ready K (vc_vm c')"
    "vm_hist (vc_vm c') = vm_hist (vc_vm c) @ run_call c a # w" "wait_calls w" "w = [] \<or> interrupted ans"
    "asks (if 0 \<le> ans_ret ans then exit_requests c run else []) (c\<lparr>exit_request := False, vc_vm := vc_vm c'\<rparr>) c'"
    "cpu_halted c' = (if 0 \<le> ans_ret ans then exit_halts run (cpu_halted c) else cpu_halted c)"
    "ret < 0 \<longleftrightarrow> fatal_run ans \<or> 0 \<le> ans_ret ans \<and> exit_reason run \<in> error_exits"
    "ret = EXCP_DEBUG \<longleftrightarrow> 0 \<le> ans_ret ans \<and> exit_reason run = GZVM_EXIT_DEBUG"
    unfolding ans_def run_def by (rule cpu_exec_outcome [OF assms(1-3), of guest rw]) blast
  have cur: "current_cpu c'" using r(6) assms(1) by (simp add: asks_def vcpu_ready_def)
  note res = handle_result_asks(1) [OF cur, of ret]
  have vm: "vc_vm (handle_result ret c') = vc_vm c'" using res by (simp add: asks_def)
  have q: "(if 0 \<le> ans_ret ans then exit_requests c run else []) @
      (if ret = EXCP_DEBUG then [DebugRequest] else if ret < 0 then [VmStopRequest RUN_STATE_INTERNAL_ERROR] else []) = turn_asks ans c run"
    unfolding r(8,9) by (auto simp: turn_asks_def fatal_run_def gzvm_exit_defs)
  have asks: "asks (turn_asks ans c run) (c\<lparr>exit_request := False, vc_vm := vc_vm c'\<rparr>) (handle_result ret c')"
    using asks_trans [OF r(6) res] unfolding q .
  show thesis
  proof (rule that [of "handle_result ret c'" w])
    show "vcpu_turn K guest rw c = Some (handle_result ret c')" using r(1) assms(4) by (simp add: vcpu_turn_def)
    show "vcpu_ready K (handle_result ret c')" using asks r(2) assms(1) by (auto simp: asks_def vcpu_ready_def)
  qed (use r(3-5,7) asks vm handle_result_asks(2) [of ret c'] in simp_all)
qed

section \<open>The events of a vCPU's life\<close>



text \<open>The calls the thread makes of the host while it runs.\<close>

definition running_call :: "int \<Rightarrow> host_call \<Rightarrow> bool" where
  "running_call fd x \<longleftrightarrow> x = SigTimedWait \<or> x = SigPending \<or> (\<exists>b. x = VcpuIoctl fd (GZVM_RUN b))"

definition vcpu_alive :: "kernel \<Rightarrow> history \<Rightarrow> int \<Rightarrow> 'd vcpu \<Rightarrow> bool" where
  "vcpu_alive K h fd c \<longleftrightarrow> vcpu_ready K c \<and> map_option vcpu_fd (vc_accel c) = Some fd \<and>
     (\<exists>q. vm_hist (vc_vm c) = h @ q \<and> list_all (running_call fd) q)"

lemma vcpu_wait_frame [simp]:
  "vcpu_ready K (vcpu_wait c) = vcpu_ready K c" "exit_request (vcpu_wait c) = exit_request c" "vc_vm (vcpu_wait c) = vc_vm c"
  "vc_requests (vcpu_wait c) = vc_requests c" "vc_accel (vcpu_wait c) = vc_accel c"
  by (simp_all add: vcpu_wait_def vcpu_ready_def)

lemma loop_turn:
  fixes guest :: guest and rw :: "'d rw_fun" and c :: "'d vcpu"
  assumes "vcpu_ready K c" "drains K" "vc_accel c = Some a"
  obtains t where "vcpu_step K (LoopTurn guest rw) c = Some t" "vcpu_ready K t" "map_option vcpu_fd (vc_accel t) = Some (vcpu_fd a)"
    "\<not> vcpu_can_run c" "vc_vm t = vc_vm c" "exit_request t = exit_request c" "vc_requests t = vc_requests c"
  | t w q where "vcpu_step K (LoopTurn guest rw) c = Some t" "vcpu_ready K t" "map_option vcpu_fd (vc_accel t) = Some (vcpu_fd a)"
    "vm_hist (vc_vm t) = vm_hist (vc_vm c) @ run_call c a # w" "wait_calls w"
    "exit_request t = list_ex stops_self q" "vc_requests t = vc_requests c @ q"
proof (cases "vcpu_can_run c")
  case True
  obtain t w where t: "vcpu_turn K guest rw c = Some t" "vcpu_ready K t"
    "vm_hist (vc_vm t) = vm_hist (vc_vm c) @ run_call c a # w" "wait_calls w"
    "asks (turn_asks (K (vm_hist (vc_vm c)) (run_call c a)) c (run_page guest c a)) (c\<lparr>exit_request := False, vc_vm := vc_vm t\<rparr>) t"
    by (rule turn_outcome [OF assms True, of guest rw]) blast
  show thesis
  proof (rule that(2) [of "vcpu_wait t" w "turn_asks (K (vm_hist (vc_vm c)) (run_call c a)) c (run_page guest c a)"])
    show "vcpu_step K (LoopTurn guest rw) c = Some (vcpu_wait t)" using t(1) by simp
  qed (use t(2-5) assms(3) in \<open>simp_all add: asks_def\<close>)
next
  case False
  show thesis
  proof (rule that(1) [of "vcpu_wait c"])
    show "vcpu_step K (LoopTurn guest rw) c = Some (vcpu_wait c)" using False by (simp add: vcpu_turn_def)
  qed (use assms False in simp_all)
qed

interpretation vcpu_life: invariant_system "vcpu_step K" "\<lambda>_. True" "\<lambda>c. vcpu_alive K h fd c \<and> drains K" for K h fd
proof
  fix c :: "'d vcpu" and e :: "'d vcpu_event"
  assume c: "vcpu_alive K h fd c \<and> drains K"
  then obtain a q where a: "vcpu_ready K c" "drains K" "vc_accel c = Some a" "vcpu_fd a = fd"
    "vm_hist (vc_vm c) = h @ q" "list_all (running_call fd) q" by (auto simp: vcpu_alive_def)
  show "\<exists>t. vcpu_step K e c = Some t \<and> vcpu_alive K h fd t \<and> drains K"
  proof (cases e)
    case (LoopTurn guest rw)
    show ?thesis unfolding LoopTurn
    proof (rule loop_turn [OF a(1-3), of guest rw], goal_cases)
      case (1 t)
      with c a show ?case by (intro exI [of _ t]) (auto simp: vcpu_alive_def)
    next
      case (2 t w r)
      then have "list_all (running_call fd) (q @ run_call c a # w)"
        using a by (auto simp: running_call_def run_call_def wait_calls_def list_all_iff)
      with 2 a show ?case by (intro exI [of _ t]) (auto simp: vcpu_alive_def)
    qed
  qed (use c in \<open>auto simp: vcpu_alive_def vcpu_ready_def\<close>)
qed








lemmas thread_start_defs = gzvm_cpu_thread_init_def thread_attach_def gzvm_init_vcpu_def gzvm_vm_ioctl_def hcall_def bql_lock_def bql_unlock_def
  set_hist_def gzvm_init_cpu_signals_def gzvm_init_vcpu_sigsegv_def Let_def

section \<open>Properties\<close>


definition example_run :: gzvm_vcpu_run where
  "example_run = zero_run\<lparr>exit_reason := GZVM_EXIT_MMIO, mmio_phys_addr := 0x40007ffc, mmio_size := 8, mmio_data := [1, 2, 3, 4, 5, 6, 7, 8],
     mmio_is_write := True\<rparr>"

definition example_vcpu :: "gzvm_vm \<Rightarrow> unit vcpu" where
  "example_vcpu v = \<lparr>vc_vm = v, cpu_index = 0, vc_accel = Some \<lparr>vcpu_fd = 5, vcpu_run = zero_run\<rparr>, current_cpu = True, exit_request = True,
     cpu_halted = False, cpu_stop = False, cpu_stopped = False, cpu_created = True, crash_occurred = False, bql_held = True,
     runstate_running = True,
     vc_actions = \<lparr>reboot_action = REBOOT_ACTION_RESET, shutdown_action = SHUTDOWN_ACTION_POWEROFF, panic_action = PANIC_ACTION_SHUTDOWN\<rparr>,
     vc_requests = [], vc_mem = (\<lambda>_. 0), vc_dev = ()\<rparr>"

definition example_rw :: "unit rw_fun" where
  "example_rw s a attrs data sz w = (False, data, s)"

lemma example_vcpu_ready: "mem_ready kernel_ok v \<Longrightarrow> vcpu_ready kernel_ok (example_vcpu v)"
  by (simp add: vcpu_ready_def example_vcpu_def)


text \<open>
  C15.  What a turn does.  A vCPU that cannot run does nothing.  Otherwise the turn returns with the
  lock held after exactly one \<open>GZVM_RUN\<close>, entered with the pending exit request and followed, only where
  it was interrupted, by the draining of the kick signal.  The machine is stopped with an error
  exactly when the run failed other than by an interruption, or reports a failed entry, an internal
  error or an exception; the debugger is called exactly on a debug exit, which stops the vCPU;
  shutdown, reset and panic events, and a shutdown exit of the first CPU, ask for what the machine's
  actions say.  The exit request is cleared, and it is set again, with the vCPU's stop flag, exactly
  where the turn stopped or reset the machine.  Suspend events halt the vCPU and a wakeup ends it.
\<close>

theorem turn_requests:
  fixes c :: "'d vcpu" and guest :: guest and rw :: "'d rw_fun"
  assumes "vcpu_ready K c" "drains K" "vc_accel c = Some a"
  defines "call \<equiv> VcpuIoctl (vcpu_fd a) (GZVM_RUN (of_bool (exit_request c)))"
  defines "ans \<equiv> K (vm_hist (vc_vm c)) call"
  defines "run \<equiv> guest (vm_hist (vc_vm c) @ [call]) ((vcpu_run a)\<lparr>immediate_exit := of_bool (exit_request c)\<rparr>)"
  defines "q \<equiv> turn_asks ans c run"
  shows "\<exists>t. vcpu_turn K guest rw c = Some t \<and> vcpu_ready K t \<and>
    (if vcpu_can_run c then
       (\<exists>w. vm_hist (vc_vm t) = vm_hist (vc_vm c) @ call # w \<and> wait_calls w \<and> (w = [] \<or> interrupted ans)) \<and>
       vc_requests t = vc_requests c @ q \<and> exit_request t = list_ex stops_self q \<and> cpu_stop t = list_ex stops_self q \<and>
       cpu_stopped t = (DebugRequest \<in> set q) \<and>
       cpu_halted t = (if 0 \<le> ans_ret ans then exit_halts run (cpu_halted c) else cpu_halted c)
     else t = c)"
proof (cases "vcpu_can_run c")
  case True
  have call: "run_call c a = call" "run_page guest c a = run" by (simp_all add: run_call_def run_page_def call_def run_def)
  obtain t w where t: "vcpu_turn K guest rw c = Some t" "vcpu_ready K t"
    "vm_hist (vc_vm t) = vm_hist (vc_vm c) @ call # w" "wait_calls w" "w = [] \<or> interrupted ans"
    "asks q (c\<lparr>exit_request := False, vc_vm := vc_vm t\<rparr>) t"
    "cpu_halted t = (if 0 \<le> ans_ret ans then exit_halts run (cpu_halted c) else cpu_halted c)"
    by (rule turn_outcome [OF assms(1-3) True, of guest rw, unfolded call, folded ans_def, folded q_def]) blast
  have "\<not> cpu_stop c" "\<not> cpu_stopped c" using True by (auto simp: vcpu_can_run_def split: if_splits)
  with t True show ?thesis by (intro exI [of _ t]) (auto simp: asks_def)
next
  case False
  with assms(1) show ?thesis by (simp add: vcpu_turn_def)
qed

theorem turn_requests_witness:
  "\<exists>t. vcpu_turn kernel_ok (\<lambda>h r. r\<lparr>exit_reason := GZVM_EXIT_SYSTEM_EVENT, system_event_type := GZVM_SYSTEM_EVENT_RESET\<rparr>) example_rw
       (example_vcpu example_vm) = Some t \<and> vc_requests t = [ResetRequest SHUTDOWN_CAUSE_GUEST_RESET] \<and> exit_request t \<and> cpu_stop t"
proof -
  have a: "vc_accel (example_vcpu example_vm) = Some \<lparr>vcpu_fd = 5, vcpu_run = zero_run\<rparr>" by (simp add: example_vcpu_def)
  show ?thesis
    using turn_requests [OF example_vcpu_ready [OF example_ready(1)] drains_kernel_ok a,
        of "\<lambda>h r. r\<lparr>exit_reason := GZVM_EXIT_SYSTEM_EVENT, system_event_type := GZVM_SYSTEM_EVENT_RESET\<rparr>" example_rw]
    by (auto simp: kernel_ok_def turn_asks_def exit_requests_def event_requests_def gzvm_exit_defs gzvm_system_event_defs
        example_vcpu_def vcpu_can_run_def)
qed






text \<open>The part of an access that lies in a slot, copied to and from the slot's memory.\<close>

lemma slot_copy:
  fixes base off sz len :: u64 and m :: host_memory and data :: "u8 list"
  assumes "len \<le> 8" "off < sz"
  defines "xlen \<equiv> unat (min len (sz - off))"
  shows "mem_write m (base + off) (take xlen data) b \<noteq> m b \<Longrightarrow> b - base < sz \<and> b - (base + off) < len"
    "\<lbrakk>i < unat len; i < length data; unat off + i < unat sz\<rbrakk> \<Longrightarrow>
       mem_write m (base + off) (take xlen data) (base + off + of_nat i) = data ! i"
    "i < length data \<Longrightarrow> (mem_read m (base + off) xlen @ drop xlen data) ! i =
       (if i < unat len \<and> unat off + i < unat sz then m (base + off + of_nat i) else data ! i)"
    "unat len \<le> length data \<Longrightarrow> length (mem_read m (base + off) xlen @ drop xlen data) = length data"
proof -
  have xlen: "xlen \<le> 8" "xlen + unat off \<le> unat sz" "i < xlen \<longleftrightarrow> i < unat len \<and> unat off + i < unat sz" "xlen \<le> unat len" for i
    using assms(1,2) by (auto simp: xlen_def min_def word_le_nat_alt unat_sub word_less_nat_alt)
  show "b - base < sz \<and> b - (base + off) < len" if ne: "mem_write m (base + off) (take xlen data) b \<noteq> m b"
  proof -
    have lt: "unat (b - (base + off)) < xlen" using ne by (auto simp: mem_write_def split: if_splits)
    have "unat (b - (base + off)) + unat off < 2 ^ LENGTH(64)"
      using lt xlen(2) unsigned_less [of sz] by (intro less_trans [OF _ unsigned_less [of sz]]) simp
    then have "unat (b - (base + off) + off) = unat (b - (base + off)) + unat off" by (rule unat_add_no_wrap)
    with lt xlen(2,4) show ?thesis by (simp add: word_less_nat_alt)
  qed
  have small: "unat (of_nat i :: u64) = i" if "i < xlen"
    using that xlen(1) by (simp add: unat_of_nat)
  show "mem_write m (base + off) (take xlen data) (base + off + of_nat i) = data ! i"
    if "i < unat len" "i < length data" "unat off + i < unat sz"
    using that xlen(3) [of i] small by (simp add: mem_write_def)
  show "(mem_read m (base + off) xlen @ drop xlen data) ! i =
       (if i < unat len \<and> unat off + i < unat sz then m (base + off + of_nat i) else data ! i)" if "i < length data"
    using that unfolding xlen(3) [symmetric] by (simp add: mem_read_def nth_append)
  show "length (mem_read m (base + off) xlen @ drop xlen data) = length data" if "unat len \<le> length data"
    using that xlen(4) by (simp add: mem_read_def)
qed

text \<open>
  C21.  A memory-mapped access the guest makes never reaches host memory outside the slot that backs
  it.  The handler returns with the table unchanged.  An access of more than eight bytes does
  nothing; one the memory core accepts, or that no slot backs, leaves what the memory core left.
  Otherwise exactly the bytes of the access that lie in the slot are copied: a write changes only
  host bytes of the access that are inside the slot, and to the bytes of the exit's buffer; a read
  changes no host memory, puts the slot's bytes into the buffer and leaves every byte of the buffer
  that lies beyond the slot or beyond the access as it was, so that nothing past the slot is read.
\<close>

theorem mmio_exit_confined:
  fixes c :: "'d vcpu" and rw :: "'d rw_fun" and run :: gzvm_vcpu_run
  assumes "mem_ready K (vc_vm c)"
  defines "addr \<equiv> mmio_phys_addr run"
  defines "slot \<equiv> backing (vc_vm c) addr"
  defines "res \<equiv> rw (vc_dev c, vc_mem c) addr (if slot = None then SecureAttrs else MEMTXATTRS_UNSPECIFIED)
    (mmio_data run) (mmio_size run) (mmio_is_write run)"
  shows "\<exists>run' c'. gzvm_handle_mmio_exit rw run c = Some (0, run', c') \<and> vc_vm c' = vc_vm c \<and>
    (if 8 < mmio_size run then run' = run \<and> c' = c
     else case res of (ok, data, d, m) \<Rightarrow> vc_dev c' = d \<and>
       (if ok \<or> slot = None then vc_mem c' = m \<and> mmio_data run' = data
        else \<exists>x. x \<in> active_slots (vm_state (vc_vm c)) \<and> in_slot addr x \<and> slot_mem x \<noteq> 0 \<and>
          (let host = slot_mem x + (addr - slot_start x);
               inside = (\<lambda>i. i < unat (mmio_size run) \<and> unat (addr - slot_start x) + i < unat (slot_size x))
           in if mmio_is_write run then
                mmio_data run' = data \<and>
                (\<forall>b. vc_mem c' b \<noteq> m b \<longrightarrow> b - slot_mem x < slot_size x \<and> b - host < mmio_size run) \<and>
                (\<forall>i < length data. inside i \<longrightarrow> vc_mem c' (host + of_nat i) = data ! i)
              else
                vc_mem c' = m \<and> (unat (mmio_size run) \<le> length data \<longrightarrow> length (mmio_data run') = length data) \<and>
                (\<forall>i < length data. mmio_data run' ! i = (if inside i then m (host + of_nat i) else data ! i)))))"
proof (cases "8 < mmio_size run")
  case True
  then show ?thesis by (simp add: gzvm_handle_mmio_exit_def Let_def)
next
  case False
  then have le: "mmio_size run \<le> 8" by simp
  obtain ok data d m where res: "res = (ok, data, d, m)" by (cases res) auto
  note eq = mmio_exit [OF assms(1) le, of rw, folded addr_def, folded slot_def, folded res_def, unfolded res prod.case Let_def]
  show ?thesis
  proof (cases "ok \<or> slot = None")
    case True
    with False eq show ?thesis by (simp add: res)
  next
    case nok: False
    then obtain x where x: "slot = Some x" by auto
    note sl = backing_slot [OF assms(1), of addr x, folded slot_def, OF x]
    note copy = slot_copy [OF le sl(4), where m = m and data = data and base = "slot_mem x"]
    show ?thesis
    proof (cases "mmio_is_write run")
      case True
      with False eq nok x sl(1-3) copy(1,2) show ?thesis by (auto simp: res Let_def)
    next
      case rd: False
      with False eq nok x sl(1-3) copy(3,4) show ?thesis by (auto simp: res Let_def)
    qed
  qed
qed

theorem mmio_exit_confined_witness:
  "\<exists>v run' c'. run_ops (listener_step kernel_ok) [RegionAdd example_ram, Commit] example_vm = Some v \<and>
     gzvm_handle_mmio_exit example_rw example_run (example_vcpu v) = Some (0, run', c') \<and>
     vc_mem c' 0x700000007ffc = 1 \<and> vc_mem c' 0x700000007fff = 4 \<and> vc_mem c' 0x700000008000 = 0"
proof -
  obtain v where v: "run_ops (listener_step kernel_ok) [RegionAdd example_ram, Commit] example_vm = Some v" "mem_ready kernel_ok v"
    "mem_map (vm_state v) = {(0x40000000, 0x8000, 0x700000000000, GZVM_USER_MEM_REGION_GUEST_MEM)}"
    by (rule example_commit)
  have slot: "slot_start x = 0x40000000 \<and> slot_size x = 0x8000 \<and> slot_mem x = 0x700000000000"
    if "x \<in> active_slots (vm_state v)" for x
  proof -
    have "slot_region x \<in> mem_map (vm_state v)" using that by (simp add: mem_map_def)
    then show ?thesis unfolding v(3) by (simp add: slot_region_def)
  qed
  have disj: "regions_disjoint (mem_map (vm_state v))" unfolding v(3) by (simp add: regions_disjoint_def)
  obtain x where x: "x \<in> active_slots (vm_state v)" using v(3) by (auto simp: mem_map_def)
  have "table_lookup (lock_table (vm_state v)) 0x40007ffc = Some x"
    using slot_table.lookup_iff [OF region_inv_table [OF region_inv_lock [OF v(2) disj]], of "0x40007ffc" x] x slot [OF x]
    by (simp add: in_slot_def)
  then have b: "backing v 0x40007ffc = Some x" using slot [OF x] by (simp add: backing_def)
  have r: "mmio_phys_addr example_run = 0x40007ffc" "mmio_size example_run = 8" "mmio_is_write example_run"
    "mmio_data example_run = [1, 2, 3, 4, 5, 6, 7, 8]" "vc_vm (example_vcpu v) = v" "vc_mem (example_vcpu v) = (\<lambda>_. 0)"
    by (simp_all add: example_run_def example_vcpu_def)
  note conf = mmio_exit_confined [where c = "example_vcpu v" and K = kernel_ok and run = example_run and rw = example_rw, unfolded r b,
      OF v(2)]
  obtain run' c' y where c': "gzvm_handle_mmio_exit example_rw example_run (example_vcpu v) = Some (0, run', c')"
    and y: "y \<in> active_slots (vm_state v)" "\<And>b. vc_mem c' b \<noteq> 0 \<Longrightarrow> b - slot_mem y < slot_size y"
    "\<And>i. i < length ([1, 2, 3, 4, 5, 6, 7, 8] :: u8 list) \<Longrightarrow> unat (0x40007ffc - slot_start y) + i < unat (slot_size y) \<Longrightarrow> i < 8 \<Longrightarrow>
       vc_mem c' (slot_mem y + (0x40007ffc - slot_start y) + of_nat i) = [1, 2, 3, 4, 5, 6, 7, 8] ! i"
    using conf by (simp add: r(3) example_rw_def Let_def del: list.size) blast
  note s = slot [OF y(1)]
  have "vc_mem c' 0x700000007ffc = 1" using y(3) [of 0] s by simp
  moreover have "vc_mem c' 0x700000007fff = 4" using y(3) [of 3] s by simp
  moreover have "vc_mem c' 0x700000008000 = 0" using y(2) [of "0x700000008000"] s by auto
  ultimately show ?thesis using v(1) c' by blast
qed

text \<open>
  C24.  The life of a vCPU's thread.  The thread starts exactly when the host creates the vCPU; it then
  holds the big lock and has the vCPU's descriptor and a zeroed run page, and keeps them through any
  turns and whatever other threads do to the vCPU, so that the handler of the kick signal sets
  \<open>immediate_exit\<close>.  Ending the thread closes the descriptor, once, and releases the lock.  Where the host
  refuses the vCPU, the lock is released and nothing is kept.  The handler does nothing before the
  thread has set \<open>current_cpu\<close>; but between that and the creation of the vCPU, after a refusal, and
  after the end of the thread it follows a null pointer.
\<close>

theorem vcpu_thread_lifecycle:
  fixes c :: "'d vcpu" and K :: kernel
  assumes "\<not> bql_held c" "\<not> current_cpu c" "vc_accel c = None" "mem_ready K (vc_vm c)" "drains K"
  defines "h \<equiv> vm_hist (vc_vm c) @ [SigactionHandler SIG_IPI, SigmaskUnblock [SIG_IPI], SigactionHandler SIGSEGV, SigactionHandler SIGBUS,
    SigmaskUnblock [SIGBUS, SIGSEGV]]"
  defines "create \<equiv> VmIoctl (vmfd (vm_state (vc_vm c))) (GZVM_CREATE_VCPU (cpu_index c))"
  defines "fd \<equiv> ans_ret (K h create)"
  shows "gzvm_ipi_signal c = Some c \<and> (\<exists>u. thread_attach c = Some u \<and> gzvm_ipi_signal u = None) \<and>
    (\<exists>t. gzvm_cpu_thread_init K c = Some (0 \<le> fd, t) \<and> vm_hist (vc_vm t) = h @ [create] \<and>
       cpu_created t = (0 \<le> fd) \<and> bql_held t = (0 \<le> fd) \<and>
       (if 0 \<le> fd then vc_accel t = Some \<lparr>vcpu_fd = fd, vcpu_run = zero_run\<rparr> \<and>
          (\<exists>u v w q. run_ops (vcpu_step K) es t = Some u \<and> map_option vcpu_fd (vc_accel u) = Some fd \<and>
             gzvm_ipi_signal u = Some v \<and> map_option (\<lambda>a. immediate_exit (vcpu_run a)) (vc_accel v) = Some 1 \<and>
             gzvm_cpu_thread_cleanup u = Some w \<and> vm_hist (vc_vm w) = h @ create # q @ [Close fd] \<and> list_all (running_call fd) q \<and>
             \<not> bql_held w \<and> \<not> cpu_created w \<and> vc_accel w = None \<and> gzvm_ipi_signal w = None)
        else vc_accel t = None \<and> gzvm_ipi_signal t = None))"
proof -
  define t :: "'d vcpu" where "t = snd (the (gzvm_cpu_thread_init K c))"
  have init: "gzvm_cpu_thread_init K c = Some (0 \<le> fd, t)" "vc_vm t = (vc_vm c)\<lparr>vm_hist := h @ [create]\<rparr>" "current_cpu t"
    "cpu_created t = (0 \<le> fd)" "bql_held t = (0 \<le> fd)" "vc_accel t = (if 0 \<le> fd then Some \<lparr>vcpu_fd = fd, vcpu_run = zero_run\<rparr> else None)"
    using assms by (auto simp: t_def thread_start_defs)
  have ready: "mem_ready K (vc_vm t)"
    using assms(4) hist_ready [of "drop (length (vm_hist (vc_vm c))) (h @ [create])" K "vc_vm c"]
    by (simp add: init(2) h_def create_def not_region_def)
  have run: "\<exists>u q a. run_ops (vcpu_step K) es t = Some u \<and> vc_accel u = Some a \<and> vcpu_fd a = fd \<and> bql_held u \<and> current_cpu u \<and>
      vm_hist (vc_vm u) = h @ create # q \<and> list_all (running_call fd) q" if "0 \<le> fd"
  proof -
    have "vcpu_alive K (h @ [create]) fd t" using ready init that by (auto simp: vcpu_alive_def vcpu_ready_def)
    then obtain u where u: "run_ops (vcpu_step K) es t = Some u" "vcpu_alive K (h @ [create]) fd u"
      using vcpu_life.run_inv [of K "h @ [create]" fd t es] assms(5) by (auto simp: list_all_iff)
    then show ?thesis by (intro exI [of _ u]) (auto simp: vcpu_alive_def vcpu_ready_def)
  qed
  have attach: "\<exists>u. thread_attach c = Some u \<and> gzvm_ipi_signal u = None" "gzvm_ipi_signal c = Some c"
    using assms(1-3) by (simp_all add: thread_attach_def bql_lock_def gzvm_ipi_signal_def set_immediate_exit_def set_hist_def)
  show ?thesis
  proof (cases "0 \<le> fd")
    case True
    then obtain u q a where u: "run_ops (vcpu_step K) es t = Some u" "vc_accel u = Some a" "vcpu_fd a = fd" "bql_held u" "current_cpu u"
      "vm_hist (vc_vm u) = h @ create # q" "list_all (running_call fd) q" using run by blast
    obtain w where w: "gzvm_cpu_thread_cleanup u = Some w" "vm_hist (vc_vm w) = h @ create # q @ [Close fd]" "\<not> bql_held w" "\<not> cpu_created w"
      "vc_accel w = None" "gzvm_ipi_signal w = None"
      using u by (auto simp: gzvm_cpu_thread_cleanup_def bql_unlock_def set_hist_def gzvm_ipi_signal_def set_immediate_exit_def)
    obtain v where "gzvm_ipi_signal u = Some v" "map_option (\<lambda>a. immediate_exit (vcpu_run a)) (vc_accel v) = Some 1"
      using u by (auto simp: gzvm_ipi_signal_def set_immediate_exit_def)
    with True init attach u w show ?thesis by auto
  next
    case False
    with init attach show ?thesis by (auto simp: gzvm_ipi_signal_def set_immediate_exit_def)
  qed
qed

theorem vcpu_thread_lifecycle_witness:
  "\<exists>t u w. gzvm_cpu_thread_init kernel_ok ((example_vcpu example_vm)\<lparr>bql_held := False, current_cpu := False, vc_accel := None\<rparr>) = Some (True, t) \<and>
     run_ops (vcpu_step kernel_ok) [LoopTurn (\<lambda>h r. r) example_rw, CpuPause, LoopTurn (\<lambda>h r. r) example_rw] t = Some u \<and>
     gzvm_cpu_thread_cleanup u = Some w \<and> \<not> bql_held w \<and> last (vm_hist (vc_vm w)) = Close 0"
  using vcpu_thread_lifecycle [of "(example_vcpu example_vm)\<lparr>bql_held := False, current_cpu := False, vc_accel := None\<rparr>" kernel_ok
      "[LoopTurn (\<lambda>h r. r) example_rw, CpuPause, LoopTurn (\<lambda>h r. r) example_rw]"] example_ready(1)
  by (auto simp: kernel_ok_def example_vcpu_def)

lemma wait_created_returned: "wait_created c = Some t \<Longrightarrow> cpu_created c"
  by (erule wait_created.raw_induct [rotated, where P = "\<lambda>c t. cpu_created c"]) (auto split: if_splits)

text \<open>
  C25.  Where the host refuses to create a vCPU, the caller that waits for the vCPU to come up waits
  forever; the failure is never returned to it.  Where the host creates it, the caller returns.
\<close>

theorem refused_vcpu_hangs:
  fixes c :: "'d vcpu" and K :: kernel
  assumes "\<not> bql_held c"
  defines "h \<equiv> gzvm_init_vcpu_sigsegv (gzvm_init_cpu_signals (vm_hist (vc_vm c)))"
  shows "(qemu_init_vcpu K c = None) \<longleftrightarrow> ans_ret (K h (VmIoctl (vmfd (vm_state (vc_vm c))) (GZVM_CREATE_VCPU (cpu_index c)))) < 0"
proof -
  have "\<exists>b t. gzvm_cpu_thread_init K c = Some (b, t) \<and> cpu_created t = b \<and>
    (b \<longleftrightarrow> \<not> ans_ret (K h (VmIoctl (vmfd (vm_state (vc_vm c))) (GZVM_CREATE_VCPU (cpu_index c)))) < 0)"
    using assms(1)
    by (cases "ans_ret (K h (VmIoctl (vmfd (vm_state (vc_vm c))) (GZVM_CREATE_VCPU (cpu_index c)))) < 0";
        simp add: h_def gzvm_cpu_thread_init_def thread_attach_def gzvm_init_vcpu_def gzvm_vm_ioctl_def hcall_def bql_lock_def bql_unlock_def
        set_hist_def Let_def; blast)
  then obtain b t where t: "gzvm_cpu_thread_init K c = Some (b, t)" "cpu_created t = b"
    "b \<longleftrightarrow> \<not> ans_ret (K h (VmIoctl (vmfd (vm_state (vc_vm c))) (GZVM_CREATE_VCPU (cpu_index c)))) < 0"
    by blast
  have "wait_created t = None \<longleftrightarrow> \<not> b"
    using t(2) wait_created_returned [of t] wait_created.simps [of t] by (cases "wait_created t") auto
  with t show ?thesis by (simp add: qemu_init_vcpu_def)
qed

theorem refused_vcpu_hangs_witness:
  "qemu_init_vcpu (\<lambda>h c. \<lparr>ans_ret = -1, ans_errno = ENOSPC, ans_out = 0, ans_fds = (0, 0)\<rparr>)
     ((example_vcpu example_vm)\<lparr>bql_held := False, vc_accel := None\<rparr>) = None"
  using refused_vcpu_hangs [of "(example_vcpu example_vm)\<lparr>bql_held := False, vc_accel := None\<rparr>"
      "\<lambda>h c. \<lparr>ans_ret = -1, ans_errno = ENOSPC, ans_out = 0, ans_fds = (0, 0)\<rparr>"]
  by simp

end
