(* ===== verification/Gzvm_Kick.thy ===== *)
theory Gzvm_Kick
  imports Gzvm_Prelude
begin

text \<open>
  How other threads get the attention of a vCPU thread (\<open>system/cpus.c\<close>, \<open>cpu-common.c\<close>, the loop and
  the entry of \<open>accel/gzvm/gzvm.c\<close>): a request is recorded, the thread is sent a signal unless one is
  already under way, and the signal's handler or the exit request makes the hypervisor return.
  The thread and the requests are interleaved step by step; every request is made with the big
  lock held, as its callers in the tree do, so that it happens only while the vCPU thread does not
  hold it.
\<close>

section \<open>State\<close>

text \<open>
  Where the thread is: at the head of its loop, past the release of the big lock, past the test of
  \<open>exit_request\<close>, in the hypervisor, back from it (interrupted or not) and waiting for the lock, in
  \<open>qemu_wait_io_event()\<close>, asleep on \<open>halt_cond\<close>, or finished.  It holds the lock at the head of the
  loop and in \<open>qemu_wait_io_event()\<close>.
\<close>

datatype vcpu_pc = AtLoop | Unlocked | Checked | InGuest | Back bool | WaitIo | Parked | Finished

record kick_state =
  pc :: vcpu_pc
  cpu_stop :: bool
  cpu_stopped :: bool
  cpu_unplug :: bool
  vm_running :: bool
  work_list :: "nat list"
  work_done :: "nat list"
  thread_kicked :: bool
  kick_exit_request :: bool
  run_immediate_exit :: bool
  sig_pending :: bool
  halt_signalled :: bool

section \<open>Operations\<close>

definition cpu_is_stopped :: "kick_state \<Rightarrow> bool" where
  "cpu_is_stopped s \<longleftrightarrow> cpu_stopped s \<or> \<not> vm_running s"

definition cpu_work_list_empty :: "kick_state \<Rightarrow> bool" where
  "cpu_work_list_empty s \<longleftrightarrow> work_list s = []"

text \<open>\<open>gzvm_vcpu_thread_is_idle()\<close>, the accelerator's answer for a CPU that is halted without work.\<close>

definition gzvm_vcpu_thread_is_idle :: "kick_state \<Rightarrow> bool" where
  "gzvm_vcpu_thread_is_idle s \<longleftrightarrow> False"

text \<open>\<open>busy\<close> is \<open>!cpu->halted || cpu_has_work(cpu)\<close>; as the accelerator is never idle, it does not matter.\<close>

definition cpu_thread_is_idle :: "bool \<Rightarrow> kick_state \<Rightarrow> bool" where
  "cpu_thread_is_idle busy s \<longleftrightarrow>
     (if cpu_stop s \<or> \<not> cpu_work_list_empty s then False
      else if cpu_is_stopped s then True
      else if busy then False
      else gzvm_vcpu_thread_is_idle s)"

definition cpu_can_run :: "kick_state \<Rightarrow> bool" where
  "cpu_can_run s \<longleftrightarrow> (if cpu_stop s then False else if cpu_is_stopped s then False else True)"

definition cpus_kick_thread :: "kick_state \<Rightarrow> kick_state" where
  "cpus_kick_thread s = (if thread_kicked s then s else s\<lparr>thread_kicked := True, sig_pending := True\<rparr>)"

definition gzvm_kick_vcpu_thread :: "kick_state \<Rightarrow> kick_state" where
  "gzvm_kick_vcpu_thread s = cpus_kick_thread s"

definition qemu_cpu_kick :: "kick_state \<Rightarrow> kick_state" where
  "qemu_cpu_kick s = gzvm_kick_vcpu_thread (if pc s = Parked then s\<lparr>halt_signalled := True\<rparr> else s)"

definition cpu_pause :: "kick_state \<Rightarrow> kick_state" where
  "cpu_pause s = qemu_cpu_kick (s\<lparr>cpu_stop := True\<rparr>)"

definition cpu_resume :: "kick_state \<Rightarrow> kick_state" where
  "cpu_resume s = qemu_cpu_kick (s\<lparr>cpu_stop := False, cpu_stopped := False\<rparr>)"

definition cpu_remove_sync :: "kick_state \<Rightarrow> kick_state" where
  "cpu_remove_sync s = qemu_cpu_kick (s\<lparr>cpu_stop := True, cpu_unplug := True\<rparr>)"

definition queue_work_on_cpu :: "nat \<Rightarrow> kick_state \<Rightarrow> kick_state" where
  "queue_work_on_cpu w s = qemu_cpu_kick (s\<lparr>work_list := work_list s @ [w]\<rparr>)"

definition cpu_exit :: "kick_state \<Rightarrow> kick_state" where
  "cpu_exit s = s\<lparr>kick_exit_request := True\<rparr>"

definition qemu_cpu_stop :: "bool \<Rightarrow> kick_state \<Rightarrow> kick_state" where
  "qemu_cpu_stop ex s = (let s = s\<lparr>cpu_stop := False, cpu_stopped := True\<rparr> in if ex then cpu_exit s else s)"

text \<open>
  The items are run in order, first to last, and recorded as done.  An exclusive item gives up the
  big lock while it runs; it is not in the model, where the lock is held throughout.
\<close>

definition process_queued_cpu_work :: "kick_state \<Rightarrow> kick_state" where
  "process_queued_cpu_work s = s\<lparr>work_list := [], work_done := work_done s @ work_list s\<rparr>"

definition qemu_wait_io_event_common :: "kick_state \<Rightarrow> kick_state" where
  "qemu_wait_io_event_common s =
     (let s = s\<lparr>thread_kicked := False\<rparr>;
          s = (if cpu_stop s then qemu_cpu_stop False s else s)
      in process_queued_cpu_work s)"

text \<open>The handler of the signal, and the draining of it after an interrupted run.\<close>

definition ipi_signal :: "kick_state \<Rightarrow> kick_state" where
  "ipi_signal s = s\<lparr>run_immediate_exit := True, sig_pending := False\<rparr>"

definition eat_signals :: "kick_state \<Rightarrow> kick_state" where
  "eat_signals s = s\<lparr>run_immediate_exit := False, sig_pending := False\<rparr>"

section \<open>Steps\<close>

text \<open>
  The steps the vCPU thread is bound to take.  In the hypervisor it returns when a signal is
  pending; entered with \<open>immediate_exit\<close> set, the hypervisor returns at once.  A pending signal is
  handled anywhere outside the hypervisor.
\<close>

inductive thread_step :: "kick_state \<Rightarrow> kick_state \<Rightarrow> bool" where
  handler: "sig_pending s \<Longrightarrow> pc s \<noteq> InGuest \<Longrightarrow> pc s \<noteq> Finished \<Longrightarrow> thread_step s (ipi_signal s)"
| exec: "pc s = AtLoop \<Longrightarrow> cpu_can_run s \<Longrightarrow> thread_step s (s\<lparr>pc := Unlocked, run_immediate_exit := False\<rparr>)"
| skip: "pc s = AtLoop \<Longrightarrow> \<not> cpu_can_run s \<Longrightarrow> thread_step s (s\<lparr>pc := WaitIo\<rparr>)"
| check: "pc s = Unlocked \<Longrightarrow> thread_step s (s\<lparr>pc := Checked, run_immediate_exit := (run_immediate_exit s \<or> kick_exit_request s)\<rparr>)"
| enter: "pc s = Checked \<Longrightarrow> \<not> run_immediate_exit s \<Longrightarrow> thread_step s (s\<lparr>pc := InGuest\<rparr>)"
| refuse: "pc s = Checked \<Longrightarrow> run_immediate_exit s \<Longrightarrow> thread_step s (s\<lparr>pc := Back True\<rparr>)"
| interrupt: "pc s = InGuest \<Longrightarrow> sig_pending s \<Longrightarrow> thread_step s (s\<lparr>pc := Back True\<rparr>)"
| relock: "pc s = Back intr \<Longrightarrow>
    thread_step s ((if intr then eat_signals s else s)\<lparr>pc := WaitIo, kick_exit_request := False\<rparr>)"
| park: "pc s = WaitIo \<Longrightarrow> cpu_thread_is_idle busy s \<Longrightarrow> thread_step s (s\<lparr>pc := Parked, halt_signalled := False\<rparr>)"
| wake: "pc s = Parked \<Longrightarrow> halt_signalled s \<Longrightarrow> thread_step s (s\<lparr>pc := WaitIo\<rparr>)"
| common: "pc s = WaitIo \<Longrightarrow> \<not> cpu_thread_is_idle busy s \<Longrightarrow> t = qemu_wait_io_event_common s \<Longrightarrow>
    thread_step s (t\<lparr>pc := (if \<not> cpu_unplug t \<or> cpu_can_run t then AtLoop else Finished)\<rparr>)"

text \<open>
  An exit the guest causes, an exit or a failed run that makes the vCPU stop itself
  (\<open>cpu_stop_current()\<close>) or stops it for the debugger, and a spurious wakeup: each may happen or not.
\<close>

inductive guest_step :: "kick_state \<Rightarrow> kick_state \<Rightarrow> bool" where
  guest_exit: "pc s = InGuest \<Longrightarrow> guest_step s (s\<lparr>pc := Back False\<rparr>)"
| self_stop: "pc s = Back False \<Longrightarrow> guest_step s (s\<lparr>pc := WaitIo, kick_exit_request := True, cpu_stop := True\<rparr>)"
| debug: "pc s = Back False \<Longrightarrow> guest_step s (s\<lparr>pc := WaitIo, kick_exit_request := False, cpu_stopped := True\<rparr>)"
| spurious: "pc s = Parked \<Longrightarrow> guest_step s (s\<lparr>pc := WaitIo\<rparr>)"

text \<open>Another thread with the big lock; \<open>cpu_exit()\<close> needs no lock.\<close>

definition bql_free :: "kick_state \<Rightarrow> bool" where
  "bql_free s \<longleftrightarrow> pc s \<noteq> AtLoop \<and> pc s \<noteq> WaitIo"

inductive env_step :: "kick_state \<Rightarrow> kick_state \<Rightarrow> bool" where
  pause: "bql_free s \<Longrightarrow> env_step s (cpu_pause s)"
| resume: "bql_free s \<Longrightarrow> env_step s (cpu_resume s)"
| remove: "bql_free s \<Longrightarrow> env_step s (cpu_remove_sync s)"
| work: "bql_free s \<Longrightarrow> env_step s (queue_work_on_cpu w s)"
| kick: "bql_free s \<Longrightarrow> env_step s (qemu_cpu_kick s)"
| runstate: "bql_free s \<Longrightarrow> env_step s (s\<lparr>vm_running := b\<rparr>)"
| exit_req: "env_step s (cpu_exit s)"

inductive system_step :: "kick_state \<Rightarrow> kick_state \<Rightarrow> bool" where
  by_thread: "thread_step s t \<Longrightarrow> system_step s t"
| by_guest: "guest_step s t \<Longrightarrow> system_step s t"
| by_env: "env_step s t \<Longrightarrow> system_step s t"

text \<open>The thread starts at the head of its loop; \<open>qemu_init_vcpu()\<close> marks the CPU stopped.\<close>

definition kick_init :: kick_state where
  "kick_init = \<lparr>pc = AtLoop, cpu_stop = False, cpu_stopped = True, cpu_unplug = False, vm_running = False, work_list = [], work_done = [],
     thread_kicked = False, kick_exit_request = False, run_immediate_exit = False, sig_pending = False, halt_signalled = False\<rparr>"

inductive reachable :: "kick_state \<Rightarrow> bool" where
  start: "reachable kick_init"
| step: "reachable s \<Longrightarrow> system_step s t \<Longrightarrow> reachable t"

inductive_cases thread_stepE: "thread_step s t"
inductive_cases guest_stepE: "guest_step s t"
inductive_cases env_stepE: "env_step s t"
inductive_cases system_stepE: "system_step s t"

section \<open>No request goes unnoticed\<close>

definition pending :: "kick_state \<Rightarrow> bool" where
  "pending s \<longleftrightarrow> cpu_stop s \<or> work_list s \<noteq> []"

definition kick_inv :: "kick_state \<Rightarrow> bool" where
  "kick_inv s \<longleftrightarrow> (pending s \<longrightarrow> thread_kicked s \<or> pc s = Finished \<or> pc s = WaitIo) \<and>
     (thread_kicked s \<and> pc s \<in> {Unlocked, Checked, InGuest} \<longrightarrow> sig_pending s \<or> run_immediate_exit s) \<and>
     (pc s = AtLoop \<longrightarrow> \<not> thread_kicked s) \<and>
     (pc s = InGuest \<longrightarrow> \<not> run_immediate_exit s) \<and>
     (pc s = Parked \<and> pending s \<longrightarrow> halt_signalled s)"

lemmas kick_defs = cpus_kick_thread_def gzvm_kick_vcpu_thread_def qemu_cpu_kick_def cpu_pause_def cpu_resume_def
  cpu_remove_sync_def queue_work_on_cpu_def cpu_exit_def qemu_cpu_stop_def process_queued_cpu_work_def
  qemu_wait_io_event_common_def ipi_signal_def eat_signals_def Let_def

lemma idle_iff: "cpu_thread_is_idle busy s \<longleftrightarrow> \<not> pending s \<and> cpu_is_stopped s"
  by (auto simp: cpu_thread_is_idle_def pending_def cpu_work_list_empty_def gzvm_vcpu_thread_is_idle_def)

lemma common_inv:
  "kick_inv (qemu_wait_io_event_common s\<lparr>pc := p\<rparr>)" if "p = AtLoop \<or> p = Finished"
  using that by (auto simp: kick_inv_def pending_def kick_defs)

lemma thread_step_inv: "thread_step s t \<Longrightarrow> kick_inv s \<Longrightarrow> kick_inv t"
proof (induction rule: thread_step.induct)
  case (common s busy t)
  then show ?case by (simp add: common_inv)
next
  case (relock s intr)
  then show ?case by (cases intr) (simp_all add: kick_inv_def pending_def eat_signals_def)
qed (auto simp: kick_inv_def pending_def idle_iff ipi_signal_def)

lemma env_step_inv: "env_step s t \<Longrightarrow> kick_inv s \<Longrightarrow> kick_inv t"
  by (induction rule: env_step.induct)
    (auto simp: kick_inv_def pending_def bql_free_def kick_defs)

lemma guest_step_inv: "guest_step s t \<Longrightarrow> kick_inv s \<Longrightarrow> kick_inv t"
  by (induction rule: guest_step.induct) (auto simp: kick_inv_def pending_def)

lemma reachable_inv: "reachable s \<Longrightarrow> kick_inv s"
proof (induction rule: reachable.induct)
  case start
  show ?case by (simp add: kick_inv_def kick_init_def pending_def)
next
  case (step s t)
  from step(2,3) show ?case
    by (cases rule: system_step.cases) (blast intro: thread_step_inv env_step_inv guest_step_inv)+
qed

section \<open>Every request is handled\<close>

text \<open>How far the thread is from handling requests; other threads do not delay it.\<close>

fun pc_rank :: "vcpu_pc \<Rightarrow> nat" where
  "pc_rank AtLoop = 0" | "pc_rank Unlocked = 5" | "pc_rank Checked = 4" | "pc_rank InGuest = 3" | "pc_rank (Back intr) = 2"
| "pc_rank WaitIo = 1" | "pc_rank Parked = 2" | "pc_rank Finished = 0"

definition distance :: "kick_state \<Rightarrow> nat" where
  "distance s = 2 * pc_rank (pc s) + (if sig_pending s then 1 else 0)"

lemma pending_pc: "kick_inv s \<Longrightarrow> pending s \<Longrightarrow> pc s \<noteq> Finished \<Longrightarrow> pc s \<noteq> AtLoop"
  by (auto simp: kick_inv_def)

lemma thread_enabled:
  assumes "kick_inv s" "pending s" "pc s \<noteq> Finished"
  shows "\<exists>t. thread_step s t"
proof (cases "pc s")
  case Checked
  then show ?thesis by (cases "run_immediate_exit s") (auto intro: thread_step.intros)
next
  case InGuest
  with assms have "sig_pending s" by (auto simp: kick_inv_def)
  with InGuest show ?thesis by (auto intro: interrupt)
next
  case WaitIo
  with assms(2) have "\<not> cpu_thread_is_idle True s" by (simp add: idle_iff)
  with WaitIo show ?thesis by (blast intro: common)
next
  case Parked
  with assms have "halt_signalled s" by (auto simp: kick_inv_def)
  with Parked show ?thesis by (auto intro: wake)
qed (use assms pending_pc [OF assms] in \<open>auto intro: check relock\<close>)

lemma thread_step_closer:
  assumes "thread_step s t" "pending s" "pc s \<noteq> AtLoop"
  shows "\<not> pending t \<or> distance t < distance s \<and> pc t \<noteq> Finished"
  using assms
proof (induction rule: thread_step.induct)
  case (common s busy t)
  then show ?case by (simp add: pending_def kick_defs)
next
  case (relock s intr)
  then show ?case by (cases intr) (auto simp: distance_def eat_signals_def)
qed (auto simp: distance_def idle_iff ipi_signal_def)

lemma guest_step_closer: "guest_step s t \<Longrightarrow> distance t < distance s \<and> pc t \<noteq> Finished"
  by (induction rule: guest_step.induct) (auto simp: distance_def)

lemma not_pending_stays: "thread_step s t \<Longrightarrow> \<not> pending s \<Longrightarrow> \<not> pending t"
  by (auto simp: pending_def kick_defs elim!: thread_stepE split: if_splits)

lemma env_step_distance:
  "env_step s t \<Longrightarrow> thread_kicked s \<or> pc s = WaitIo \<Longrightarrow> distance t = distance s \<and> pc t = pc s \<and> (thread_kicked t \<or> pc t = WaitIo)"
  by (induction rule: env_step.induct) (auto simp: distance_def kick_defs bql_free_def)

lemma env_steps_distance:
  "env_step\<^sup>*\<^sup>* s t \<Longrightarrow> thread_kicked s \<or> pc s = WaitIo \<Longrightarrow> distance t = distance s \<and> pc t = pc s \<and> (thread_kicked t \<or> pc t = WaitIo)"
  by (induction rule: rtranclp_induct) (auto dest: env_step_distance)

lemma env_steps_inv: "env_step\<^sup>*\<^sup>* s t \<Longrightarrow> kick_inv s \<Longrightarrow> kick_inv t"
  by (induction rule: rtranclp_induct) (auto dest: env_step_inv)

text \<open>
  Within \<open>n\<close> steps of the vCPU, with any number of steps of other threads before each of them, no
  request is pending; until then the thread is never stuck.
\<close>

fun handled_within :: "nat \<Rightarrow> kick_state \<Rightarrow> bool" where
  "handled_within 0 s \<longleftrightarrow> \<not> pending s"
| "handled_within (Suc n) s \<longleftrightarrow> \<not> pending s \<or>
     (\<forall>u. env_step\<^sup>*\<^sup>* s u \<and> pending u \<longrightarrow> (\<exists>t. thread_step u t)) \<and>
     (\<forall>u t. env_step\<^sup>*\<^sup>* s u \<and> (thread_step u t \<or> guest_step u t) \<longrightarrow> handled_within n t)"

lemma handled_not_pending: "\<not> pending s \<Longrightarrow> handled_within n s"
  by (cases n) simp_all

lemma handled_by_distance:
  "kick_inv s \<Longrightarrow> pc s \<noteq> Finished \<Longrightarrow> distance s \<le> n \<Longrightarrow> handled_within n s"
proof (induction n arbitrary: s)
  case 0
  then have "pc_rank (pc s) = 0" by (simp add: distance_def)
  with 0(2) have "pc s = AtLoop" by (cases "pc s") simp_all
  with 0(1) show ?case by (auto simp: kick_inv_def)
next
  case (Suc n)
  show ?case
  proof (cases "pending s")
    case True
    with Suc.prems have kicked: "thread_kicked s \<or> pc s = WaitIo" by (auto simp: kick_inv_def)
    have u: "kick_inv u" "pc u = pc s" "distance u = distance s" if "env_step\<^sup>*\<^sup>* s u" for u
      using env_steps_inv [OF that Suc.prems(1)] env_steps_distance [OF that kicked] by simp_all
    have "\<exists>t. thread_step u t" if "env_step\<^sup>*\<^sup>* s u" "pending u" for u
      using thread_enabled [of u] u [OF that(1)] that(2) Suc.prems(2) by simp
    moreover have "handled_within n t" if e: "env_step\<^sup>*\<^sup>* s u" and st: "thread_step u t \<or> guest_step u t" for u t
    proof (cases "pending u \<or> guest_step u t")
      case False
      then show ?thesis using st not_pending_stays handled_not_pending by blast
    next
      case True
      have "pending u \<Longrightarrow> pc u \<noteq> AtLoop" using pending_pc [OF u(1) [OF e]] u(2) [OF e] Suc.prems(2) by simp
      with st True have "\<not> pending t \<or> distance t < distance u \<and> pc t \<noteq> Finished"
        using thread_step_closer guest_step_closer by blast
      moreover have "kick_inv t" using st u(1) [OF e] thread_step_inv guest_step_inv by blast
      ultimately show ?thesis using handled_not_pending Suc.IH [of t] u(3) [OF e] Suc.prems(3) by force
    qed
    ultimately show ?thesis by auto
  qed simp
qed

section \<open>Properties\<close>

text \<open>
  C12.  No request is lost: in every state the vCPU thread and the other threads can reach together,
  if the vCPU is in the hypervisor while a request to stop or to do work is pending, a signal is
  pending that makes the hypervisor return; and if it sleeps, it has been woken.
\<close>

theorem no_kick_is_lost:
  assumes "reachable s" "pending s"
  shows "(pc s = InGuest \<longrightarrow> sig_pending s) \<and> (pc s = Parked \<longrightarrow> halt_signalled s) \<and> pc s \<noteq> AtLoop"
  using reachable_inv [OF assms(1)] assms(2) by (auto simp: kick_inv_def)

text \<open>
  C13.  Every request is handled: from any reachable state, whatever the other threads do in between,
  at most eleven steps of the vCPU thread bring it to handle all pending requests, and it is never
  stuck before; only a thread that has ended handles none.
\<close>

theorem every_request_is_handled:
  assumes "reachable s" "pc s \<noteq> Finished"
  shows "handled_within 11 s"
proof (rule handled_by_distance [OF reachable_inv [OF assms(1)] assms(2)])
  have "pc_rank p \<le> 5" for p by (cases p) simp_all
  from this [of "pc s"] show "distance s \<le> 11" by (simp add: distance_def)
qed

text \<open>A vCPU that is running the guest when it is told to stop.\<close>

definition example_resumed :: kick_state where
  "example_resumed = kick_init\<lparr>pc := Parked, halt_signalled := True, cpu_stopped := False, vm_running := True, thread_kicked := True,
     sig_pending := True\<rparr>"

lemma example_resumed_reachable: "reachable example_resumed"
proof -
  let ?a = "kick_init\<lparr>pc := WaitIo\<rparr>"
  have "thread_step kick_init ?a" by (rule skip) (simp_all add: kick_init_def cpu_can_run_def cpu_is_stopped_def)
  then have "reachable ?a" by (blast intro: reachable.intros by_thread)
  moreover have "thread_step ?a (?a\<lparr>pc := Parked, halt_signalled := False\<rparr>)"
    by (rule park [where busy = True]) (simp_all add: idle_iff pending_def kick_init_def cpu_is_stopped_def)
  ultimately have "reachable (?a\<lparr>pc := Parked, halt_signalled := False\<rparr>)" (is "reachable ?b") by (blast intro: reachable.intros by_thread)
  moreover have "env_step ?b (?b\<lparr>vm_running := True\<rparr>)" by (rule runstate) (simp add: bql_free_def)
  ultimately have "reachable (?b\<lparr>vm_running := True\<rparr>)" (is "reachable ?c") by (blast intro: reachable.intros by_env)
  moreover have "env_step ?c (cpu_resume ?c)" by (rule resume) (simp add: bql_free_def)
  ultimately have "reachable (cpu_resume ?c)" by (blast intro: reachable.intros by_env)
  moreover have "cpu_resume ?c = example_resumed" by (simp add: example_resumed_def kick_defs kick_init_def)
  ultimately show ?thesis by simp
qed

lemma example_paused: "reachable (cpu_pause example_resumed)"
proof -
  have "env_step example_resumed (cpu_pause example_resumed)" by (rule pause) (simp add: bql_free_def example_resumed_def)
  with example_resumed_reachable show ?thesis by (blast intro: reachable.intros by_env)
qed

theorem no_kick_is_lost_witness: "pending (cpu_pause example_resumed) \<and> halt_signalled (cpu_pause example_resumed)"
  using no_kick_is_lost [OF example_paused] by (simp add: pending_def kick_defs example_resumed_def)

theorem every_request_is_handled_witness: "handled_within 11 (cpu_pause example_resumed)"
  using every_request_is_handled [OF example_paused] by (simp add: kick_defs example_resumed_def)

end
