(* ===== verification/Gzvm_Arm.thy ===== *)
theory Gzvm_Arm
  imports Gzvm_Memory_Props Qemu_Bitops
begin

text \<open>
  The AArch64 side of the accelerator (\<open>target/arm/gzvm.c\<close>): the identification registers of the host
  CPU, the CPU model QEMU builds from them, the registers a vCPU is programmed with, and the interrupt
  inputs of the CPU.  What the host answers when it is asked for a register is a parameter.
\<close>

section \<open>State\<close>

text \<open>The identification registers, with the widths of \<open>struct ARMISARegisters\<close>.\<close>

record ARMISARegisters =
  id_pfr0 :: u32
  id_pfr1 :: u32
  id_dfr0 :: u32
  id_mmfr0 :: u32
  id_mmfr1 :: u32
  id_mmfr2 :: u32
  id_mmfr3 :: u32
  id_isar0 :: u32
  id_isar1 :: u32
  id_isar2 :: u32
  id_isar3 :: u32
  id_isar4 :: u32
  id_isar5 :: u32
  id_mmfr4 :: u32
  id_isar6 :: u32
  mvfr0 :: u32
  mvfr1 :: u32
  mvfr2 :: u32
  id_pfr2 :: u32
  id_dfr1 :: u32
  id_mmfr5 :: u32
  id_aa64pfr0 :: u64
  id_aa64pfr1 :: u64
  id_aa64zfr0 :: u64
  id_aa64smfr0 :: u64
  id_aa64dfr0 :: u64
  id_aa64dfr1 :: u64
  id_aa64isar0 :: u64
  id_aa64isar1 :: u64
  id_aa64isar2 :: u64
  id_aa64mmfr0 :: u64
  id_aa64mmfr1 :: u64
  id_aa64mmfr2 :: u64
  id_aa64mmfr3 :: u64

text \<open>The fields of \<open>ARMCPU\<close> and of its \<open>CPUARMState\<close> that the file uses.\<close>

record ARMCPU =
  isar :: ARMISARegisters
  arm_midr :: u64
  arm_revidr :: u32
  arm_ctr :: u64
  id_aa64afr0 :: u64
  id_aa64afr1 :: u64
  env_features :: u64
  reset_sctlr :: u32
  has_pmu :: bool
  host_cpu_probe_failed :: bool
  dtb_compatible :: string
  env_pstate :: u32
  env_pc :: u64
  env_xregs :: "u64 list"
  irq_line_state :: u32
  interrupt_request :: u32
  arm_cpu_index :: nat

text \<open>A row of \<open>GZVM_ID_REG_LIST\<close>: the name, the encoding and the member.\<close>

record id_reg =
  id_name :: string
  id_op0 :: u64
  id_op1 :: u64
  id_crn :: u64
  id_crm :: u64
  id_op2 :: u64
  id_get :: "ARMCPU \<Rightarrow> u64"
  id_set :: "u64 \<Rightarrow> ARMCPU \<Rightarrow> ARMCPU"

definition id_row :: "string \<Rightarrow> u64 \<Rightarrow> u64 \<Rightarrow> u64 \<Rightarrow> u64 \<Rightarrow> u64 \<Rightarrow> (ARMCPU \<Rightarrow> u64) \<Rightarrow> (u64 \<Rightarrow> ARMCPU \<Rightarrow> ARMCPU) \<Rightarrow> id_reg" where
  "id_row n op0 op1 crn crm op2 gt st = \<lparr>id_name = n, id_op0 = op0, id_op1 = op1, id_crn = crn, id_crm = crm, id_op2 = op2,
     id_get = gt, id_set = st\<rparr>"

definition GZVM_ID_REG_LIST :: "id_reg list" where
  "GZVM_ID_REG_LIST = [
     id_row ''ID_PFR0_EL1'' 3 0 0 1 0 (\<lambda>c. ucast (id_pfr0 (isar c)))
       (\<lambda>v c. c\<lparr>isar := (isar c)\<lparr>id_pfr0 := ucast v\<rparr>\<rparr>),
     id_row ''ID_PFR1_EL1'' 3 0 0 1 1 (\<lambda>c. ucast (id_pfr1 (isar c)))
       (\<lambda>v c. c\<lparr>isar := (isar c)\<lparr>id_pfr1 := ucast v\<rparr>\<rparr>),
     id_row ''ID_DFR0_EL1'' 3 0 0 1 2 (\<lambda>c. ucast (id_dfr0 (isar c)))
       (\<lambda>v c. c\<lparr>isar := (isar c)\<lparr>id_dfr0 := ucast v\<rparr>\<rparr>),
     id_row ''ID_MMFR0_EL1'' 3 0 0 1 4 (\<lambda>c. ucast (id_mmfr0 (isar c)))
       (\<lambda>v c. c\<lparr>isar := (isar c)\<lparr>id_mmfr0 := ucast v\<rparr>\<rparr>),
     id_row ''ID_MMFR1_EL1'' 3 0 0 1 5 (\<lambda>c. ucast (id_mmfr1 (isar c)))
       (\<lambda>v c. c\<lparr>isar := (isar c)\<lparr>id_mmfr1 := ucast v\<rparr>\<rparr>),
     id_row ''ID_MMFR2_EL1'' 3 0 0 1 6 (\<lambda>c. ucast (id_mmfr2 (isar c)))
       (\<lambda>v c. c\<lparr>isar := (isar c)\<lparr>id_mmfr2 := ucast v\<rparr>\<rparr>),
     id_row ''ID_MMFR3_EL1'' 3 0 0 1 7 (\<lambda>c. ucast (id_mmfr3 (isar c)))
       (\<lambda>v c. c\<lparr>isar := (isar c)\<lparr>id_mmfr3 := ucast v\<rparr>\<rparr>),
     id_row ''ID_ISAR0_EL1'' 3 0 0 2 0 (\<lambda>c. ucast (id_isar0 (isar c)))
       (\<lambda>v c. c\<lparr>isar := (isar c)\<lparr>id_isar0 := ucast v\<rparr>\<rparr>),
     id_row ''ID_ISAR1_EL1'' 3 0 0 2 1 (\<lambda>c. ucast (id_isar1 (isar c)))
       (\<lambda>v c. c\<lparr>isar := (isar c)\<lparr>id_isar1 := ucast v\<rparr>\<rparr>),
     id_row ''ID_ISAR2_EL1'' 3 0 0 2 2 (\<lambda>c. ucast (id_isar2 (isar c)))
       (\<lambda>v c. c\<lparr>isar := (isar c)\<lparr>id_isar2 := ucast v\<rparr>\<rparr>),
     id_row ''ID_ISAR3_EL1'' 3 0 0 2 3 (\<lambda>c. ucast (id_isar3 (isar c)))
       (\<lambda>v c. c\<lparr>isar := (isar c)\<lparr>id_isar3 := ucast v\<rparr>\<rparr>),
     id_row ''ID_ISAR4_EL1'' 3 0 0 2 4 (\<lambda>c. ucast (id_isar4 (isar c)))
       (\<lambda>v c. c\<lparr>isar := (isar c)\<lparr>id_isar4 := ucast v\<rparr>\<rparr>),
     id_row ''ID_ISAR5_EL1'' 3 0 0 2 5 (\<lambda>c. ucast (id_isar5 (isar c)))
       (\<lambda>v c. c\<lparr>isar := (isar c)\<lparr>id_isar5 := ucast v\<rparr>\<rparr>),
     id_row ''ID_MMFR4_EL1'' 3 0 0 2 6 (\<lambda>c. ucast (id_mmfr4 (isar c)))
       (\<lambda>v c. c\<lparr>isar := (isar c)\<lparr>id_mmfr4 := ucast v\<rparr>\<rparr>),
     id_row ''ID_ISAR6_EL1'' 3 0 0 2 7 (\<lambda>c. ucast (id_isar6 (isar c)))
       (\<lambda>v c. c\<lparr>isar := (isar c)\<lparr>id_isar6 := ucast v\<rparr>\<rparr>),
     id_row ''MVFR0_EL1'' 3 0 0 3 0 (\<lambda>c. ucast (mvfr0 (isar c)))
       (\<lambda>v c. c\<lparr>isar := (isar c)\<lparr>mvfr0 := ucast v\<rparr>\<rparr>),
     id_row ''MVFR1_EL1'' 3 0 0 3 1 (\<lambda>c. ucast (mvfr1 (isar c)))
       (\<lambda>v c. c\<lparr>isar := (isar c)\<lparr>mvfr1 := ucast v\<rparr>\<rparr>),
     id_row ''MVFR2_EL1'' 3 0 0 3 2 (\<lambda>c. ucast (mvfr2 (isar c)))
       (\<lambda>v c. c\<lparr>isar := (isar c)\<lparr>mvfr2 := ucast v\<rparr>\<rparr>),
     id_row ''ID_PFR2_EL1'' 3 0 0 3 4 (\<lambda>c. ucast (id_pfr2 (isar c)))
       (\<lambda>v c. c\<lparr>isar := (isar c)\<lparr>id_pfr2 := ucast v\<rparr>\<rparr>),
     id_row ''ID_DFR1_EL1'' 3 0 0 3 5 (\<lambda>c. ucast (id_dfr1 (isar c)))
       (\<lambda>v c. c\<lparr>isar := (isar c)\<lparr>id_dfr1 := ucast v\<rparr>\<rparr>),
     id_row ''ID_MMFR5_EL1'' 3 0 0 3 6 (\<lambda>c. ucast (id_mmfr5 (isar c)))
       (\<lambda>v c. c\<lparr>isar := (isar c)\<lparr>id_mmfr5 := ucast v\<rparr>\<rparr>),
     id_row ''ID_AA64PFR0_EL1'' 3 0 0 4 0 (\<lambda>c. id_aa64pfr0 (isar c))
       (\<lambda>v c. c\<lparr>isar := (isar c)\<lparr>id_aa64pfr0 := v\<rparr>\<rparr>),
     id_row ''ID_AA64PFR1_EL1'' 3 0 0 4 1 (\<lambda>c. id_aa64pfr1 (isar c))
       (\<lambda>v c. c\<lparr>isar := (isar c)\<lparr>id_aa64pfr1 := v\<rparr>\<rparr>),
     id_row ''ID_AA64ZFR0_EL1'' 3 0 0 4 4 (\<lambda>c. id_aa64zfr0 (isar c))
       (\<lambda>v c. c\<lparr>isar := (isar c)\<lparr>id_aa64zfr0 := v\<rparr>\<rparr>),
     id_row ''ID_AA64SMFR0_EL1'' 3 0 0 4 5 (\<lambda>c. id_aa64smfr0 (isar c))
       (\<lambda>v c. c\<lparr>isar := (isar c)\<lparr>id_aa64smfr0 := v\<rparr>\<rparr>),
     id_row ''ID_AA64DFR0_EL1'' 3 0 0 5 0 (\<lambda>c. id_aa64dfr0 (isar c))
       (\<lambda>v c. c\<lparr>isar := (isar c)\<lparr>id_aa64dfr0 := v\<rparr>\<rparr>),
     id_row ''ID_AA64DFR1_EL1'' 3 0 0 5 1 (\<lambda>c. id_aa64dfr1 (isar c))
       (\<lambda>v c. c\<lparr>isar := (isar c)\<lparr>id_aa64dfr1 := v\<rparr>\<rparr>),
     id_row ''ID_AA64AFR0_EL1'' 3 0 0 5 4 id_aa64afr0
       (\<lambda>v c. c\<lparr>id_aa64afr0 := v\<rparr>),
     id_row ''ID_AA64AFR1_EL1'' 3 0 0 5 5 id_aa64afr1
       (\<lambda>v c. c\<lparr>id_aa64afr1 := v\<rparr>),
     id_row ''ID_AA64ISAR0_EL1'' 3 0 0 6 0 (\<lambda>c. id_aa64isar0 (isar c))
       (\<lambda>v c. c\<lparr>isar := (isar c)\<lparr>id_aa64isar0 := v\<rparr>\<rparr>),
     id_row ''ID_AA64ISAR1_EL1'' 3 0 0 6 1 (\<lambda>c. id_aa64isar1 (isar c))
       (\<lambda>v c. c\<lparr>isar := (isar c)\<lparr>id_aa64isar1 := v\<rparr>\<rparr>),
     id_row ''ID_AA64ISAR2_EL1'' 3 0 0 6 2 (\<lambda>c. id_aa64isar2 (isar c))
       (\<lambda>v c. c\<lparr>isar := (isar c)\<lparr>id_aa64isar2 := v\<rparr>\<rparr>),
     id_row ''ID_AA64MMFR0_EL1'' 3 0 0 7 0 (\<lambda>c. id_aa64mmfr0 (isar c))
       (\<lambda>v c. c\<lparr>isar := (isar c)\<lparr>id_aa64mmfr0 := v\<rparr>\<rparr>),
     id_row ''ID_AA64MMFR1_EL1'' 3 0 0 7 1 (\<lambda>c. id_aa64mmfr1 (isar c))
       (\<lambda>v c. c\<lparr>isar := (isar c)\<lparr>id_aa64mmfr1 := v\<rparr>\<rparr>),
     id_row ''ID_AA64MMFR2_EL1'' 3 0 0 7 2 (\<lambda>c. id_aa64mmfr2 (isar c))
       (\<lambda>v c. c\<lparr>isar := (isar c)\<lparr>id_aa64mmfr2 := v\<rparr>\<rparr>),
     id_row ''ID_AA64MMFR3_EL1'' 3 0 0 7 3 (\<lambda>c. id_aa64mmfr3 (isar c))
       (\<lambda>v c. c\<lparr>isar := (isar c)\<lparr>id_aa64mmfr3 := v\<rparr>\<rparr>),
     id_row ''CTR_EL0'' 3 3 0 0 1 arm_ctr
       (\<lambda>v c. c\<lparr>arm_ctr := v\<rparr>)]"

section \<open>Bit fields\<close>

text \<open>\<open>FIELD_EX64\<close> and \<open>FIELD_DP64\<close>; the bounds of every field satisfy the assertion of the functions below them.\<close>

definition FIELD_EX64 :: "u64 \<Rightarrow> nat \<Rightarrow> nat \<Rightarrow> u64" where
  "FIELD_EX64 v a n = (case extract64 v (int a) (int n) of Some r \<Rightarrow> r | None \<Rightarrow> 0)"

definition FIELD_DP64 :: "u64 \<Rightarrow> nat \<Rightarrow> nat \<Rightarrow> u64 \<Rightarrow> u64" where
  "FIELD_DP64 v a n f = (case deposit64 v (int a) (int n) (take_bit n f) of Some r \<Rightarrow> r | None \<Rightarrow> 0)"

section \<open>Programming registers\<close>

definition GZVM_CORE_REG :: "nat \<Rightarrow> u64" where
  "GZVM_CORE_REG offset = GZVM_REG_ARM64 OR GZVM_REG_SIZE_U64 OR GZVM_REG_ARM_CORE OR of_nat (offset div 4)"

definition GZVM_REGS_X :: "nat \<Rightarrow> nat" where "GZVM_REGS_X i = i * 8"
definition GZVM_REGS_PC :: nat where "GZVM_REGS_PC = 32 * 8"
definition GZVM_REGS_PSTATE :: nat where "GZVM_REGS_PSTATE = 33 * 8"

definition PSTATE_DAIF :: u64 where "PSTATE_DAIF = push_bit 9 1 OR push_bit 8 1 OR push_bit 7 1 OR push_bit 6 1"
definition PSTATE_MODE_EL1h :: u64 where "PSTATE_MODE_EL1h = 5"

text \<open>The vCPU is its descriptor; the result is the host's answer.\<close>

definition gzvm_set_one_reg :: "kernel \<Rightarrow> int \<Rightarrow> u64 \<Rightarrow> u64 \<Rightarrow> history \<Rightarrow> int \<times> history" where
  "gzvm_set_one_reg K fd rid v h =
     (let (a, h) = hcall K (VcpuIoctl fd (GZVM_SET_ONE_REG \<lparr>reg_id = rid, reg_val = v\<rparr>)) h in (ans_ret a, h))"

definition id_enc :: "id_reg \<Rightarrow> u64" where
  "id_enc r = push_bit 14 (id_op0 r) OR push_bit 11 (id_op1 r) OR push_bit 7 (id_crn r) OR push_bit 3 (id_crm r) OR id_op2 r"

definition id_sysid :: "id_reg \<Rightarrow> u64" where
  "id_sysid r = GZVM_REG_ARM64 OR GZVM_REG_SIZE_U64 OR GZVM_REG_ARM64_SYSREG OR (id_enc r AND 0xffff)"

text \<open>The number of registers accepted is only reported.\<close>

fun set_id_regs :: "kernel \<Rightarrow> int \<Rightarrow> ARMCPU \<Rightarrow> id_reg list \<Rightarrow> nat \<Rightarrow> history \<Rightarrow> nat \<times> history" where
  "set_id_regs K fd cpu [] pushed h = (pushed, h)"
| "set_id_regs K fd cpu (r # rs) pushed h =
     (let reg = id_get r cpu
      in if reg \<noteq> 0
         then (let (ret, h) = gzvm_set_one_reg K fd (id_sysid r) reg h
               in set_id_regs K fd cpu rs (if ret \<noteq> 0 then pushed else Suc pushed) h)
         else set_id_regs K fd cpu rs pushed h)"

definition gzvm_arch_set_id_regs :: "kernel \<Rightarrow> int \<Rightarrow> ARMCPU \<Rightarrow> history \<Rightarrow> nat \<times> history" where
  "gzvm_arch_set_id_regs K fd cpu h = set_id_regs K fd cpu GZVM_ID_REG_LIST 0 h"

definition gzvm_set_one_reg_err :: "kernel \<Rightarrow> int \<Rightarrow> u64 \<Rightarrow> u64 \<Rightarrow> history \<Rightarrow> int \<times> history" where
  "gzvm_set_one_reg_err K fd rid v h = gzvm_set_one_reg K fd rid v h"

text \<open>\<open>first\<close> is whether the vCPU is the first one; \<open>level\<close> is not used.  An index outside \<open>xregs\<close> does not occur.\<close>

definition gzvm_arch_put_registers :: "kernel \<Rightarrow> bool \<Rightarrow> int \<Rightarrow> ARMCPU \<Rightarrow> history \<Rightarrow> (int \<times> history) option" where
  "gzvm_arch_put_registers K first fd cpu h =
     (if \<not> first then Some (gzvm_set_one_reg_err K fd (GZVM_CORE_REG GZVM_REGS_PSTATE) (PSTATE_DAIF OR PSTATE_MODE_EL1h) h)
      else do {
        let (_, h) = gzvm_arch_set_id_regs K fd cpu h;
        let (ret, h) = gzvm_set_one_reg_err K fd (GZVM_CORE_REG GZVM_REGS_PSTATE) (PSTATE_DAIF OR PSTATE_MODE_EL1h) h;
        if ret \<noteq> 0 then Some (ret, h)
        else do {
          let (ret, h) = gzvm_set_one_reg_err K fd (GZVM_CORE_REG GZVM_REGS_PC) (env_pc cpu) h;
          if ret \<noteq> 0 then Some (ret, h)
          else do {
            x0 \<leftarrow> aget (env_xregs cpu) 0;
            let (ret, h) = gzvm_set_one_reg_err K fd (GZVM_CORE_REG (GZVM_REGS_X 0)) x0 h;
            if ret \<noteq> 0 then Some (ret, h) else Some (0, h)
          }
        }
      })"

text \<open>Programming a vCPU after a reset and after the machine is built; a refusal is only reported.\<close>

definition do_gzvm_cpu_synchronize_post_reset :: "kernel \<Rightarrow> bool \<Rightarrow> int \<Rightarrow> ARMCPU \<Rightarrow> history \<Rightarrow> history option" where
  "do_gzvm_cpu_synchronize_post_reset K first fd cpu h = map_option snd (gzvm_arch_put_registers K first fd cpu h)"

definition do_gzvm_cpu_synchronize_post_init :: "kernel \<Rightarrow> bool \<Rightarrow> int \<Rightarrow> ARMCPU \<Rightarrow> history \<Rightarrow> history option" where
  "do_gzvm_cpu_synchronize_post_init K first fd cpu h = map_option snd (gzvm_arch_put_registers K first fd cpu h)"

text \<open>Reading back: the hypervisor is not asked, the registers are those QEMU holds.\<close>

definition gzvm_get_one_reg_sw :: "ARMCPU \<Rightarrow> u64 \<Rightarrow> (int + u64) option" where
  "gzvm_get_one_reg_sw cpu rid =
     (if rid = GZVM_CORE_REG GZVM_REGS_PSTATE then Some (Inr (ucast (env_pstate cpu)))
      else if rid = GZVM_CORE_REG GZVM_REGS_PC then Some (Inr (env_pc cpu))
      else if rid = GZVM_CORE_REG (GZVM_REGS_X 0) then do { x0 \<leftarrow> aget (env_xregs cpu) 0; Some (Inr x0) }
      else Some (Inl (- EOPNOTSUPP)))"

definition gzvm_arch_get_registers :: "ARMCPU \<Rightarrow> (int \<times> ARMCPU) option" where
  "gzvm_arch_get_registers cpu = do {
     v \<leftarrow> gzvm_get_one_reg_sw cpu (GZVM_CORE_REG GZVM_REGS_PSTATE);
     let cpu = (case v of Inr v \<Rightarrow> cpu\<lparr>env_pstate := ucast v\<rparr> | Inl _ \<Rightarrow> cpu);
     v \<leftarrow> gzvm_get_one_reg_sw cpu (GZVM_CORE_REG GZVM_REGS_PC);
     let cpu = (case v of Inr v \<Rightarrow> cpu\<lparr>env_pc := v\<rparr> | Inl _ \<Rightarrow> cpu);
     v \<leftarrow> gzvm_get_one_reg_sw cpu (GZVM_CORE_REG (GZVM_REGS_X 0));
     (case v of
        Inr v \<Rightarrow> do { xs \<leftarrow> aset (env_xregs cpu) 0 v; Some (0, cpu\<lparr>env_xregs := xs\<rparr>) }
      | Inl _ \<Rightarrow> Some (0, cpu))
   }"

section \<open>The host's CPU\<close>

text \<open>
  What the host answers during a probe: the register files below \<open>/sys\<close> that hold a number, the
  registers whose \<open>MRS\<close> does not trap, whether \<open>HWCAP_CPUID\<close> is set, the lines of \<open>/proc/cpuinfo\<close> as
  the four \<open>sscanf\<close> patterns take them (none where the file cannot be read), and whether the handler
  for the trap could be installed.
\<close>

datatype cpuinfo_line = Implementer u64 | Variant u64 | Part u64 | Revision u64 | OtherLine

record host_regs =
  sysfs :: "string \<Rightarrow> u64 option"
  mrs :: "u64 \<Rightarrow> u64 option"
  hwcap_cpuid :: bool
  cpuinfo :: "cpuinfo_line list option"
  sigill_installed :: bool

fun midr_line :: "cpuinfo_line \<Rightarrow> u32 \<Rightarrow> u32" where
  "midr_line (Implementer v) midr = (midr AND NOT 0xff000000) OR ucast (push_bit 24 (v AND 0xff))"
| "midr_line (Variant v) midr = (midr AND NOT 0x00f00000) OR ucast (push_bit 20 (v AND 0xf))"
| "midr_line (Part v) midr = (midr AND NOT 0x000fff00) OR ucast (push_bit 8 (v AND 0xfff))"
| "midr_line (Revision v) midr = (midr AND NOT 0x0000000f) OR ucast (v AND 0xf)"
| "midr_line OtherLine midr = midr"

definition gzvm_arm_read_midr :: "host_regs \<Rightarrow> u32" where
  "gzvm_arm_read_midr H = (case cpuinfo H of None \<Rightarrow> 0x410fd811 | Some ls \<Rightarrow> fold midr_line ls 0x410fd811)"

definition GZVM_READ_SYSREG :: "host_regs \<Rightarrow> id_reg \<Rightarrow> u64 option" where
  "GZVM_READ_SYSREG H r =
     (if id_op1 r = 3 \<or> (id_op1 r = 0 \<and> 4 \<le> id_crm r \<and> hwcap_cpuid H) then mrs H (id_enc r) else None)"

fun probe_regs :: "host_regs \<Rightarrow> id_reg list \<Rightarrow> nat \<Rightarrow> ARMCPU \<Rightarrow> nat \<times> ARMCPU" where
  "probe_regs H [] n cpu = (n, cpu)"
| "probe_regs H (r # rs) n cpu =
     (case (case sysfs H (id_name r) of Some v \<Rightarrow> Some v | None \<Rightarrow> GZVM_READ_SYSREG H r) of
        None \<Rightarrow> probe_regs H rs n cpu
      | Some v \<Rightarrow> probe_regs H rs (Suc n) (id_set r v cpu))"

definition gzvm_probe_host_cpu_features :: "host_regs \<Rightarrow> ARMCPU \<Rightarrow> bool \<times> ARMCPU" where
  "gzvm_probe_host_cpu_features H cpu =
     (if \<not> sigill_installed H then (False, cpu)
      else
        (let (n, cpu) = probe_regs H GZVM_ID_REG_LIST 0 cpu
         in if n = 0 \<or> id_aa64pfr0 (isar cpu) = 0 then (False, cpu)
            else
              (let cpu = cpu\<lparr>arm_midr := (case sysfs H ''MIDR_EL1'' of Some v \<Rightarrow> v | None \<Rightarrow> ucast (gzvm_arm_read_midr H))\<rparr>;
                   cpu = (case sysfs H ''REVIDR_EL1'' of Some v \<Rightarrow> cpu\<lparr>arm_revidr := ucast v\<rparr> | None \<Rightarrow> cpu)
               in (True, cpu))))"

text \<open>The static variables of \<open>gzvm_arm_read_host_cpu_features()\<close> once they are filled in.\<close>

record feature_cache =
  cached_ok :: bool
  cached_isar :: ARMISARegisters
  cached_afr0 :: u64
  cached_afr1 :: u64
  cached_ctr :: u64
  cached_midr_val :: u64
  cached_revidr_val :: u64

text \<open>Pinning the thread to one host CPU during the probe only affects what the host answers.\<close>

definition gzvm_arm_read_host_cpu_features ::
  "host_regs \<Rightarrow> feature_cache option \<Rightarrow> ARMCPU \<Rightarrow> bool \<times> feature_cache option \<times> ARMCPU" where
  "gzvm_arm_read_host_cpu_features H cache cpu =
     (case cache of
        None \<Rightarrow>
          (let (ok, cpu) = gzvm_probe_host_cpu_features H cpu
           in (ok, Some \<lparr>cached_ok = ok, cached_isar = isar cpu, cached_afr0 = id_aa64afr0 cpu, cached_afr1 = id_aa64afr1 cpu,
                 cached_ctr = arm_ctr cpu, cached_midr_val = arm_midr cpu, cached_revidr_val = ucast (arm_revidr cpu)\<rparr>, cpu))
      | Some c \<Rightarrow>
          (cached_ok c, Some c,
           cpu\<lparr>isar := cached_isar c, id_aa64afr0 := cached_afr0 c, id_aa64afr1 := cached_afr1 c, arm_ctr := cached_ctr c,
             arm_midr := cached_midr_val c, arm_revidr := ucast (cached_revidr_val c)\<rparr>))"

definition ARM_FEATURE_V7 :: nat where "ARM_FEATURE_V7 = 5"
definition ARM_FEATURE_NEON :: nat where "ARM_FEATURE_NEON = 8"
definition ARM_FEATURE_V7VE :: nat where "ARM_FEATURE_V7VE = 13"
definition ARM_FEATURE_GENERIC_TIMER :: nat where "ARM_FEATURE_GENERIC_TIMER = 18"
definition ARM_FEATURE_V8 :: nat where "ARM_FEATURE_V8 = 26"
definition ARM_FEATURE_AARCH64 :: nat where "ARM_FEATURE_AARCH64 = 27"
definition ARM_FEATURE_EL2 :: nat where "ARM_FEATURE_EL2 = 30"
definition ARM_FEATURE_EL3 :: nat where "ARM_FEATURE_EL3 = 31"
definition ARM_FEATURE_PMU :: nat where "ARM_FEATURE_PMU = 33"

definition BIT :: "nat \<Rightarrow> u64" where "BIT n = push_bit n 1"

definition arm_feature :: "ARMCPU \<Rightarrow> nat \<Rightarrow> bool" where
  "arm_feature cpu f \<longleftrightarrow> env_features cpu AND push_bit f 1 \<noteq> 0"

definition gzvm_arm_host_features_from_idregs :: "ARMISARegisters \<Rightarrow> u64" where
  "gzvm_arm_host_features_from_idregs i =
     (let pfr0 = id_aa64pfr0 i; dfr0 = id_aa64dfr0 i
      in BIT ARM_FEATURE_V8 OR BIT ARM_FEATURE_AARCH64 OR BIT ARM_FEATURE_V7 OR BIT ARM_FEATURE_V7VE OR BIT ARM_FEATURE_GENERIC_TIMER
         OR (if FIELD_EX64 pfr0 20 4 \<noteq> 0xf then BIT ARM_FEATURE_NEON else 0)
         OR (if FIELD_EX64 pfr0 8 4 \<noteq> 0 then BIT ARM_FEATURE_EL2 else 0)
         OR (if FIELD_EX64 pfr0 12 4 \<noteq> 0 then BIT ARM_FEATURE_EL3 else 0)
         OR (if FIELD_EX64 dfr0 8 4 \<noteq> 0 \<and> FIELD_EX64 dfr0 8 4 \<noteq> 0xf then BIT ARM_FEATURE_PMU else 0))"

section \<open>The CPU model\<close>

definition pamax_map :: "u8 list" where "pamax_map = [32, 36, 40, 42, 44, 48, 52]"

text \<open>The loop from index \<open>n - 1\<close> down; falling out of it is \<open>g_assert_not_reached()\<close>.\<close>

fun parange_from :: "u8 \<Rightarrow> nat \<Rightarrow> nat option" where
  "parange_from b 0 = None"
| "parange_from b (Suc i) = (if pamax_map ! i \<le> b then Some i else parange_from b i)"

definition round_down_to_parange_index :: "u8 \<Rightarrow> nat option" where
  "round_down_to_parange_index b = parange_from b (length pamax_map)"

definition gzvm_override_ipa_size :: "kernel \<Rightarrow> gzvm_vm \<Rightarrow> ARMISARegisters \<Rightarrow> (ARMISARegisters \<times> gzvm_vm) option" where
  "gzvm_override_ipa_size K v i =
     (let (a, v) = gzvm_vm_ioctl K (GZVM_CHECK_EXTENSION GZVM_CAP_ARM_VM_IPA_SIZE) v
      in do {
        gz \<leftarrow> (if ans_ret a = 0 \<and> ans_out a > 0 then round_down_to_parange_index (ucast (ans_out a)) else Some 2);
        Some (if FIELD_EX64 (id_aa64mmfr0 i) 0 4 < of_nat gz
              then i\<lparr>id_aa64mmfr0 := FIELD_DP64 (id_aa64mmfr0 i) 0 4 (of_nat gz)\<rparr> else i, v)
      })"

definition gzvm_mask_sve_sme :: "ARMISARegisters \<Rightarrow> ARMISARegisters" where
  "gzvm_mask_sve_sme i =
     i\<lparr>id_aa64pfr0 := FIELD_DP64 (id_aa64pfr0 i) 32 4 0,
       id_aa64pfr1 := FIELD_DP64 (FIELD_DP64 (id_aa64pfr1 i) 24 4 0) 36 4 0,
       id_aa64smfr0 := 0, id_aa64zfr0 := 0\<rparr>"

definition gzvm_mask_pmu :: "ARMCPU \<Rightarrow> ARMCPU" where
  "gzvm_mask_pmu cpu =
     cpu\<lparr>isar := (isar cpu)\<lparr>id_aa64dfr0 := FIELD_DP64 (id_aa64dfr0 (isar cpu)) 8 4 0\<rparr>,
         env_features := env_features cpu AND NOT (BIT ARM_FEATURE_PMU), has_pmu := False\<rparr>"

definition gzvm_arm_set_cpu_features_from_host ::
  "kernel \<Rightarrow> host_regs \<Rightarrow> feature_cache option \<Rightarrow> gzvm_vm \<Rightarrow> ARMCPU \<Rightarrow> (ARMCPU \<times> feature_cache option \<times> gzvm_vm) option" where
  "gzvm_arm_set_cpu_features_from_host K H cache v cpu =
     (let (ok, cache, cpu) = gzvm_arm_read_host_cpu_features H cache cpu
      in if \<not> ok then Some (cpu\<lparr>host_cpu_probe_failed := True\<rparr>, cache, v)
         else do {
           let cpu = cpu\<lparr>env_features := gzvm_arm_host_features_from_idregs (isar cpu), reset_sctlr := 0x00c50078,
             dtb_compatible := ''arm,armv8''\<rparr>;
           (i, v) \<leftarrow> gzvm_override_ipa_size K v (isar cpu);
           Some (gzvm_mask_pmu (cpu\<lparr>isar := gzvm_mask_sve_sme i\<rparr>), cache, v)
         })"

section \<open>The interrupt inputs of a CPU\<close>

definition ARM_CPU_IRQ :: int where "ARM_CPU_IRQ = 0"
definition ARM_CPU_FIQ :: int where "ARM_CPU_FIQ = 1"
definition ARM_CPU_VIRQ :: int where "ARM_CPU_VIRQ = 2"
definition ARM_CPU_VFIQ :: int where "ARM_CPU_VFIQ = 3"
definition ARM_CPU_NMI :: int where "ARM_CPU_NMI = 4"
definition ARM_CPU_VINMI :: int where "ARM_CPU_VINMI = 5"
definition CPU_INTERRUPT_HARD :: u32 where "CPU_INTERRUPT_HARD = 0x0002"
definition CPU_INTERRUPT_FIQ :: u32 where "CPU_INTERRUPT_FIQ = 0x0010"
definition CPU_INTERRUPT_VIRQ :: u32 where "CPU_INTERRUPT_VIRQ = 0x0040"
definition CPU_INTERRUPT_VFIQ :: u32 where "CPU_INTERRUPT_VFIQ = 0x0200"
definition CPU_INTERRUPT_NMI :: u32 where "CPU_INTERRUPT_NMI = 0x1000"
definition CPU_INTERRUPT_VINMI :: u32 where "CPU_INTERRUPT_VINMI = 0x0008"

definition set_line_state :: "u32 \<Rightarrow> int \<Rightarrow> ARMCPU \<Rightarrow> ARMCPU" where
  "set_line_state m level cpu =
     cpu\<lparr>irq_line_state := (if level \<noteq> 0 then irq_line_state cpu OR m else irq_line_state cpu AND NOT m)\<rparr>"

text \<open>
  \<open>arm_cpu_update_virq()\<close> and \<open>arm_cpu_update_vfiq()\<close>; \<open>hcr\<close> is whether the hypervisor configuration
  registers of the CPU ask for the interrupt themselves.  Kicking the vCPU is not part of the
  CPU's state.
\<close>

definition arm_cpu_update :: "u32 \<Rightarrow> bool \<Rightarrow> ARMCPU \<Rightarrow> ARMCPU" where
  "arm_cpu_update m hcr cpu =
     (let new_state = (hcr \<or> irq_line_state cpu AND m \<noteq> 0)
      in if new_state \<noteq> (interrupt_request cpu AND m \<noteq> 0)
         then (if new_state then cpu\<lparr>interrupt_request := interrupt_request cpu OR m\<rparr>
               else cpu\<lparr>interrupt_request := interrupt_request cpu AND NOT m\<rparr>)
         else cpu)"

definition arm_cpu_gzvm_set_irq :: "kernel \<Rightarrow> bool \<Rightarrow> bool \<Rightarrow> int \<Rightarrow> int \<Rightarrow> gzvm_vm \<Rightarrow> ARMCPU \<Rightarrow> (ARMCPU \<times> gzvm_vm) option" where
  "arm_cpu_gzvm_set_irq K hcr_vi hcr_vf irq level v cpu =
     (if \<not> arm_feature cpu ARM_FEATURE_EL2 \<and> (irq = ARM_CPU_VIRQ \<or> irq = ARM_CPU_VFIQ) then Some (cpu, v)
      else if irq = ARM_CPU_IRQ \<or> irq = ARM_CPU_FIQ then
        (let (irq_id, linestate_bit) = (if irq = ARM_CPU_IRQ then (GZVM_IRQ_CPU_IRQ, CPU_INTERRUPT_HARD) else (GZVM_IRQ_CPU_FIQ, CPU_INTERRUPT_FIQ));
             w = push_bit GZVM_IRQ_TYPE_SHIFT GZVM_IRQ_TYPE_CPU OR irq_id
         in Some (set_line_state linestate_bit level cpu,
                  snd (gzvm_vm_ioctl K (GZVM_IRQ_LINE \<lparr>il_irq = w, il_level = of_bool (level \<noteq> 0)\<rparr>) v)))
      else if irq = ARM_CPU_VIRQ then
        Some (arm_cpu_update CPU_INTERRUPT_VIRQ hcr_vi (set_line_state CPU_INTERRUPT_VIRQ level cpu), v)
      else if irq = ARM_CPU_VFIQ then
        Some (arm_cpu_update CPU_INTERRUPT_VFIQ hcr_vf (set_line_state CPU_INTERRUPT_VFIQ level cpu), v)
      else if irq = ARM_CPU_NMI then Some (set_line_state CPU_INTERRUPT_NMI level cpu, v)
      else if irq = ARM_CPU_VINMI then Some (set_line_state CPU_INTERRUPT_VINMI level cpu, v)
      else None)"

section \<open>Lemmas\<close>

lemma field_ex64_bit:
  assumes "0 < n" "a + n \<le> 64"
  shows "bit (FIELD_EX64 v a n) k \<longleftrightarrow> k < n \<and> bit v (a + k)"
proof -
  obtain r where "extract64 v (int a) (int n) = Some r" "\<forall>k. bit r k \<longleftrightarrow> k < n \<and> bit v (a + k)"
    using extract64_field [OF assms] by blast
  then show ?thesis by (simp add: FIELD_EX64_def)
qed

lemma field_dp64_bit:
  assumes "0 < n" "a + n \<le> 64"
  shows "bit (FIELD_DP64 v a n f) k \<longleftrightarrow> (if a \<le> k \<and> k < a + n then bit f (k - a) else bit v k)"
proof -
  obtain r where r: "deposit64 v (int a) (int n) (take_bit n f) = Some r"
    "\<forall>k < 64. bit r k \<longleftrightarrow> (if a \<le> k \<and> k < a + n then bit (take_bit n f) (k - a) else bit v k)"
    using deposit64_field [OF assms] by blast
  show ?thesis
  proof (cases "k < 64")
    case True
    with r show ?thesis by (simp add: FIELD_DP64_def bit_take_bit_iff less_diff_conv2)
  next
    case False
    then have "\<not> bit (FIELD_DP64 v a n f) k" "\<not> bit v k"
      using bit_imp_le_length [of "FIELD_DP64 v a n f" k] bit_imp_le_length [of v k] by auto
    with False assms(2) show ?thesis by simp
  qed
qed

lemma field_after_deposit:
  assumes "0 < n" "a + n \<le> 64"
  shows "FIELD_EX64 (FIELD_DP64 v a n f) a n = take_bit n f"
  using assms(1)
  by (intro bit_word_eqI)
    (simp add: field_ex64_bit [OF assms] field_dp64_bit [OF assms] bit_take_bit_iff conj_commute cong: conj_cong)

lemma field_other:
  assumes "0 < n" "a + n \<le> 64" "0 < m" "b + m \<le> 64" "a + n \<le> b \<or> b + m \<le> a"
  shows "FIELD_EX64 (FIELD_DP64 v a n f) b m = FIELD_EX64 v b m"
proof (rule bit_word_eqI)
  fix k
  have "k < m \<Longrightarrow> \<not> (a \<le> b + k \<and> b + k < a + n)" using assms(5) by linarith
  then show "bit (FIELD_EX64 (FIELD_DP64 v a n f) b m) k = bit (FIELD_EX64 v b m) k"
    by (simp only: field_ex64_bit [OF assms(3,4)] field_dp64_bit [OF assms(1,2)] if_False cong: conj_cong)
qed


text \<open>The rows are the registers they name: different encodings, read back as written, and no shared member.\<close>

definition reads_back :: "id_reg \<Rightarrow> u64 \<Rightarrow> ARMCPU \<Rightarrow> bool" where
  "reads_back r v cpu \<longleftrightarrow> id_get r (id_set r v cpu) = v \<or> id_get r (id_set r v cpu) = take_bit 32 v"

definition decodes :: "id_reg \<Rightarrow> bool" where
  "decodes r \<longleftrightarrow> drop_bit 14 (id_enc r) = id_op0 r \<and> drop_bit 11 (id_enc r) AND 7 = id_op1 r \<and>
     drop_bit 7 (id_enc r) AND 15 = id_crn r \<and> drop_bit 3 (id_enc r) AND 15 = id_crm r \<and> id_enc r AND 7 = id_op2 r"

fun apart :: "id_reg list \<Rightarrow> u64 \<Rightarrow> ARMCPU \<Rightarrow> bool" where
  "apart [] v cpu \<longleftrightarrow> True"
| "apart (r # rs) v cpu \<longleftrightarrow>
     list_all (\<lambda>q. id_get q (id_set r v cpu) = id_get q cpu \<and> id_get r (id_set q v cpu) = id_get r cpu) rs \<and> apart rs v cpu"

lemma reg_size_u64: "GZVM_REG_SIZE_U64 = 0x0030000000000000"
  by code_simp

lemmas reg_id_consts = GZVM_REG_ARM64_def GZVM_REG_ARM64_SYSREG_def GZVM_REG_ARM_CORE_def reg_size_u64

lemma ucast_ucast_32: "ucast (ucast (v :: u64) :: u32) = take_bit 32 v"
  by (rule bit_word_eqI) (simp add: bit_simps)

text \<open>
  The table of ID registers is sound: no two rows name the same register to the host, each
  encoding contains the five fields it was built from, a value probed into a row is the value the row
  pushes (cut to 32 bits for a register of AArch32), and probing one row leaves every other as it is.
\<close>

lemma id_registers_apart:
  "distinct (map id_sysid GZVM_ID_REG_LIST) \<and> list_all decodes GZVM_ID_REG_LIST \<and>
   list_all (\<lambda>r. reads_back r v cpu) GZVM_ID_REG_LIST \<and> apart GZVM_ID_REG_LIST v cpu"
proof (intro conjI)
  show "distinct (map id_sysid GZVM_ID_REG_LIST)"
    by (simp add: GZVM_ID_REG_LIST_def id_row_def id_sysid_def id_enc_def reg_id_consts)
  show "list_all decodes GZVM_ID_REG_LIST"
    by (simp add: GZVM_ID_REG_LIST_def id_row_def decodes_def id_enc_def)
  show "list_all (\<lambda>r. reads_back r v cpu) GZVM_ID_REG_LIST"
    by (simp add: GZVM_ID_REG_LIST_def id_row_def reads_back_def ucast_ucast_32)
  show "apart GZVM_ID_REG_LIST v cpu"
    by (simp add: GZVM_ID_REG_LIST_def id_row_def)
qed


section \<open>Programming a vCPU\<close>

definition reg_call :: "int \<Rightarrow> u64 \<Rightarrow> u64 \<Rightarrow> host_call" where
  "reg_call fd i v = VcpuIoctl fd (GZVM_SET_ONE_REG \<lparr>reg_id = i, reg_val = v\<rparr>)"

definition id_calls :: "int \<Rightarrow> ARMCPU \<Rightarrow> id_reg list \<Rightarrow> host_call list" where
  "id_calls fd cpu rs = map (\<lambda>r. reg_call fd (id_sysid r) (id_get r cpu)) (filter (\<lambda>r. id_get r cpu \<noteq> 0) rs)"

definition core_calls :: "int \<Rightarrow> ARMCPU \<Rightarrow> host_call list" where
  "core_calls fd cpu = [reg_call fd (GZVM_CORE_REG GZVM_REGS_PSTATE) (PSTATE_DAIF OR PSTATE_MODE_EL1h),
     reg_call fd (GZVM_CORE_REG GZVM_REGS_PC) (env_pc cpu), reg_call fd (GZVM_CORE_REG (GZVM_REGS_X 0)) (hd (env_xregs cpu))]"

text \<open>Issuing requests until one is refused.\<close>

fun until_refused :: "kernel \<Rightarrow> host_call list \<Rightarrow> history \<Rightarrow> int \<times> history" where
  "until_refused K [] h = (0, h)"
| "until_refused K (c # cs) h =
     (let ret = ans_ret (K h c) in if ret \<noteq> 0 then (ret, h @ [c]) else until_refused K cs (h @ [c]))"

lemma set_one_reg_call: "gzvm_set_one_reg K fd i v h = (ans_ret (K h (reg_call fd i v)), h @ [reg_call fd i v])"
  by (simp add: gzvm_set_one_reg_def hcall_def reg_call_def)

lemma set_id_regs_calls: "snd (set_id_regs K fd cpu rs n h) = h @ id_calls fd cpu rs"
  by (induction rs arbitrary: n h) (simp_all add: id_calls_def set_one_reg_call Let_def)

text \<open>
  Programming a vCPU issues exactly these requests, in this order: for the first vCPU every ID
  register that is not zero, whatever the host says to each of them, then the processor state with
  interrupts masked at EL1, the entry point and the address of the device tree, stopping at the first
  one the host refuses and returning its error; for any other vCPU the processor state alone.
\<close>

lemma put_registers_requests:
  assumes "env_xregs cpu \<noteq> []"
  shows "gzvm_arch_put_registers K first fd cpu h =
    Some (if first then until_refused K (core_calls fd cpu) (h @ id_calls fd cpu GZVM_ID_REG_LIST)
          else until_refused K (take 1 (core_calls fd cpu)) h)"
proof -
  have x: "aget (env_xregs cpu) 0 = Some (hd (env_xregs cpu))" using assms by (simp add: aget_def hd_conv_nth)
  have i: "gzvm_arch_set_id_regs K fd cpu h = (fst (gzvm_arch_set_id_regs K fd cpu h), h @ id_calls fd cpu GZVM_ID_REG_LIST)"
    by (metis gzvm_arch_set_id_regs_def prod.collapse set_id_regs_calls)
  show ?thesis
    unfolding gzvm_arch_put_registers_def
    by (subst i) (simp add: gzvm_set_one_reg_err_def set_one_reg_call core_calls_def x Let_def)
qed

section \<open>What the CPU model leaves out\<close>

lemma pamax_simps: "length pamax_map = 7" "pamax_map ! 0 = 32" "pamax_map ! Suc 0 = 36"
  "pamax_map ! 2 = 40" "pamax_map ! 3 = 42" "pamax_map ! 4 = 44" "pamax_map ! 5 = 48" "pamax_map ! 6 = 52"
  by (simp_all add: pamax_map_def)

lemma parange_from_None: "parange_from b n = None \<longleftrightarrow> (\<forall>i < n. b < pamax_map ! i)"
  by (induction n) (auto simp: less_Suc_eq)

lemma parange_from_Some:
  "parange_from b n = Some i \<Longrightarrow> i < n \<and> pamax_map ! i \<le> b \<and> (\<forall>j < n. i < j \<longrightarrow> b < pamax_map ! j)"
  by (induction n) (auto simp: less_Suc_eq split: if_splits)

lemma round_down_None: "round_down_to_parange_index b = None \<longleftrightarrow> b < 32"
proof
  assume "round_down_to_parange_index b = None"
  then show "b < 32" unfolding round_down_to_parange_index_def parange_from_None pamax_simps
    by (metis pamax_simps(2) zero_less_numeral)
next
  assume "b < 32"
  moreover have "list_all (\<lambda>x. 32 \<le> x) pamax_map" by (simp add: pamax_map_def)
  then have "32 \<le> pamax_map ! i" if "i < 7" for i using that by (simp add: list_all_length pamax_simps)
  ultimately show "round_down_to_parange_index b = None"
    unfolding round_down_to_parange_index_def parange_from_None pamax_simps by (blast intro: less_le_trans)
qed

lemma round_down_Some:
  "round_down_to_parange_index b = Some i \<Longrightarrow> i < 7 \<and> pamax_map ! i \<le> b \<and> (i < 6 \<longrightarrow> b < pamax_map ! Suc i)"
  using parange_from_Some [of b 7 i] by (simp add: round_down_to_parange_index_def pamax_simps)


text \<open>The features the CPU model must not have, and the place of each in its register.\<close>

definition hidden_fields :: "ARMISARegisters \<Rightarrow> u64 list" where
  "hidden_fields i = [FIELD_EX64 (id_aa64pfr0 i) 32 4, FIELD_EX64 (id_aa64pfr1 i) 24 4, FIELD_EX64 (id_aa64pfr1 i) 36 4,
     FIELD_EX64 (id_aa64dfr0 i) 8 4, id_aa64zfr0 i, id_aa64smfr0 i]"

text \<open>\<open>p\<close> is the largest physical address range of the architecture that the host's answer covers.\<close>

definition ipa_index :: "host_answer \<Rightarrow> nat \<Rightarrow> bool" where
  "ipa_index a p \<longleftrightarrow>
     (if ans_ret a = 0 \<and> ans_out a > 0
      then p < 7 \<and> pamax_map ! p \<le> ucast (ans_out a) \<and> (p < 6 \<longrightarrow> ucast (ans_out a) < pamax_map ! Suc p)
      else p = 2)"

lemma ipa_index_not_small: "ipa_index a p \<Longrightarrow> \<not> (ans_ret a = 0 \<and> ans_out a > 0 \<and> (ucast (ans_out a) :: u8) < 32)"
proof
  assume "ipa_index a p" "ans_ret a = 0 \<and> ans_out a > 0 \<and> (ucast (ans_out a) :: u8) < 32"
  then have p: "p < 7" "pamax_map ! p < 32" by (auto simp: ipa_index_def)
  have "list_all (\<lambda>x. \<not> x < 32) pamax_map" by (simp add: pamax_map_def)
  with p show False by (simp add: list_all_length pamax_simps)
qed

lemma override_ipa_size_cases:
  fixes K v i a
  defines "a \<equiv> fst (gzvm_vm_ioctl K (GZVM_CHECK_EXTENSION GZVM_CAP_ARM_VM_IPA_SIZE) v)"
  shows "case gzvm_override_ipa_size K v i of
      None \<Rightarrow> ans_ret a = 0 \<and> ans_out a > 0 \<and> (ucast (ans_out a) :: u8) < 32
    | Some (j, _) \<Rightarrow> \<exists>p. ipa_index a p \<and>
        FIELD_EX64 (id_aa64mmfr0 j) 0 4 = max (FIELD_EX64 (id_aa64mmfr0 i) 0 4) (of_nat p) \<and>
        j = i\<lparr>id_aa64mmfr0 := id_aa64mmfr0 j\<rparr> \<and>
        FIELD_EX64 (id_aa64mmfr0 j) 4 60 = FIELD_EX64 (id_aa64mmfr0 i) 4 60"
proof -
  let ?gz = "if ans_ret a = 0 \<and> ans_out a > 0 then round_down_to_parange_index (ucast (ans_out a)) else Some 2"
  obtain v' where a: "gzvm_vm_ioctl K (GZVM_CHECK_EXTENSION GZVM_CAP_ARM_VM_IPA_SIZE) v = (a, v')"
    by (metis a_def prod.collapse)
  show ?thesis
  proof (cases ?gz)
    case None
    then show ?thesis by (auto simp: gzvm_override_ipa_size_def a round_down_None split: if_splits)
  next
    case (Some p)
    then have p: "ipa_index a p" "p < 7"
      using round_down_Some by (auto simp: ipa_index_def split: if_splits)
    have t: "take_bit 4 (of_nat p :: u64) = of_nat p"
      using p(2) by (simp add: take_bit_of_nat take_bit_nat_eq_self)
    have f: "FIELD_EX64 (FIELD_DP64 w 0 4 (of_nat p)) 0 4 = of_nat p" for w
      using field_after_deposit [of 4 0 w "of_nat p"] t by simp
    have o: "FIELD_EX64 (FIELD_DP64 w 0 4 (of_nat p)) 4 60 = FIELD_EX64 w 4 60" for w
      using field_other [of 4 0 60 4 w "of_nat p"] by simp
    show ?thesis using p(1) Some by (auto simp: gzvm_override_ipa_size_def a f o max_def)
  qed
qed


lemma feature_cleared: "env_features cpu = f AND NOT (BIT n) \<Longrightarrow> \<not> arm_feature cpu n"
proof -
  have "(f AND NOT (BIT n)) AND push_bit n 1 = 0"
    by (rule bit_word_eqI) (auto simp: BIT_def bit_simps)
  then show "env_features cpu = f AND NOT (BIT n) \<Longrightarrow> \<not> arm_feature cpu n" by (simp add: arm_feature_def)
qed

lemma zero_field: "0 < n \<Longrightarrow> a + n \<le> 64 \<Longrightarrow> FIELD_EX64 (FIELD_DP64 v a n 0) a n = 0"
  by (simp add: field_after_deposit)

text \<open>
  C17.  The CPU model built from the host's registers, which is what QEMU's CPU object holds and what the
  first vCPU is programmed from, has no SVE, SME, NMI or performance monitor, in the registers or in
  the feature set; the exception levels and the floating point of the host are kept.  Its physical
  address range is the larger of the host's and of what the hypervisor answers, rounded down to a
  range the architecture has (40 bits if it gives no answer or answers 0).  The code aborts exactly
  when the hypervisor gives an answer other than 0 whose low byte is below 32.
\<close>

theorem cpu_model_masked:
  fixes K H cache v cpu cache' c0 a
  assumes "gzvm_arm_read_host_cpu_features H cache cpu = (True, cache', c0)"
  defines "a \<equiv> fst (gzvm_vm_ioctl K (GZVM_CHECK_EXTENSION GZVM_CAP_ARM_VM_IPA_SIZE) v)"
  shows "(gzvm_arm_set_cpu_features_from_host K H cache v cpu = None \<longleftrightarrow>
      ans_ret a = 0 \<and> ans_out a > 0 \<and> (ucast (ans_out a) :: u8) < 32) \<and>
    (case gzvm_arm_set_cpu_features_from_host K H cache v cpu of
      None \<Rightarrow> True
    | Some (c, _, _) \<Rightarrow>
        list_all (\<lambda>f. f = 0) (hidden_fields (isar c)) \<and> \<not> arm_feature c ARM_FEATURE_PMU \<and> \<not> has_pmu c \<and>
        FIELD_EX64 (id_aa64pfr0 (isar c)) 0 32 = FIELD_EX64 (id_aa64pfr0 (isar c0)) 0 32 \<and>
        (\<exists>p. ipa_index a p \<and>
           FIELD_EX64 (id_aa64mmfr0 (isar c)) 0 4 = max (FIELD_EX64 (id_aa64mmfr0 (isar c0)) 0 4) (of_nat p)) \<and>
        FIELD_EX64 (id_aa64mmfr0 (isar c)) 4 60 = FIELD_EX64 (id_aa64mmfr0 (isar c0)) 4 60)"
proof (cases "gzvm_override_ipa_size K v (isar c0)")
  case None
  with override_ipa_size_cases [of K v "isar c0"] show ?thesis
    by (simp add: gzvm_arm_set_cpu_features_from_host_def assms(1) a_def)
next
  case (Some r)
  obtain j v' where r: "r = (j, v')" by (cases r)
  then obtain p where p: "ipa_index a p" "FIELD_EX64 (id_aa64mmfr0 j) 0 4 = max (FIELD_EX64 (id_aa64mmfr0 (isar c0)) 0 4) (of_nat p)"
    "FIELD_EX64 (id_aa64mmfr0 j) 4 60 = FIELD_EX64 (id_aa64mmfr0 (isar c0)) 4 60" and j: "j = (isar c0)\<lparr>id_aa64mmfr0 := id_aa64mmfr0 j\<rparr>"
    using override_ipa_size_cases [of K v "isar c0"] Some by (auto simp: a_def)
  have p0: "id_aa64pfr0 j = id_aa64pfr0 (isar c0)" by (subst j) simp
  have low: "FIELD_EX64 (FIELD_DP64 w 32 4 0) 0 32 = FIELD_EX64 w 0 32" "FIELD_EX64 (FIELD_DP64 w 36 4 0) 24 4 = FIELD_EX64 w 24 4" for w
    by (simp_all add: field_other)
  have pmu: "\<not> arm_feature (gzvm_mask_pmu c) ARM_FEATURE_PMU" for c
    by (rule feature_cleared) (simp add: gzvm_mask_pmu_def)
  have "\<not> (ans_ret a = 0 \<and> ans_out a > 0 \<and> (ucast (ans_out a) :: u8) < 32)" using ipa_index_not_small [OF p(1)] .
  then show ?thesis using p
    by (auto simp: gzvm_arm_set_cpu_features_from_host_def assms(1) Some r pmu)
      (simp_all add: gzvm_mask_pmu_def gzvm_mask_sve_sme_def hidden_fields_def zero_field low p0, blast+)
qed


section \<open>Every vCPU has the same CPU model\<close>

text \<open>The host may answer each probe differently: the thread may run on another core by then.\<close>

fun create_cpus :: "kernel \<Rightarrow> (host_regs \<times> ARMCPU) list \<Rightarrow> feature_cache option \<Rightarrow> gzvm_vm \<Rightarrow> ARMCPU list option" where
  "create_cpus K [] cache v = Some []"
| "create_cpus K ((H, cpu) # hs) cache v = do {
     (c, cache, v) \<leftarrow> gzvm_arm_set_cpu_features_from_host K H cache v cpu;
     cs \<leftarrow> create_cpus K hs cache v;
     Some (c # cs)
   }"

text \<open>
  The processor a CPU object describes.  Of the vCPUs only the first is programmed with these
  registers; on the others the hypervisor has its own.
\<close>

definition cpu_model :: "ARMCPU \<Rightarrow> ARMISARegisters \<times> u64 \<times> u32 \<times> u64 \<times> u64 \<times> u64 \<times> u64 option" where
  "cpu_model c = (isar c, arm_midr c, arm_revidr c, arm_ctr c, id_aa64afr0 c, id_aa64afr1 c,
     if host_cpu_probe_failed c then None else Some (env_features c))"

definition steady_ipa :: "kernel \<Rightarrow> bool" where
  "steady_ipa K \<longleftrightarrow> (\<forall>h h' fd. K h (VmIoctl fd (GZVM_CHECK_EXTENSION GZVM_CAP_ARM_VM_IPA_SIZE)) =
     K h' (VmIoctl fd (GZVM_CHECK_EXTENSION GZVM_CAP_ARM_VM_IPA_SIZE)))"

definition present :: "kernel \<Rightarrow> gzvm_vm \<Rightarrow> feature_cache \<Rightarrow> ARMISARegisters \<times> u64 \<times> u32 \<times> u64 \<times> u64 \<times> u64 \<times> u64 option" where
  "present K v c =
     (if cached_ok c
      then (let i = gzvm_mask_sve_sme (fst (the (gzvm_override_ipa_size K v (cached_isar c))))
            in (i\<lparr>id_aa64dfr0 := FIELD_DP64 (id_aa64dfr0 i) 8 4 0\<rparr>, cached_midr_val c, ucast (cached_revidr_val c),
                cached_ctr c, cached_afr0 c, cached_afr1 c,
                Some (gzvm_arm_host_features_from_idregs (cached_isar c) AND NOT (BIT ARM_FEATURE_PMU))))
      else (cached_isar c, cached_midr_val c, ucast (cached_revidr_val c), cached_ctr c, cached_afr0 c, cached_afr1 c, None))"

lemma present_steady:
  assumes "steady_ipa K" "vmfd (vm_state v') = vmfd (vm_state v)"
  shows "present K v' c = present K v c"
proof -
  have "K (vm_hist v') (VmIoctl (vmfd (vm_state v')) (GZVM_CHECK_EXTENSION GZVM_CAP_ARM_VM_IPA_SIZE)) =
      K (vm_hist v) (VmIoctl (vmfd (vm_state v)) (GZVM_CHECK_EXTENSION GZVM_CAP_ARM_VM_IPA_SIZE))"
    using assms by (simp add: steady_ipa_def)
  then have "fst (the (gzvm_override_ipa_size K v' i)) = fst (the (gzvm_override_ipa_size K v i))" for i
    by (cases "round_down_to_parange_index (ucast (ans_out (K (vm_hist v) (VmIoctl (vmfd (vm_state v)) (GZVM_CHECK_EXTENSION GZVM_CAP_ARM_VM_IPA_SIZE)))))")
      (simp_all add: gzvm_override_ipa_size_def gzvm_vm_ioctl_def hcall_def Let_def)
  then show ?thesis by (simp add: present_def Let_def)
qed


lemma revidr_round: "ucast (ucast (x :: u32) :: u64) = x"
  by (rule bit_word_eqI) (simp add: bit_simps)

lemma read_host_cached:
  "gzvm_arm_read_host_cpu_features H cache cpu = (ok, cache', c0) \<Longrightarrow>
   \<exists>c. cache' = Some c \<and> (cache = None \<or> cache = Some c) \<and> ok = cached_ok c \<and> isar c0 = cached_isar c \<and>
     arm_midr c0 = cached_midr_val c \<and> arm_revidr c0 = ucast (cached_revidr_val c) \<and> arm_ctr c0 = cached_ctr c \<and>
     id_aa64afr0 c0 = cached_afr0 c \<and> id_aa64afr1 c0 = cached_afr1 c"
  by (cases cache) (auto simp: gzvm_arm_read_host_cpu_features_def revidr_round split: prod.splits)

lemma probe_regs_failed: "list_all (\<lambda>r. \<forall>v c. host_cpu_probe_failed (id_set r v c) = host_cpu_probe_failed c) rs \<Longrightarrow>
  host_cpu_probe_failed (snd (probe_regs H rs n cpu)) = host_cpu_probe_failed cpu"
  by (induction rs arbitrary: n cpu) (auto split: option.split)

lemma probe_failed: "host_cpu_probe_failed (snd (gzvm_probe_host_cpu_features H cpu)) = host_cpu_probe_failed cpu"
proof -
  have "list_all (\<lambda>r. \<forall>v c. host_cpu_probe_failed (id_set r v c) = host_cpu_probe_failed c) GZVM_ID_REG_LIST"
    by (simp add: GZVM_ID_REG_LIST_def id_row_def)
  from probe_regs_failed [OF this, of H 0 cpu] show ?thesis
    by (simp add: gzvm_probe_host_cpu_features_def Let_def case_prod_beta split: option.split)
qed

lemma read_host_failed:
  "gzvm_arm_read_host_cpu_features H cache cpu = (ok, cache', c0) \<Longrightarrow> host_cpu_probe_failed c0 = host_cpu_probe_failed cpu"
  using probe_failed [of H cpu]
  by (cases cache) (auto simp: gzvm_arm_read_host_cpu_features_def Let_def case_prod_beta)

lemma override_keeps_fd:
  "gzvm_override_ipa_size K v i = Some (j, v') \<Longrightarrow> vmfd (vm_state v') = vmfd (vm_state v)"
  by (auto simp: gzvm_override_ipa_size_def gzvm_vm_ioctl_def hcall_def Let_def bind_eq_Some_conv)

lemma features_present:
  assumes "gzvm_arm_set_cpu_features_from_host K H cache v cpu = Some (c1, cache', v')" "\<not> host_cpu_probe_failed cpu"
  shows "\<exists>c. cache' = Some c \<and> (cache = None \<or> cache = Some c) \<and> cpu_model c1 = present K v c \<and>
    vmfd (vm_state v') = vmfd (vm_state v)"
proof -
  obtain ok k c0 where r: "gzvm_arm_read_host_cpu_features H cache cpu = (ok, k, c0)" by (metis prod_cases3)
  obtain c where c: "k = Some c" "cache = None \<or> cache = Some c" "ok = cached_ok c" "isar c0 = cached_isar c"
    "arm_midr c0 = cached_midr_val c" "arm_revidr c0 = ucast (cached_revidr_val c)" "arm_ctr c0 = cached_ctr c"
    "id_aa64afr0 c0 = cached_afr0 c" "id_aa64afr1 c0 = cached_afr1 c"
    using read_host_cached [OF r] by blast
  have f: "\<not> host_cpu_probe_failed c0" using read_host_failed [OF r] assms(2) by simp
  show ?thesis
  proof (cases ok)
    case False
    then have "c1 = c0\<lparr>host_cpu_probe_failed := True\<rparr>" "cache' = k" "v' = v"
      using assms(1) by (simp_all add: gzvm_arm_set_cpu_features_from_host_def r)
    with False c show ?thesis by (simp add: cpu_model_def present_def)
  next
    case True
    then obtain j where o: "gzvm_override_ipa_size K v (isar c0) = Some (j, v')" "cache' = k"
      and c1: "c1 = gzvm_mask_pmu (c0\<lparr>env_features := gzvm_arm_host_features_from_idregs (isar c0),
        reset_sctlr := 0x00c50078, dtb_compatible := ''arm,armv8'', isar := gzvm_mask_sve_sme j\<rparr>)"
      using assms(1) by (auto simp: gzvm_arm_set_cpu_features_from_host_def r bind_eq_Some_conv)
    have "cpu_model c1 = present K v c"
      using True o(1) c f by (simp add: c1 cpu_model_def present_def gzvm_mask_pmu_def Let_def)
    with o(2) c(1,2) override_keeps_fd [OF o(1)] show ?thesis by blast
  qed
qed

lemma create_cpus_present:
  "\<lbrakk>create_cpus K hs (Some c) v = Some cs; steady_ipa K; list_all (\<lambda>(H, cpu). \<not> host_cpu_probe_failed cpu) hs\<rbrakk> \<Longrightarrow>
   list_all (\<lambda>x. cpu_model x = present K v c) cs"
proof (induction hs arbitrary: v cs)
  case (Cons e hs)
  obtain H cpu where e: "e = (H, cpu)" by (cases e)
  from Cons.prems(1) e obtain c1 k v' cs' where s: "gzvm_arm_set_cpu_features_from_host K H (Some c) v cpu = Some (c1, k, v')"
    "create_cpus K hs k v' = Some cs'" "cs = c1 # cs'" by (auto simp: bind_eq_Some_conv)
  then have k: "k = Some c" "cpu_model c1 = present K v c" "vmfd (vm_state v') = vmfd (vm_state v)"
    using features_present [OF s(1)] Cons.prems(3) e by auto
  show ?case using Cons.IH [of v' cs'] s k Cons.prems(2,3) present_steady [OF Cons.prems(2) k(3), of c] by simp
qed simp

text \<open>
  C16.  The CPU model is the same for all the vCPUs of a machine, even if the host would answer the probe
  differently for each of them, as the cores of a heterogeneous host do: their CPU objects have the
  same ID registers, identification, cache type and features, or all record that the probe failed.
  It is assumed that the hypervisor's answer on the address size does not change.
\<close>

theorem vcpu_models_agree:
  assumes "create_cpus K hs None v = Some cs" "steady_ipa K" "list_all (\<lambda>(H, cpu). \<not> host_cpu_probe_failed cpu) hs"
  shows "list_all (\<lambda>x. cpu_model x = cpu_model (hd cs)) cs"
proof (cases hs)
  case Nil
  with assms(1) show ?thesis by simp
next
  case (Cons e hs')
  obtain H cpu where e: "e = (H, cpu)" by (cases e)
  from assms(1) Cons e obtain c1 k v' cs' where s: "gzvm_arm_set_cpu_features_from_host K H None v cpu = Some (c1, k, v')"
    "create_cpus K hs' k v' = Some cs'" "cs = c1 # cs'" by (auto simp: bind_eq_Some_conv)
  obtain c where c: "k = Some c" "cpu_model c1 = present K v c" "vmfd (vm_state v') = vmfd (vm_state v)"
    using features_present [OF s(1)] assms(3) Cons e by auto
  have "list_all (\<lambda>x. cpu_model x = present K v' c) cs'"
    using create_cpus_present [of K hs' c v' cs'] s(2) c(1) assms(2,3) Cons by simp
  then show ?thesis using s(3) c present_steady [OF assms(2) c(3), of c] by simp
qed


section \<open>Example processors\<close>

definition blank_isar :: ARMISARegisters where
  "blank_isar = \<lparr>id_pfr0 = 0, id_pfr1 = 0, id_dfr0 = 0, id_mmfr0 = 0, id_mmfr1 = 0, id_mmfr2 = 0, id_mmfr3 = 0, id_isar0 = 0,
     id_isar1 = 0, id_isar2 = 0, id_isar3 = 0, id_isar4 = 0, id_isar5 = 0, id_mmfr4 = 0, id_isar6 = 0, mvfr0 = 0, mvfr1 = 0,
     mvfr2 = 0, id_pfr2 = 0, id_dfr1 = 0, id_mmfr5 = 0, id_aa64pfr0 = 0, id_aa64pfr1 = 0, id_aa64zfr0 = 0, id_aa64smfr0 = 0,
     id_aa64dfr0 = 0, id_aa64dfr1 = 0, id_aa64isar0 = 0, id_aa64isar1 = 0, id_aa64isar2 = 0, id_aa64mmfr0 = 0,
     id_aa64mmfr1 = 0, id_aa64mmfr2 = 0, id_aa64mmfr3 = 0\<rparr>"

definition example_cpu :: ARMCPU where
  "example_cpu = \<lparr>isar = blank_isar, arm_midr = 0, arm_revidr = 0, arm_ctr = 0, id_aa64afr0 = 0, id_aa64afr1 = 0, env_features = 0,
     reset_sctlr = 0, has_pmu = True, host_cpu_probe_failed = False, dtb_compatible = [], env_pstate = 0, env_pc = 0x40080000,
     env_xregs = replicate 32 0, irq_line_state = 0, interrupt_request = 0, arm_cpu_index = 0\<rparr>"

definition example_host :: "u64 \<Rightarrow> host_regs" where
  "example_host w = \<lparr>sysfs = (\<lambda>n. Some w), mrs = (\<lambda>e. None), hwcap_cpuid = True, cpuinfo = None, sigill_installed = True\<rparr>"

lemma kernel_ok_override: "gzvm_override_ipa_size kernel_ok v i \<noteq> None"
  by (simp add: gzvm_override_ipa_size_def gzvm_vm_ioctl_def hcall_def kernel_ok_def)


lemma put_registers_requests_witness:
  "gzvm_arch_put_registers kernel_ok True 5 example_cpu [] =
     Some (0, id_calls 5 example_cpu GZVM_ID_REG_LIST @ core_calls 5 example_cpu) \<and>
   gzvm_arch_put_registers kernel_ok False 5 example_cpu [] =
     Some (0, [reg_call 5 (GZVM_CORE_REG GZVM_REGS_PSTATE) (PSTATE_DAIF OR PSTATE_MODE_EL1h)])"
proof -
  have "env_xregs example_cpu \<noteq> []" by (simp add: example_cpu_def)
  then show ?thesis
    using put_registers_requests [of example_cpu kernel_ok True 5 "[]"] put_registers_requests [of example_cpu kernel_ok False 5 "[]"]
    by (simp add: core_calls_def kernel_ok_def)
qed

theorem cpu_model_masked_witness:
  "\<exists>c k w. gzvm_arm_set_cpu_features_from_host kernel_ok (example_host 0x1111111111111111) None example_vm example_cpu = Some (c, k, w) \<and>
     hidden_fields (isar c) = [0, 0, 0, 0, 0, 0] \<and> \<not> has_pmu c \<and> FIELD_EX64 (id_aa64mmfr0 (isar c)) 0 4 = 2"
proof -
  let ?H = "example_host 0x1111111111111111" and ?r = "gzvm_arm_read_host_cpu_features (example_host 0x1111111111111111) None example_cpu"
  obtain c0 k where r: "?r = (True, Some k, c0)" "id_aa64mmfr0 (isar c0) = 0x1111111111111111"
    by (simp add: gzvm_arm_read_host_cpu_features_def gzvm_probe_host_cpu_features_def GZVM_ID_REG_LIST_def id_row_def
        example_host_def Let_def)
  obtain j w where j: "gzvm_override_ipa_size kernel_ok example_vm (isar c0) = Some (j, w)"
    using kernel_ok_override [of example_vm "isar c0"] by (cases "gzvm_override_ipa_size kernel_ok example_vm (isar c0)") auto
  obtain c k' w' where s: "gzvm_arm_set_cpu_features_from_host kernel_ok ?H None example_vm example_cpu = Some (c, k', w')"
    by (simp add: gzvm_arm_set_cpu_features_from_host_def r(1) j)
  have e: "FIELD_EX64 0x1111111111111111 0 4 = 1" by code_simp
  have i: "ipa_index (fst (gzvm_vm_ioctl kernel_ok (GZVM_CHECK_EXTENSION GZVM_CAP_ARM_VM_IPA_SIZE) example_vm)) p \<longleftrightarrow> p = 2" for p
    by (simp add: ipa_index_def gzvm_vm_ioctl_hist kernel_ok_def)
  show ?thesis
    using cpu_model_masked [OF r(1), of kernel_ok example_vm] s
    by (simp add: i r(2) e hidden_fields_def max_def)
qed

theorem vcpu_models_agree_witness:
  "\<exists>c1 c2. create_cpus kernel_ok [(example_host 1, example_cpu), (example_host 2, example_cpu)] None example_vm = Some [c1, c2] \<and>
     cpu_model c2 = cpu_model c1 \<and> arm_midr c2 = 1"
proof -
  obtain c0 k where r: "gzvm_arm_read_host_cpu_features (example_host 1) None example_cpu = (True, Some k, c0)" "cached_ok k" "arm_midr c0 = 1"
    by (simp add: gzvm_arm_read_host_cpu_features_def gzvm_probe_host_cpu_features_def GZVM_ID_REG_LIST_def id_row_def
        example_host_def Let_def)
  have g: "\<exists>c w. gzvm_arm_set_cpu_features_from_host kernel_ok H m v cpu = Some (c, m', w) \<and> arm_midr c = arm_midr x"
    if "gzvm_arm_read_host_cpu_features H m cpu = (True, m', x)" for H m m' v cpu x
    using that kernel_ok_override [of v "isar x"]
    by (cases "gzvm_override_ipa_size kernel_ok v (isar x)") (auto simp: gzvm_arm_set_cpu_features_from_host_def gzvm_mask_pmu_def)
  obtain c1 w where c1: "gzvm_arm_set_cpu_features_from_host kernel_ok (example_host 1) None example_vm example_cpu = Some (c1, Some k, w)"
    "arm_midr c1 = 1" using g [OF r(1), of example_vm] r(3) by auto
  obtain x where x: "gzvm_arm_read_host_cpu_features (example_host 2) (Some k) example_cpu = (True, Some k, x)"
    using r(2) by (simp add: gzvm_arm_read_host_cpu_features_def)
  obtain c2 w2 where c2: "gzvm_arm_set_cpu_features_from_host kernel_ok (example_host 2) (Some k) w example_cpu = Some (c2, Some k, w2)"
    using g [OF x, of w] by auto
  have cs: "create_cpus kernel_ok [(example_host 1, example_cpu), (example_host 2, example_cpu)] None example_vm = Some [c1, c2]"
    by (simp add: c1 c2)
  have "cpu_model c2 = cpu_model c1"
    using vcpu_models_agree [OF cs] by (simp add: steady_ipa_def kernel_ok_def example_cpu_def)
  with cs c1(2) show ?thesis by (auto simp: cpu_model_def)
qed

text \<open>
  A level on the interrupt input of a CPU reaches the host without the number of the vCPU: the request
  is the same whichever CPU the input belongs to.
\<close>

lemma cpu_irq_names_no_vcpu:
  "\<exists>c. arm_cpu_gzvm_set_irq K vi vf ARM_CPU_IRQ level v cpu =
     Some (c, snd (gzvm_vm_ioctl K (GZVM_IRQ_LINE \<lparr>il_irq = 0, il_level = of_bool (level \<noteq> 0)\<rparr>) v))"
  by (simp add: arm_cpu_gzvm_set_irq_def ARM_CPU_IRQ_def ARM_CPU_VIRQ_def ARM_CPU_VFIQ_def gzvm_irq_defs Let_def)

end
