(* ===== verification/Virt_Board.thy ===== *)
theory Virt_Board
  imports Qemu_Bitmap Gzvm_Start Gzvm_Arm
begin

text \<open>
  The part of the \<open>virt\<close> board that decides where things are and what the accelerator is told
  (\<open>hw/arm/virt.c\<close>, \<open>hw/arm/virt-gzvm.c\<close>): the memory map, its high regions, the version of the
  interrupt controller and its configuration, the affinities of the CPUs and the checks that refuse a
  machine.  Creating devices and writing the device tree are not modelled.  An \<open>exit()\<close> is a value.
\<close>

section \<open>State\<close>

record MemMapEntry =
  mm_base :: u64
  mm_size :: u64

definition entry :: "u64 \<Rightarrow> u64 \<Rightarrow> MemMapEntry" where
  "entry b s = \<lparr>mm_base = b, mm_size = s\<rparr>"

definition MiB :: u64 where "MiB = push_bit 20 1"
definition GiB :: u64 where "GiB = push_bit 30 1"

definition VIRT_FLASH :: nat where "VIRT_FLASH = 0"
definition VIRT_MEM :: nat where "VIRT_MEM = 1"
definition VIRT_CPUPERIPHS :: nat where "VIRT_CPUPERIPHS = 2"
definition VIRT_GIC_DIST :: nat where "VIRT_GIC_DIST = 3"
definition VIRT_GIC_CPU :: nat where "VIRT_GIC_CPU = 4"
definition VIRT_GIC_V2M :: nat where "VIRT_GIC_V2M = 5"
definition VIRT_GIC_REDIST :: nat where "VIRT_GIC_REDIST = 9"
definition VIRT_PCIE :: nat where "VIRT_PCIE = 15"
definition VIRT_PCIE_MMIO :: nat where "VIRT_PCIE_MMIO = 16"
definition VIRT_PCIE_ECAM :: nat where "VIRT_PCIE_ECAM = 18"
definition VIRT_LOWMEMMAP_LAST :: nat where "VIRT_LOWMEMMAP_LAST = 22"
definition VIRT_HIGH_GIC_REDIST2 :: nat where "VIRT_HIGH_GIC_REDIST2 = VIRT_LOWMEMMAP_LAST"
definition VIRT_HIGH_PCIE_ECAM :: nat where "VIRT_HIGH_PCIE_ECAM = Suc VIRT_HIGH_GIC_REDIST2"
definition VIRT_HIGH_PCIE_MMIO :: nat where "VIRT_HIGH_PCIE_MMIO = Suc VIRT_HIGH_PCIE_ECAM"

lemmas virt_region_defs = VIRT_FLASH_def VIRT_MEM_def VIRT_CPUPERIPHS_def VIRT_GIC_DIST_def VIRT_GIC_CPU_def VIRT_GIC_V2M_def
  VIRT_GIC_REDIST_def VIRT_PCIE_def VIRT_PCIE_MMIO_def VIRT_PCIE_ECAM_def VIRT_LOWMEMMAP_LAST_def VIRT_HIGH_GIC_REDIST2_def
  VIRT_HIGH_PCIE_ECAM_def VIRT_HIGH_PCIE_MMIO_def

definition LEGACY_RAMLIMIT_BYTES :: u64 where "LEGACY_RAMLIMIT_BYTES = 255 * GiB"
definition DEFAULT_HIGH_PCIE_MMIO_SIZE :: u64 where "DEFAULT_HIGH_PCIE_MMIO_SIZE = 512 * GiB"

text \<open>In the order of the enumeration: \<open>VIRT_PCIE\<close> has no entry of its own and is zero.\<close>

definition base_memmap :: "MemMapEntry list" where
  "base_memmap = [
     entry 0 0x08000000, entry (2 * GiB) LEGACY_RAMLIMIT_BYTES, entry 0x08000000 0x00020000,
     entry 0x08000000 0x00010000, entry 0x08010000 0x00010000, entry 0x08020000 0x00001000,
     entry 0x08030000 0x00010000, entry 0x08040000 0x00010000, entry 0x08080000 0x00020000,
     entry 0x080A0000 0x00F60000, entry 0x09050000 0x00020000, entry 0x09000000 0x00001000,
     entry 0x0a000000 0x00000200, entry 0x09010000 0x00001000, entry 0x09020000 0x00000018,
     entry 0 0, entry 0x10000000 0x2eff0000, entry 0x3eff0000 0x00010000, entry 0x3f000000 0x01000000,
     entry 0x09040000 0x00001000, entry 0x0e000000 0x01000000, entry 0x090a0000 0x00010000]"

definition extended_memmap :: "MemMapEntry list" where
  "extended_memmap = replicate VIRT_LOWMEMMAP_LAST (entry 0 0) @
     [entry 0 (64 * MiB), entry 0 (256 * MiB), entry 0 DEFAULT_HIGH_PCIE_MMIO_SIZE]"

datatype VirtGICType = VIRT_GIC_VERSION_MAX | VIRT_GIC_VERSION_HOST | VIRT_GIC_VERSION_2 | VIRT_GIC_VERSION_3
  | VIRT_GIC_VERSION_4 | VIRT_GIC_VERSION_NOSEL

datatype psci_conduit = PSCI_DISABLED | PSCI_SMC | PSCI_HVC

text \<open>
  The fields of the board, of its \<open>MachineState\<close> and of its class that the operations use.
  \<open>memmap\<close> aliases the static array \<open>extended_memmap\<close>: the field is that array, and \<open>memmap_set\<close> says
  whether the pointer is set.
\<close>

record VirtMachineState =
  memmap :: "MemMapEntry list"
  memmap_set :: bool
  vms_secure :: bool
  vms_virt :: bool
  highmem :: bool
  highmem_compact :: bool
  highmem_ecam :: bool
  highmem_mmio :: bool
  highmem_redists :: bool
  gic_version :: VirtGICType
  highest_gpa :: u64
  vms_psci_conduit :: psci_conduit
  bootinfo_entry :: u64
  bootinfo_dtb_start :: u64
  ms_ram_size :: u64
  ms_maxram_size :: u64
  ms_ram_slots :: u64
  smp_cpus :: u32
  smp_max_cpus :: u32
  disallow_affinity_adjustment :: bool

datatype board_error = MemoryExceedsAddressing | MaxmemTooHuge | GicHostNeedsKvm | GicNotSupported | GicTooManyVcpus
  | GicLogicError | TooManyCpus | CpuAddressTooSmall

section \<open>The memory map\<close>

definition ROUND_UP :: "u64 \<Rightarrow> u64 \<Rightarrow> u64" where
  "ROUND_UP n d = (n + d - 1) AND (- d)"

definition is_power_of_2 :: "u64 \<Rightarrow> bool" where
  "is_power_of_2 v \<longleftrightarrow> (if v = 0 then False else (v AND (v - 1)) = 0)"

definition virt_set_highmem_mmio_size :: "u64 \<Rightarrow> VirtMachineState \<Rightarrow> bool \<times> VirtMachineState" where
  "virt_set_highmem_mmio_size sz vms =
     (if \<not> is_power_of_2 sz then (False, vms)
      else if sz < DEFAULT_HIGH_PCIE_MMIO_SIZE then (False, vms)
      else (True, vms\<lparr>memmap := (memmap vms)[VIRT_HIGH_PCIE_MMIO := (memmap vms ! VIRT_HIGH_PCIE_MMIO)\<lparr>mm_size := sz\<rparr>]\<rparr>))"

text \<open>\<open>*virt_get_high_memmap_enabled(vms, i)\<close> read and written; the assertions bound \<open>i\<close>.\<close>

definition high_memmap_enabled :: "nat \<Rightarrow> VirtMachineState \<Rightarrow> bool option" where
  "high_memmap_enabled i vms =
     (if i = VIRT_HIGH_GIC_REDIST2 then Some (highmem_redists vms)
      else if i = VIRT_HIGH_PCIE_ECAM then Some (highmem_ecam vms)
      else if i = VIRT_HIGH_PCIE_MMIO then Some (highmem_mmio vms)
      else None)"

definition set_high_memmap_enabled :: "nat \<Rightarrow> bool \<Rightarrow> VirtMachineState \<Rightarrow> VirtMachineState" where
  "set_high_memmap_enabled i b vms =
     (if i = VIRT_HIGH_GIC_REDIST2 then vms\<lparr>highmem_redists := b\<rparr>
      else if i = VIRT_HIGH_PCIE_ECAM then vms\<lparr>highmem_ecam := b\<rparr>
      else vms\<lparr>highmem_mmio := b\<rparr>)"

text \<open>The loop body for region \<open>i\<close>; the result is the base for the next one.\<close>

definition place_high_region :: "nat \<Rightarrow> nat \<Rightarrow> u64 \<Rightarrow> VirtMachineState \<Rightarrow> (u64 \<times> VirtMachineState) option" where
  "place_high_region pa_bits i base vms = do {
     en \<leftarrow> high_memmap_enabled i vms;
     m \<leftarrow> aget (memmap vms) (int i);
     let region_size = mm_size m;
     let region_base = ROUND_UP base region_size;
     let vms = vms\<lparr>memmap := (memmap vms)[i := entry region_base region_size]\<rparr>;
     let fits = (region_base + region_size \<le> push_bit pa_bits 1);
     let vms = set_high_memmap_enabled i (en \<and> fits) vms;
     if highmem_compact vms \<and> \<not> (en \<and> fits) then Some (base, vms)
     else do {
       let base = region_base + region_size;
       Some (base, if fits then vms\<lparr>highest_gpa := base - 1\<rparr> else vms)
     }
   }"

fun place_high_regions :: "nat \<Rightarrow> nat list \<Rightarrow> u64 \<Rightarrow> VirtMachineState \<Rightarrow> VirtMachineState option" where
  "place_high_regions pa_bits [] base vms = Some vms"
| "place_high_regions pa_bits (i # is) base vms = do {
     (base, vms) \<leftarrow> place_high_region pa_bits i base vms;
     place_high_regions pa_bits is base vms
   }"

definition virt_set_high_memmap :: "u64 \<Rightarrow> nat \<Rightarrow> VirtMachineState \<Rightarrow> VirtMachineState option" where
  "virt_set_high_memmap base pa_bits vms =
     place_high_regions pa_bits [VIRT_LOWMEMMAP_LAST..<length extended_memmap] base vms"

definition virt_set_memmap :: "nat \<Rightarrow> VirtMachineState \<Rightarrow> (board_error + VirtMachineState) option" where
  "virt_set_memmap pa_bits vms =
     (let vms = vms\<lparr>memmap_set := True, memmap := base_memmap @ drop VIRT_LOWMEMMAP_LAST (memmap vms)\<rparr>;
          pa_bits = (if \<not> highmem vms then 32 else pa_bits);
          mem = mm_base (memmap vms ! VIRT_MEM);
          device_memory_base = ROUND_UP (mem + ms_ram_size vms) GiB;
          device_memory_size = ms_maxram_size vms - ms_ram_size vms + ms_ram_slots vms * GiB;
          memtop = device_memory_base + ROUND_UP device_memory_size GiB
      in if memtop > push_bit pa_bits 1 then Some (Inl MemoryExceedsAddressing)
         else if memtop < device_memory_base then Some (Inl MaxmemTooHuge)
         else do {
           let base = (if memtop < mem + LEGACY_RAMLIMIT_BYTES then mem + LEGACY_RAMLIMIT_BYTES else memtop);
           vms \<leftarrow> virt_set_high_memmap base pa_bits (vms\<lparr>highest_gpa := memtop - 1\<rparr>);
           Some (Inr vms)
         })"

section \<open>The interrupt controller\<close>

text \<open>
  The mask of supported versions is the set of them.  For \<open>gic-version=host\<close> the function always exits: the condition before the recursive call is
  constant.
\<close>

definition finalize_gic_version_do :: "VirtGICType \<Rightarrow> VirtGICType set \<Rightarrow> u32 \<Rightarrow> board_error + VirtGICType" where
  "finalize_gic_version_do ver gics_supported max_cpus =
     (let r = (case ver of
                 VIRT_GIC_VERSION_HOST \<Rightarrow> Inl GicHostNeedsKvm
               | VIRT_GIC_VERSION_MAX \<Rightarrow>
                   Inr (if VIRT_GIC_VERSION_4 \<in> gics_supported then VIRT_GIC_VERSION_4
                        else if VIRT_GIC_VERSION_3 \<in> gics_supported then VIRT_GIC_VERSION_3
                        else VIRT_GIC_VERSION_2)
               | VIRT_GIC_VERSION_NOSEL \<Rightarrow>
                   (if VIRT_GIC_VERSION_2 \<in> gics_supported \<and> max_cpus \<le> 8 then Inr VIRT_GIC_VERSION_2
                    else if VIRT_GIC_VERSION_3 \<in> gics_supported then Inr VIRT_GIC_VERSION_3
                    else if 8 < max_cpus then Inl GicTooManyVcpus
                    else Inr VIRT_GIC_VERSION_NOSEL)
               | v \<Rightarrow> Inr v)
      in case r of Inl e \<Rightarrow> Inl e
         | Inr v \<Rightarrow>
             if v = VIRT_GIC_VERSION_2 \<or> v = VIRT_GIC_VERSION_3 \<or> v = VIRT_GIC_VERSION_4
             then (if v \<in> gics_supported then Inr v else Inl GicNotSupported)
             else Inl GicLogicError)"

text \<open>\<open>gzvm_enabled()\<close> is whether the accelerator is published.\<close>

definition finalize_gic_version :: "gzvm_vm \<Rightarrow> VirtMachineState \<Rightarrow> board_error + VirtMachineState" where
  "finalize_gic_version v vms =
     (if vm_accel v
      then (case finalize_gic_version_do (gic_version vms) {VIRT_GIC_VERSION_3} (smp_max_cpus vms) of
              Inl e \<Rightarrow> Inl e | Inr g \<Rightarrow> Inr (vms\<lparr>gic_version := g\<rparr>))
      else Inl GicNotSupported)"

definition virt_redist_capacity :: "VirtMachineState \<Rightarrow> nat \<Rightarrow> u32" where
  "virt_redist_capacity vms region =
     ucast (mm_size (memmap vms ! region) div
       (if gic_version vms = VIRT_GIC_VERSION_3 then of_int GICV3_REDIST_SIZE else of_int GICV4_REDIST_SIZE))"

definition virt_gicv3_redist_region_count :: "VirtMachineState \<Rightarrow> nat option" where
  "virt_gicv3_redist_region_count vms =
     (if gic_version vms = VIRT_GIC_VERSION_2 then None
      else Some (if virt_redist_capacity vms VIRT_GIC_REDIST < smp_cpus vms \<and> highmem_redists vms then 2 else 1))"

text \<open>
  The properties the board sets on a new controller \<open>s\<close> other than a GICv2 (which GZVM does not
  support, see below); wiring its inputs and outputs is left to the board's devices.
\<close>

definition create_gic :: "VirtMachineState \<Rightarrow> GICv3State \<Rightarrow> GICv3State option" where
  "create_gic vms s = do {
     revision \<leftarrow> (case gic_version vms of VIRT_GIC_VERSION_3 \<Rightarrow> Some 3 | VIRT_GIC_VERSION_4 \<Rightarrow> Some 4 | _ \<Rightarrow> None);
     let redist0_count = min (smp_cpus vms) (virt_redist_capacity vms VIRT_GIC_REDIST);
     n \<leftarrow> virt_gicv3_redist_region_count vms;
     let counts = redist0_count #
       (if n = 2 then [min (smp_cpus vms - redist0_count) (virt_redist_capacity vms VIRT_HIGH_GIC_REDIST2)] else []);
     Some (s\<lparr>gic_revision := revision, num_cpu := smp_cpus vms, num_irq := of_nat (NUM_IRQS + 32), security_extn := vms_secure vms,
       redist_region_count := counts, gic_dma := True, lpi_enable := True\<rparr>)
   }"

section \<open>Affinities\<close>

definition ARM_DEFAULT_CPUS_PER_CLUSTER :: u8 where "ARM_DEFAULT_CPUS_PER_CLUSTER = 8"
definition GIC_TARGETLIST_BITS :: u8 where "GIC_TARGETLIST_BITS = 8"
definition GICV3_TARGETLIST_BITS :: u8 where "GICV3_TARGETLIST_BITS = 16"
definition ARM_AFF1_SHIFT :: nat where "ARM_AFF1_SHIFT = 8"

text \<open>\<open>idx\<close> is not negative and \<open>clustersz\<close> not zero.  The shift is one of \<open>uint32_t\<close>.\<close>

definition arm_build_mp_affinity :: "nat \<Rightarrow> u8 \<Rightarrow> u64" where
  "arm_build_mp_affinity idx clustersz =
     (let aff1 = of_nat (idx div unat clustersz) :: u32; aff0 = of_nat (idx mod unat clustersz) :: u32
      in ucast (push_bit ARM_AFF1_SHIFT aff1 OR aff0))"

definition virt_cpu_mp_affinity :: "VirtMachineState \<Rightarrow> nat \<Rightarrow> u64" where
  "virt_cpu_mp_affinity vms idx =
     arm_build_mp_affinity idx
       (if \<not> disallow_affinity_adjustment vms
        then (if gic_version vms = VIRT_GIC_VERSION_2 then GIC_TARGETLIST_BITS else GICV3_TARGETLIST_BITS)
        else ARM_DEFAULT_CPUS_PER_CLUSTER)"

section \<open>What the accelerator is told\<close>

definition virt_gzvm_init :: "VirtMachineState \<Rightarrow> gzvm_vm \<Rightarrow> (VirtMachineState \<times> gzvm_vm) option" where
  "virt_gzvm_init vms v =
     (if \<not> vm_accel v then Some (vms, v)
      else do {
        v \<leftarrow> gzvm_set_ram_base (mm_base (memmap vms ! VIRT_MEM)) v;
        let m = memmap vms;
        let m = m[VIRT_PCIE_ECAM := (m ! VIRT_PCIE_ECAM)\<lparr>mm_base := 0x0F000000\<rparr>];
        let m = m[VIRT_PCIE_MMIO := (m ! VIRT_PCIE_MMIO)\<lparr>mm_base := 0x0B000000, mm_size := 16 * MiB\<rparr>];
        Some (vms\<lparr>memmap := m, highmem_ecam := False, highmem_mmio := False, highmem_redists := False\<rparr>, v)
      })"

definition virt_gzvm_post_gic :: "VirtMachineState \<Rightarrow> gzvm_vm \<Rightarrow> (bool \<times> gzvm_vm) option" where
  "virt_gzvm_post_gic vms v =
     (if \<not> vm_accel v then Some (False, v)
      else gzvm_set_gic_bases (mm_base (memmap vms ! VIRT_GIC_DIST)) (mm_base (memmap vms ! VIRT_GIC_REDIST))
             (mm_size (memmap vms ! VIRT_GIC_REDIST)) v)"

text \<open>\<open>dtb_data\<close> is what \<open>rom_ptr_for_as()\<close> finds; the second result is the file given to the firmware.\<close>

definition virt_gzvm_post_dtb :: "u64 \<Rightarrow> u64 \<Rightarrow> u8 list option \<Rightarrow> gzvm_vm \<Rightarrow> (gzvm_vm \<times> u8 list option) option" where
  "virt_gzvm_post_dtb start sz dtb_data v =
     (if \<not> vm_accel v then Some (v, None)
      else do { (_, v) \<leftarrow> gzvm_arm_set_dtb start sz v; Some (v, dtb_data) })"

definition virt_gzvm_set_bootinfo :: "bool \<Rightarrow> gzvm_vm \<Rightarrow> VirtMachineState \<Rightarrow> VirtMachineState" where
  "virt_gzvm_set_bootinfo firmware_loaded v vms =
     (if \<not> vm_accel v \<or> \<not> firmware_loaded then vms
      else vms\<lparr>bootinfo_entry := mm_base (memmap vms ! VIRT_FLASH), bootinfo_dtb_start := mm_base (memmap vms ! VIRT_MEM)\<rparr>)"

section \<open>Building the machine\<close>

definition ARM_FEATURE_LPAE :: nat where "ARM_FEATURE_LPAE = 25"

definition arm_pamax :: "ARMCPU \<Rightarrow> nat option" where
  "arm_pamax cpu =
     (if arm_feature cpu ARM_FEATURE_AARCH64
      then (let parange = unat (FIELD_EX64 (id_aa64mmfr0 (isar cpu)) 0 4)
            in if parange < length pamax_map then Some (unat (pamax_map ! parange)) else None)
      else if arm_feature cpu ARM_FEATURE_LPAE then Some 40
      else Some 32)"

text \<open>\<open>pmu\<close> is the property of the first CPU.\<close>

definition virt_cpu_post_init :: "bool \<Rightarrow> bool \<Rightarrow> ARMCPU list \<Rightarrow> VirtMachineState \<Rightarrow> (board_error + unit) option" where
  "virt_cpu_post_init aarch64 pmu cpus vms =
     (if pmu \<and> \<not> list_all (\<lambda>c. arm_feature c ARM_FEATURE_PMU) cpus then None
      else if aarch64 \<and> highmem vms then do {
        c \<leftarrow> aget cpus 0;
        pamax \<leftarrow> arm_pamax c;
        let requested_pa_size = 64 - clzl (highest_gpa vms);
        Some (if int pamax < int requested_pa_size then Inl CpuAddressTooSmall else Inr ())
      }
      else Some (Inr ()))"

definition virt_max_cpus :: "VirtMachineState \<Rightarrow> u32" where
  "virt_max_cpus vms =
     (if gic_version vms = VIRT_GIC_VERSION_2 then 8
      else virt_redist_capacity vms VIRT_GIC_REDIST +
        (if highmem_redists vms then virt_redist_capacity vms VIRT_HIGH_GIC_REDIST2 else 0))"

text \<open>
  The part of \<open>machvirt_init()\<close> before the devices; \<open>cpu\<close> is the one created to ask for its address size.
  Whether \<open>virt_firmware_init()\<close> found a firmware is an argument; its own exits, on a firmware it cannot
  load, are not modelled.
\<close>

definition machvirt_init :: "bool \<Rightarrow> ARMCPU \<Rightarrow> VirtMachineState \<Rightarrow> gzvm_vm \<Rightarrow> (board_error + VirtMachineState \<times> gzvm_vm) option" where
  "machvirt_init firmware_loaded cpu vms v = do {
     r \<leftarrow> (if memmap_set vms then Some (Inr vms) else do { pa_bits \<leftarrow> arm_pamax cpu; virt_set_memmap pa_bits vms });
     case r of Inl e \<Rightarrow> Some (Inl e)
     | Inr vms \<Rightarrow>
         (case finalize_gic_version v vms of Inl e \<Rightarrow> Some (Inl e)
          | Inr vms \<Rightarrow> do {
              (vms, v) \<leftarrow> virt_gzvm_init vms v;
              let vms = vms\<lparr>vms_psci_conduit :=
                (if vms_secure vms \<and> firmware_loaded then PSCI_DISABLED
                 else if vms_virt vms then (if vm_accel v then PSCI_HVC else PSCI_SMC)
                 else PSCI_HVC)\<rparr>;
              Some (if virt_max_cpus vms < smp_max_cpus vms then Inl TooManyCpus else Inr (vms, v))
            })
   }"

section \<open>Placing the high regions\<close>

lemma exp_less: "k < n \<Longrightarrow> (2 :: nat) ^ k < 2 ^ n"
  by (rule power_strict_increasing) simp_all

lemma unat_exp_64: "k < 64 \<Longrightarrow> unat (push_bit k 1 :: u64) = 2 ^ k"
  using unat_of_nat_64 [OF exp_less [of k 64]] by (simp add: push_bit_eq_mult)

lemma round_up_align: "ROUND_UP x (push_bit k 1) = ALIGN_MASK x (mask k)"
proof -
  have "- (push_bit k 1 :: u64) = NOT (mask k)" by (simp add: mask_eq_exp_minus_1 not_eq_complement push_bit_eq_mult)
  then show ?thesis by (simp add: ROUND_UP_def ALIGN_MASK_def mask_eq_exp_minus_1 push_bit_eq_mult algebra_simps)
qed

lemma round_up_unat:
  assumes "k < 64" "unat x + 2 ^ k < 2 ^ 64"
  shows "unat (ROUND_UP x (push_bit k 1)) = (unat x + 2 ^ k - 1) div 2 ^ k * 2 ^ k"
  unfolding round_up_align by (rule align_mask_up [OF assms])

lemma round_up_bounds:
  assumes "k < 64" "unat x + 2 ^ k < 2 ^ 64"
  shows "unat x \<le> unat (ROUND_UP x (push_bit k 1))" "unat (ROUND_UP x (push_bit k 1)) < unat x + 2 ^ k"
    "2 ^ k dvd unat (ROUND_UP x (push_bit k 1))"
  unfolding round_up_unat [OF assms] using round_up_least(1,3) [of "2 ^ k" "unat x"] by simp_all

definition region_on :: "VirtMachineState \<Rightarrow> nat \<Rightarrow> bool" where
  "region_on vms i \<longleftrightarrow> high_memmap_enabled i vms = Some True"

definition region_start :: "VirtMachineState \<Rightarrow> nat \<Rightarrow> nat" where
  "region_start vms i = unat (mm_base (memmap vms ! i))"

definition region_end :: "VirtMachineState \<Rightarrow> nat \<Rightarrow> nat" where
  "region_end vms i = region_start vms i + unat (mm_size (memmap vms ! i))"

definition high_ok :: "nat \<Rightarrow> nat \<Rightarrow> nat \<Rightarrow> nat \<Rightarrow> VirtMachineState \<Rightarrow> bool" where
  "high_ok pa lo n b vms \<longleftrightarrow> lo \<le> b \<and> lo \<le> Suc (unat (highest_gpa vms)) \<and> Suc (unat (highest_gpa vms)) \<le> 2 ^ pa \<and>
     Suc (unat (highest_gpa vms)) \<le> b \<and>
     (\<forall>i. 22 \<le> i \<and> i < n \<and> region_on vms i \<longrightarrow> lo \<le> region_start vms i \<and> region_end vms i \<le> b \<and>
        region_end vms i \<le> Suc (unat (highest_gpa vms)) \<and> unat (mm_size (memmap vms ! i)) dvd region_start vms i) \<and>
     (\<forall>i j. 22 \<le> i \<and> i < j \<and> j < n \<and> region_on vms i \<and> region_on vms j \<longrightarrow> region_end vms i \<le> region_start vms j)"


lemma high_region_cases: "22 \<le> n \<Longrightarrow> n < 25 \<Longrightarrow> n = 22 \<or> n = 23 \<or> n = (24 :: nat)"
  by linarith

lemma set_high_memmap_enabled_frame [simp]:
  "memmap (set_high_memmap_enabled i b vms) = memmap vms" "highest_gpa (set_high_memmap_enabled i b vms) = highest_gpa vms"
  "highmem_compact (set_high_memmap_enabled i b vms) = highmem_compact vms"
  by (simp_all add: set_high_memmap_enabled_def)

lemma high_memmap_enabled_set:
  "22 \<le> n \<Longrightarrow> n < 25 \<Longrightarrow>
   high_memmap_enabled i (set_high_memmap_enabled n b vms) = (if i = n then Some b else high_memmap_enabled i vms)"
  using high_region_cases [of n]
  by (auto simp: high_memmap_enabled_def set_high_memmap_enabled_def virt_region_defs)

lemma high_memmap_enabled_frame [simp]:
  "high_memmap_enabled i (vms\<lparr>memmap := m\<rparr>) = high_memmap_enabled i vms"
  "high_memmap_enabled i (vms\<lparr>highest_gpa := h\<rparr>) = high_memmap_enabled i vms"
  "high_memmap_enabled i (vms\<lparr>memmap_set := x\<rparr>) = high_memmap_enabled i vms"
  by (simp_all add: high_memmap_enabled_def)

lemma place_high_region_ok:
  assumes ok: "high_ok pa lo n (unat b) vms" and n: "22 \<le> n" "n < 25" "length (memmap vms) = 25" and pa: "pa < 63"
    and sz: "mm_size (memmap vms ! n) = push_bit k 1" "k < 63" and room: "unat b + 2 ^ k < 2 ^ 63"
  obtains b' vms' where "place_high_region pa n b vms = Some (b', vms')" "high_ok pa lo (Suc n) (unat b') vms'"
    "unat b' < unat b + 2 ^ Suc k" "length (memmap vms') = 25" "\<And>i. i \<noteq> n \<Longrightarrow> memmap vms' ! i = memmap vms ! i"
    "memmap vms' ! n = entry (ROUND_UP b (push_bit k 1)) (push_bit k 1)"
    "\<And>i. region_on vms' i \<Longrightarrow> region_on vms i"
proof -
  define rb where "rb = ROUND_UP b (push_bit k 1)"
  have small: "(2 :: nat) ^ 63 < 2 ^ 64" by simp
  have rb: "unat b \<le> unat rb" "unat rb < unat b + 2 ^ k" "2 ^ k dvd unat rb"
    using round_up_bounds [of k b] sz(2) room small unfolding rb_def by auto
  have pk: "(2 :: nat) ^ k < 2 ^ 63" using exp_less [OF sz(2)] .
  have top: "unat (rb + push_bit k 1) = unat rb + 2 ^ k"
    using rb(2) room pk unat_exp_64 [of k] sz(2) by (subst unat_word_ariths(1)) simp
  obtain en where en: "high_memmap_enabled n vms = Some en"
    using high_region_cases [OF n(1,2)] by (auto simp: high_memmap_enabled_def virt_region_defs)
  define fits where "fits \<longleftrightarrow> rb + push_bit k 1 \<le> push_bit pa 1"
  have fits: "fits \<longleftrightarrow> unat rb + 2 ^ k \<le> 2 ^ pa"
    unfolding fits_def word_le_nat_alt top using pa by (simp only: unat_exp_64)
  define v1 where "v1 = set_high_memmap_enabled n (en \<and> fits) (vms\<lparr>memmap := (memmap vms)[n := entry rb (push_bit k 1)]\<rparr>)"
  define skip where "skip \<longleftrightarrow> highmem_compact vms \<and> \<not> (en \<and> fits)"
  define b' where "b' = (if skip then b else rb + push_bit k 1)"
  define v2 where "v2 = (if skip \<or> \<not> fits then v1 else v1\<lparr>highest_gpa := b' - 1\<rparr>)"
  have g: "aget (memmap vms) (int n) = Some (memmap vms ! n)" using n by (simp add: aget_def)
  have place: "place_high_region pa n b vms = Some (b', v2)"
    unfolding place_high_region_def en g
    by (cases "highmem_compact vms"; cases en; cases "ROUND_UP b (push_bit k 1) + push_bit k 1 \<le> push_bit pa 1")
      (simp_all add: sz(1) Let_def b'_def v2_def v1_def skip_def rb_def fits_def)
  have on: "region_on v2 i \<longleftrightarrow> (if i = n then en \<and> fits else region_on vms i)" for i
    by (simp add: region_on_def v2_def v1_def high_memmap_enabled_set [OF n(1,2)])
  have m: "memmap v2 = (memmap vms)[n := entry rb (push_bit k 1)]" by (simp add: v2_def v1_def)
  have mi: "memmap v2 ! i = memmap vms ! i" if "i \<noteq> n" for i using that by (simp add: m)
  have mn: "memmap v2 ! n = entry rb (push_bit k 1)" using n by (simp add: m)
  have old: "region_start v2 i = region_start vms i" "region_end v2 i = region_end vms i" if "i \<noteq> n" for i
    using mi [OF that] by (simp_all add: region_start_def region_end_def)
  have new: "region_start v2 n = unat rb" "region_end v2 n = unat rb + 2 ^ k" "unat (mm_size (memmap v2 ! n)) = 2 ^ k"
    using unat_exp_64 [of k] sz(2) by (simp_all add: region_start_def region_end_def mn entry_def)
  have b': "unat b \<le> unat b'" "unat b' < unat b + 2 ^ Suc k" "\<not> skip \<Longrightarrow> unat b' = unat rb + 2 ^ k"
    using rb top by (auto simp: b'_def skip_def)
  have hi: "Suc (unat (highest_gpa v2)) = (if skip \<or> \<not> fits then Suc (unat (highest_gpa vms)) else unat rb + 2 ^ k)"
  proof (cases "skip \<or> \<not> fits")
    case False
    have "unat (rb + push_bit k 1 - 1) = unat rb + 2 ^ k - 1"
      using top by (subst unat_minus_one) (auto simp: unat_eq_0 [symmetric])
    with False show ?thesis by (simp add: v2_def b'_def)
  qed (simp add: v2_def v1_def)
  have low: "lo \<le> unat b" "lo \<le> Suc (unat (highest_gpa vms))" "Suc (unat (highest_gpa vms)) \<le> 2 ^ pa"
    "Suc (unat (highest_gpa vms)) \<le> unat b"
    and placed: "\<And>i. 22 \<le> i \<Longrightarrow> i < n \<Longrightarrow> region_on vms i \<Longrightarrow> lo \<le> region_start vms i \<and> region_end vms i \<le> unat b \<and>
      region_end vms i \<le> Suc (unat (highest_gpa vms)) \<and> unat (mm_size (memmap vms ! i)) dvd region_start vms i"
    and apart: "\<And>i j. 22 \<le> i \<Longrightarrow> i < j \<Longrightarrow> j < n \<Longrightarrow> region_on vms i \<Longrightarrow> region_on vms j \<Longrightarrow> region_end vms i \<le> region_start vms j"
    using ok unfolding high_ok_def by blast+
  have hi': "Suc (unat (highest_gpa vms)) \<le> Suc (unat (highest_gpa v2))" "Suc (unat (highest_gpa v2)) \<le> 2 ^ pa"
    "Suc (unat (highest_gpa v2)) \<le> unat b'" "en \<and> fits \<Longrightarrow> Suc (unat (highest_gpa v2)) = unat rb + 2 ^ k"
    unfolding hi using low rb fits b' by (auto simp: skip_def)
  have "high_ok pa lo (Suc n) (unat b') v2"
    unfolding high_ok_def
  proof (intro conjI allI impI)
    fix i assume i: "22 \<le> i \<and> i < Suc n \<and> region_on v2 i"
    show "lo \<le> region_start v2 i" "region_end v2 i \<le> unat b'" "region_end v2 i \<le> Suc (unat (highest_gpa v2))"
      "unat (mm_size (memmap v2 ! i)) dvd region_start v2 i"
      using i placed [of i] on [of i] low rb b' hi' new old [of i] mi [of i] by (cases "i = n"; force)+
  next
    fix i j assume "22 \<le> i \<and> i < j \<and> j < Suc n \<and> region_on v2 i \<and> region_on v2 j"
    then show "region_end v2 i \<le> region_start v2 j"
      using placed [of i] apart [of i j] on rb(1) new(1) old [of i] old [of j] by (cases "j = n") force+
  qed (use low b' hi' in auto)
  moreover have "region_on v2 i \<Longrightarrow> region_on vms i" for i using on [of i] en by (auto simp: region_on_def split: if_splits)
  ultimately show thesis
    using that [OF place] b'(2) mi mn n by (simp add: m rb_def)
qed


text \<open>The sizes the high regions have: 64 and 256 MiB, and a power of two for the PCI window.\<close>

definition high_sizes :: "nat \<Rightarrow> MemMapEntry list \<Rightarrow> bool" where
  "high_sizes k m \<longleftrightarrow> length m = 25 \<and> mm_size (m ! 22) = push_bit 26 1 \<and> mm_size (m ! 23) = push_bit 28 1 \<and> mm_size (m ! 24) = push_bit k 1"

lemma set_high_memmap_ok:
  assumes ok: "high_ok pa lo 22 (unat b) vms" and sizes: "high_sizes k (memmap vms)" "k < 62" and pa: "pa < 63" and b: "unat b < 2 ^ 61"
  obtains w where "virt_set_high_memmap b pa vms = Some w" "\<exists>c. high_ok pa lo 25 c w" "high_sizes k (memmap w)"
    "\<And>i. i < 22 \<Longrightarrow> memmap w ! i = memmap vms ! i" "\<And>i. region_on w i \<Longrightarrow> region_on vms i"
proof -
  have ix: "[VIRT_LOWMEMMAP_LAST..<length extended_memmap] = [22, 23, 24]"
    by (simp add: extended_memmap_def VIRT_LOWMEMMAP_LAST_def upt_rec)
  have pk: "(2 :: nat) ^ k \<le> 2 ^ 61" using sizes(2) by (intro power_increasing) simp_all
  have len: "length (memmap vms) = 25"
    and s: "mm_size (memmap vms ! 22) = push_bit 26 1" "mm_size (memmap vms ! 23) = push_bit 28 1" "mm_size (memmap vms ! 24) = push_bit k 1"
    using sizes by (simp_all add: high_sizes_def)
  obtain b1 v1 where 1: "place_high_region pa 22 b vms = Some (b1, v1)" "high_ok pa lo (Suc 22) (unat b1) v1"
    "unat b1 < unat b + 2 ^ Suc 26" "length (memmap v1) = 25" "\<And>i. i \<noteq> 22 \<Longrightarrow> memmap v1 ! i = memmap vms ! i"
    "memmap v1 ! 22 = entry (ROUND_UP b (push_bit 26 1)) (push_bit 26 1)" "\<And>i. region_on v1 i \<Longrightarrow> region_on vms i"
    using place_high_region_ok [OF ok _ _ len pa s(1)] b by auto
  have s2: "mm_size (memmap v1 ! 23) = push_bit 28 1" using 1(5) s(2) by simp
  obtain b2 v2 where 2: "place_high_region pa 23 b1 v1 = Some (b2, v2)" "high_ok pa lo (Suc 23) (unat b2) v2"
    "unat b2 < unat b1 + 2 ^ Suc 28" "length (memmap v2) = 25" "\<And>i. i \<noteq> 23 \<Longrightarrow> memmap v2 ! i = memmap v1 ! i"
    "memmap v2 ! 23 = entry (ROUND_UP b1 (push_bit 28 1)) (push_bit 28 1)" "\<And>i. region_on v2 i \<Longrightarrow> region_on v1 i"
    using place_high_region_ok [OF 1(2) [simplified] _ _ 1(4) pa s2] 1(3) b by auto
  have s3: "mm_size (memmap v2 ! 24) = push_bit k 1" using 1(5) 2(5) s(3) by simp
  obtain b3 v3 where 3: "place_high_region pa 24 b2 v2 = Some (b3, v3)" "high_ok pa lo (Suc 24) (unat b3) v3"
    "unat b3 < unat b2 + 2 ^ Suc k" "length (memmap v3) = 25" "\<And>i. i \<noteq> 24 \<Longrightarrow> memmap v3 ! i = memmap v2 ! i"
    "memmap v3 ! 24 = entry (ROUND_UP b2 (push_bit k 1)) (push_bit k 1)" "\<And>i. region_on v3 i \<Longrightarrow> region_on v2 i"
    using place_high_region_ok [OF 2(2) [simplified] _ _ 2(4) pa s3] 1(3) 2(3) sizes(2) b pk by auto
  show thesis
  proof (rule that)
    show "virt_set_high_memmap b pa vms = Some v3" by (simp add: virt_set_high_memmap_def ix 1(1) 2(1) 3(1))
    show "\<exists>c. high_ok pa lo 25 c v3" using 3(2) by auto
    show "high_sizes k (memmap v3)" using 1(4-6) 2(4-6) 3(4-6) by (simp add: high_sizes_def entry_def)
    show "memmap v3 ! i = memmap vms ! i" if "i < 22" for i using that 1(5) 2(5) 3(5) by simp
    show "region_on vms i" if "region_on v3 i" for i using that 1(7) 2(7) 3(7) by blast
  qed
qed


definition board_config :: "VirtMachineState \<Rightarrow> _" where
  "board_config vms = (memmap_set vms, vms_secure vms, vms_virt vms, highmem vms, gic_version vms, ms_ram_size vms, smp_cpus vms,
     smp_max_cpus vms, disallow_affinity_adjustment vms)"

lemma board_config_frame [simp]:
  "board_config (vms\<lparr>memmap := m\<rparr>) = board_config vms" "board_config (vms\<lparr>highest_gpa := h\<rparr>) = board_config vms"
  "board_config (set_high_memmap_enabled i x vms) = board_config vms"
  by (simp_all add: board_config_def set_high_memmap_enabled_def)

lemma place_high_region_config:
  assumes "place_high_region pa i b vms = Some (b', v)"
  shows "board_config v = board_config vms"
proof -
  obtain en m where e: "high_memmap_enabled i vms = Some en" "aget (memmap vms) (int i) = Some m"
    using assms by (auto simp: place_high_region_def bind_eq_Some_conv)
  define w where "w = set_high_memmap_enabled i (en \<and> ROUND_UP b (mm_size m) + mm_size m \<le> push_bit pa 1)
    (vms\<lparr>memmap := (memmap vms)[i := entry (ROUND_UP b (mm_size m)) (mm_size m)]\<rparr>)"
  have "v = w \<or> (\<exists>h. v = w\<lparr>highest_gpa := h\<rparr>)"
    using assms unfolding place_high_region_def e Option.bind.bind_lunit Let_def w_def [symmetric]
    by (auto split: if_split_asm)
  moreover have "board_config w = board_config vms" by (simp add: w_def)
  ultimately show ?thesis by auto
qed

lemma place_high_regions_config: "place_high_regions pa is b vms = Some w \<Longrightarrow> board_config w = board_config vms"
proof (induction "is" arbitrary: b vms)
  case (Cons i "is")
  then obtain b' v where p: "place_high_region pa i b vms = Some (b', v)" "place_high_regions pa is b' v = Some w"
    by (auto simp: bind_eq_Some_conv)
  from place_high_region_config [OF p(1)] Cons.IH [OF p(2)] show ?case by simp
qed simp

text \<open>RAM sizes that do not come near the end of the 64-bit space; \<open>memtop\<close> as a number.\<close>

definition plausible_ram :: "VirtMachineState \<Rightarrow> bool" where
  "plausible_ram vms \<longleftrightarrow> unat (ms_ram_size vms) \<le> unat (ms_maxram_size vms) \<and> unat (ms_maxram_size vms) < 2 ^ 58 \<and>
     unat (ms_ram_slots vms) < 2 ^ 16"

definition up_gib :: "nat \<Rightarrow> nat" where
  "up_gib n = (n + 2 ^ 30 - 1) div 2 ^ 30 * 2 ^ 30"

definition memory_top :: "VirtMachineState \<Rightarrow> nat" where
  "memory_top vms = up_gib (2 ^ 31 + unat (ms_ram_size vms)) +
     up_gib (unat (ms_maxram_size vms) - unat (ms_ram_size vms) + unat (ms_ram_slots vms) * 2 ^ 30)"

definition pa_limit :: "nat \<Rightarrow> VirtMachineState \<Rightarrow> nat" where
  "pa_limit pa vms = (if highmem vms then pa else 32)"

lemma up_gib_word: "unat x + 2 ^ 30 < 2 ^ 64 \<Longrightarrow> unat (ROUND_UP x GiB) = up_gib (unat x)"
  using round_up_unat [of 30 x] by (simp add: GiB_def up_gib_def)

lemma up_gib_bounds: "n \<le> up_gib n" "up_gib n < n + 2 ^ 30"
  unfolding up_gib_def using round_up_least(1,3) [of "2 ^ 30" n] by simp_all

lemma memtop_word:
  assumes "plausible_ram vms"
  shows "unat (ROUND_UP (2 * GiB + ms_ram_size vms) GiB) = up_gib (2 ^ 31 + unat (ms_ram_size vms))" (is ?b)
    "unat (ROUND_UP (2 * GiB + ms_ram_size vms) GiB +
       ROUND_UP (ms_maxram_size vms - ms_ram_size vms + ms_ram_slots vms * GiB) GiB) = memory_top vms" (is ?t)
    "memory_top vms < 2 ^ 60" "up_gib (2 ^ 31 + unat (ms_ram_size vms)) \<le> memory_top vms"
    "2 ^ 31 + unat (ms_ram_size vms) \<le> memory_top vms"
proof -
  let ?r = "unat (ms_ram_size vms)" and ?m = "unat (ms_maxram_size vms)" and ?s = "unat (ms_ram_slots vms)"
  have lim: "?r \<le> ?m" "?m < 2 ^ 58" "?s < 2 ^ 16" using assms by (simp_all add: plausible_ram_def)
  have a: "unat (2 * GiB + ms_ram_size vms) = 2 ^ 31 + ?r"
    using lim by (subst unat_word_ariths(1)) (simp add: GiB_def)
  have mul: "unat (ms_ram_slots vms * GiB) = ?s * 2 ^ 30"
    using lim by (subst unat_word_ariths(2)) (simp add: GiB_def)
  have sub: "unat (ms_maxram_size vms - ms_ram_size vms) = ?m - ?r"
    using lim by (simp add: unat_sub word_le_nat_alt)
  have d: "unat (ms_maxram_size vms - ms_ram_size vms + ms_ram_slots vms * GiB) = ?m - ?r + ?s * 2 ^ 30"
    using lim mul sub by (subst unat_word_ariths(1)) simp
  show b: ?b using up_gib_word [of "2 * GiB + ms_ram_size vms"] lim by (simp add: a)
  have e: "unat (ROUND_UP (ms_maxram_size vms - ms_ram_size vms + ms_ram_slots vms * GiB) GiB) = up_gib (?m - ?r + ?s * 2 ^ 30)"
    using up_gib_word [of "ms_maxram_size vms - ms_ram_size vms + ms_ram_slots vms * GiB"] lim by (simp add: d)
  show lt: "memory_top vms < 2 ^ 60"
    using up_gib_bounds(2) [of "2 ^ 31 + ?r"] up_gib_bounds(2) [of "?m - ?r + ?s * 2 ^ 30"] lim unfolding memory_top_def by simp
  show ?t using b e lt by (subst unat_word_ariths(1)) (simp add: memory_top_def)
  show "up_gib (2 ^ 31 + ?r) \<le> memory_top vms" by (simp add: memory_top_def)
  then show "2 ^ 31 + ?r \<le> memory_top vms" using up_gib_bounds(1) [of "2 ^ 31 + ?r"] by linarith
qed


lemma base_memmap_simps: "length base_memmap = 22" "mm_base (base_memmap ! VIRT_MEM) = 2 * GiB"
  by (simp_all add: base_memmap_def VIRT_MEM_def entry_def)

lemma set_memmap_outcome:
  assumes ram: "plausible_ram vms" and sizes: "high_sizes k (memmap vms)" "k < 62" and pa: "32 \<le> pa" "pa \<le> 52"
  shows "if 2 ^ pa_limit pa vms < memory_top vms then virt_set_memmap pa vms = Some (Inl MemoryExceedsAddressing)
    else \<exists>w c. virt_set_memmap pa vms = Some (Inr w) \<and> high_ok (pa_limit pa vms) (memory_top vms) 25 c w \<and> high_sizes k (memmap w) \<and>
      (\<forall>i < 22. memmap w ! i = base_memmap ! i) \<and> (\<forall>i. region_on w i \<longrightarrow> region_on vms i) \<and>
      board_config w = board_config (vms\<lparr>memmap_set := True\<rparr>)"
proof -
  let ?L = "pa_limit pa vms"
  define vs where "vs = vms\<lparr>memmap_set := True, memmap := base_memmap @ drop VIRT_LOWMEMMAP_LAST (memmap vms)\<rparr>"
  define dmb where "dmb = ROUND_UP (2 * GiB + ms_ram_size vms) GiB"
  define top where "top = dmb + ROUND_UP (ms_maxram_size vms - ms_ram_size vms + ms_ram_slots vms * GiB) GiB"
  note m = memtop_word [OF ram, folded dmb_def, folded top_def]
  have L: "?L < 63" "?L < 64" using pa by (auto simp: pa_limit_def)
  have mem: "mm_base (memmap vs ! VIRT_MEM) = 2 * GiB"
    using base_memmap_simps by (simp add: vs_def nth_append VIRT_MEM_def)
  have vs: "highmem vs = highmem vms" "ms_ram_size vs = ms_ram_size vms" "ms_maxram_size vs = ms_maxram_size vms"
    "ms_ram_slots vs = ms_ram_slots vms" by (simp_all add: vs_def)
  have lims: "(if \<not> highmem vms then 32 else pa) = ?L" by (simp add: pa_limit_def)
  have wrap: "\<not> top < dmb" using m(1,2,4) by (simp add: word_less_nat_alt)
  have lim: "push_bit ?L 1 < top \<longleftrightarrow> 2 ^ ?L < memory_top vms"
    using unat_exp_64 [OF L(2)] m(2) by (simp add: word_less_nat_alt)
  define base where "base = (if top < 2 * GiB + LEGACY_RAMLIMIT_BYTES then 2 * GiB + LEGACY_RAMLIMIT_BYTES else top)"
  have step: "virt_set_memmap pa vms =
      (if 2 ^ ?L < memory_top vms then Some (Inl MemoryExceedsAddressing)
       else do { w \<leftarrow> virt_set_high_memmap base ?L (vs\<lparr>highest_gpa := top - 1\<rparr>); Some (Inr w) })"
    unfolding virt_set_memmap_def vs_def [symmetric] Let_def mem vs lims dmb_def [symmetric] top_def [symmetric] base_def [symmetric] lim
    using wrap by simp
  show ?thesis
  proof (cases "2 ^ ?L < memory_top vms")
    case False
    let ?v = "vs\<lparr>highest_gpa := top - 1\<rparr>"
    have legacy: "unat (2 * GiB + LEGACY_RAMLIMIT_BYTES) = 257 * 2 ^ 30" by (simp add: GiB_def LEGACY_RAMLIMIT_BYTES_def)
    have b: "memory_top vms \<le> unat base" "unat base < 2 ^ 61"
      using m(2,3) legacy by (auto simp: base_def word_less_nat_alt)
    have h: "Suc (unat (top - 1)) = memory_top vms"
      using m(2,5) by (subst unat_minus_one) (auto simp: unat_eq_0 [symmetric])
    have "high_ok ?L (memory_top vms) 22 (unat base) ?v" using b h False by (auto simp: high_ok_def)
    moreover have "high_sizes k (memmap ?v)"
      using sizes base_memmap_simps(1) by (simp add: high_sizes_def vs_def nth_append VIRT_LOWMEMMAP_LAST_def)
    ultimately obtain w where w: "virt_set_high_memmap base ?L ?v = Some w" "\<exists>c. high_ok ?L (memory_top vms) 25 c w" "high_sizes k (memmap w)"
      "\<And>i. i < 22 \<Longrightarrow> memmap w ! i = memmap ?v ! i" "\<And>i. region_on w i \<Longrightarrow> region_on ?v i"
      using set_high_memmap_ok [OF _ _ sizes(2) L(1) b(2)] by blast
    have "board_config w = board_config (vms\<lparr>memmap_set := True\<rparr>)"
      using place_high_regions_config [OF w(1) [unfolded virt_set_high_memmap_def]] by (simp add: vs_def)
    moreover have "memmap w ! i = base_memmap ! i" if "i < 22" for i
      using w(4) [OF that] that base_memmap_simps(1) by (simp add: vs_def nth_append)
    moreover have "region_on vms i" if "region_on w i" for i
      using w(5) [OF that] by (simp add: region_on_def vs_def)
    ultimately show ?thesis using False w(1-3) by (simp add: step)
  qed (simp add: step)
qed


section \<open>The machine that is built\<close>

lemma finalize_gzvm:
  "finalize_gic_version_do ver {VIRT_GIC_VERSION_3} n =
     (if ver = VIRT_GIC_VERSION_HOST then Inl GicHostNeedsKvm
      else if ver \<in> {VIRT_GIC_VERSION_2, VIRT_GIC_VERSION_4} then Inl GicNotSupported
      else Inr VIRT_GIC_VERSION_3)"
  by (cases ver) (simp_all add: finalize_gic_version_do_def)

lemma arm_pamax_range: "arm_pamax cpu = Some pa \<Longrightarrow> 32 \<le> pa \<and> pa \<le> 52"
proof -
  have "list_all (\<lambda>b. 32 \<le> unat b \<and> unat b \<le> 52) pamax_map" by (simp add: pamax_map_def)
  then show "arm_pamax cpu = Some pa \<Longrightarrow> 32 \<le> pa \<and> pa \<le> 52"
    by (auto simp: arm_pamax_def Let_def list_all_length split: if_splits)
qed

definition gzvm_memmap :: "MemMapEntry list \<Rightarrow> MemMapEntry list" where
  "gzvm_memmap m = m[VIRT_PCIE_ECAM := (m ! VIRT_PCIE_ECAM)\<lparr>mm_base := 0x0F000000\<rparr>,
     VIRT_PCIE_MMIO := (m ! VIRT_PCIE_MMIO)\<lparr>mm_base := 0x0B000000, mm_size := 16 * MiB\<rparr>]"

lemma gzvm_init_memmap:
  assumes "vm_accel v"
  shows "virt_gzvm_init vms v = Some
    (vms\<lparr>memmap := gzvm_memmap (memmap vms), highmem_ecam := False, highmem_mmio := False, highmem_redists := False\<rparr>,
     v\<lparr>vm_state := (vm_state v)\<lparr>ram_base := mm_base (memmap vms ! VIRT_MEM)\<rparr>\<rparr>)"
  using assms by (simp add: virt_gzvm_init_def gzvm_set_ram_base_def gzvm_memmap_def virt_region_defs Let_def)

lemma redist_capacity_gzvm:
  "gic_version vms = VIRT_GIC_VERSION_3 \<Longrightarrow> mm_size (memmap vms ! VIRT_GIC_REDIST) = 0x00F60000 \<Longrightarrow> virt_redist_capacity vms VIRT_GIC_REDIST = 123"
  by (simp add: virt_redist_capacity_def GICV3_REDIST_SIZE_def)

text \<open>
  A machine that was not set up yet.  The bounds keep the sums of the memory map from wrapping: the RAM is
  below 2^58 bytes, there are fewer than 2^16 memory slots and the high PCI window is below 2^62 bytes.
\<close>

definition fresh_machine :: "nat \<Rightarrow> VirtMachineState \<Rightarrow> bool" where
  "fresh_machine k vms \<longleftrightarrow> \<not> memmap_set vms \<and> plausible_ram vms \<and> high_sizes k (memmap vms) \<and> k < 62"

lemma machvirt_init_cases:
  assumes fresh: "fresh_machine k vms" and v: "vm_accel v" and pa: "arm_pamax cpu = Some pa"
  shows "if 2 ^ pa_limit pa vms < memory_top vms then machvirt_init fw cpu vms v = Some (Inl MemoryExceedsAddressing)
    else if gic_version vms = VIRT_GIC_VERSION_HOST then machvirt_init fw cpu vms v = Some (Inl GicHostNeedsKvm)
    else if gic_version vms \<in> {VIRT_GIC_VERSION_2, VIRT_GIC_VERSION_4} then machvirt_init fw cpu vms v = Some (Inl GicNotSupported)
    else if 123 < smp_max_cpus vms then machvirt_init fw cpu vms v = Some (Inl TooManyCpus)
    else \<exists>w c u. machvirt_init fw cpu vms v = Some (Inr (u, v\<lparr>vm_state := (vm_state v)\<lparr>ram_base := 2 * GiB\<rparr>\<rparr>)) \<and>
      high_ok (pa_limit pa vms) (memory_top vms) 25 c w \<and> highest_gpa u = highest_gpa w \<and> memmap u = gzvm_memmap (memmap w) \<and>
      length (memmap w) = 25 \<and> (\<forall>i < 22. memmap w ! i = base_memmap ! i) \<and> (\<forall>i. \<not> region_on u i) \<and>
      gic_version u = VIRT_GIC_VERSION_3 \<and> smp_cpus u = smp_cpus vms \<and> ms_ram_size u = ms_ram_size vms \<and> highmem u = highmem vms \<and>
      smp_max_cpus u = smp_max_cpus vms"
proof -
  have f: "\<not> memmap_set vms" "plausible_ram vms" "high_sizes k (memmap vms)" "k < 62" using fresh by (simp_all add: fresh_machine_def)
  have "32 \<le> pa" "pa \<le> 52" using arm_pamax_range [OF pa] by simp_all
  note out = set_memmap_outcome [OF f(2-4) this]
  show ?thesis
  proof (cases "2 ^ pa_limit pa vms < memory_top vms")
    case True
    then have "virt_set_memmap pa vms = Some (Inl MemoryExceedsAddressing)" using out by simp
    with True f(1) pa show ?thesis by (simp add: machvirt_init_def)
  next
    case False
    then obtain w c where w: "virt_set_memmap pa vms = Some (Inr w)" "high_ok (pa_limit pa vms) (memory_top vms) 25 c w" "high_sizes k (memmap w)"
      "\<forall>i < 22. memmap w ! i = base_memmap ! i" "board_config w = board_config (vms\<lparr>memmap_set := True\<rparr>)"
      using out by (metis (no_types, lifting))
    have cfg: "gic_version w = gic_version vms" "smp_cpus w = smp_cpus vms" "smp_max_cpus w = smp_max_cpus vms"
      "ms_ram_size w = ms_ram_size vms" "highmem w = highmem vms"
      using w(5) by (simp_all add: board_config_def)
    have mem: "mm_base (memmap w ! VIRT_MEM) = 2 * GiB" "mm_size (memmap w ! VIRT_GIC_REDIST) = 0x00F60000" "length (memmap w) = 25"
      using w(3,4) by (simp_all add: VIRT_MEM_def VIRT_GIC_REDIST_def base_memmap_def entry_def high_sizes_def)
    have redist: "mm_size (gzvm_memmap (memmap w) ! VIRT_GIC_REDIST) = 0x00F60000"
      using mem(2) by (simp add: gzvm_memmap_def virt_region_defs)
    show ?thesis
      using False f(1) pa w(1,2,4) v cfg mem redist
      by (auto simp: machvirt_init_def finalize_gic_version_def finalize_gzvm gzvm_init_memmap virt_max_cpus_def Let_def
          redist_capacity_gzvm region_on_def high_memmap_enabled_def)
  qed
qed


text \<open>
  The regions of the machine as intervals: the devices, the 32 transports of \<open>VIRT_MMIO\<close> counted, and
  the RAM.  \<open>VIRT_CPUPERIPHS\<close> contains the interrupt controller's own regions and is not one of them.
\<close>

definition device_regions :: "MemMapEntry list \<Rightarrow> (nat \<times> nat) list" where
  "device_regions m = map (\<lambda>i. (unat (mm_base (m ! i)), unat (mm_base (m ! i)) + unat (mm_size (m ! i))))
       [0, 3, 4, 5, 6, 7, 8, 9, 10, 11, 13, 14, 16, 17, 18, 19, 20, 21] @
     [(unat (mm_base (m ! 12)), unat (mm_base (m ! 12)) + 32 * unat (mm_size (m ! 12)))]"

definition ram_region :: "VirtMachineState \<Rightarrow> nat \<times> nat" where
  "ram_region vms = (region_start vms VIRT_MEM, region_start vms VIRT_MEM + unat (ms_ram_size vms))"

definition apart_regions :: "nat \<times> nat \<Rightarrow> nat \<times> nat \<Rightarrow> bool" where
  "apart_regions a b \<longleftrightarrow> snd a \<le> fst b \<or> snd b \<le> fst a"

fun all_apart :: "(nat \<times> nat) list \<Rightarrow> bool" where
  "all_apart [] \<longleftrightarrow> True"
| "all_apart (r # rs) \<longleftrightarrow> list_all (apart_regions r) rs \<and> all_apart rs"

lemma gzvm_low_regions:
  assumes "\<forall>i < 22. memmap w ! i = base_memmap ! i" "length (memmap w) = 25" "memmap u = gzvm_memmap (memmap w)" "i < 22"
  shows "memmap u ! i = gzvm_memmap base_memmap ! i"
proof -
  have "VIRT_PCIE_MMIO < 22" "VIRT_PCIE_ECAM < 22" "length base_memmap = 22"
    by (simp_all add: virt_region_defs base_memmap_simps)
  with assms show ?thesis by (simp add: gzvm_memmap_def nth_list_update)
qed

lemma gzvm_device_regions:
  "device_regions (gzvm_memmap base_memmap) =
    [(0, 0x8000000), (0x8000000, 0x8010000), (0x8010000, 0x8020000), (0x8020000, 0x8021000), (0x8030000,
     0x8040000), (0x8040000, 0x8050000), (0x8080000, 0x80a0000), (0x80a0000, 0x9000000), (0x9050000, 0x9070000),
     (0x9000000, 0x9001000), (0x9010000, 0x9011000), (0x9020000, 0x9020018), (0xb000000, 0xc000000), (0x3eff0000,
     0x3f000000), (0xf000000, 0x10000000), (0x9040000, 0x9041000), (0xe000000, 0xf000000), (0x90a0000, 0x90b0000),
     (0xa000000, 0xa004000)]"
  by (simp add: device_regions_def gzvm_memmap_def virt_region_defs base_memmap_def entry_def MiB_def)

lemma gzvm_memmap_layout:
  "all_apart (device_regions (gzvm_memmap base_memmap))" "list_all (\<lambda>r. snd r \<le> 2 ^ 31) (device_regions (gzvm_memmap base_memmap))"
  by (simp_all add: gzvm_device_regions apart_regions_def)

lemma apart_append: "all_apart rs \<Longrightarrow> list_all (\<lambda>r. snd r \<le> n) rs \<Longrightarrow> n \<le> fst q \<Longrightarrow> all_apart (rs @ [q])"
  by (induction rs) (auto simp: list_all_iff apart_regions_def)

lemma machvirt_init_built:
  assumes "fresh_machine k vms" "vm_accel v" "arm_pamax cpu = Some pa" "machvirt_init fw cpu vms v = Some (Inr (u, w))"
  obtains w' c where "high_ok (pa_limit pa vms) (memory_top vms) 25 c w'" "highest_gpa u = highest_gpa w'" "memmap u = gzvm_memmap (memmap w')"
    "length (memmap w') = 25" "\<forall>i < 22. memmap w' ! i = base_memmap ! i" "ms_ram_size u = ms_ram_size vms" "highmem u = highmem vms"
    "w = v\<lparr>vm_state := (vm_state v)\<lparr>ram_base := 2 * GiB\<rparr>\<rparr>" "memory_top vms \<le> 2 ^ pa_limit pa vms"
    "gic_version u = VIRT_GIC_VERSION_3" "smp_cpus u = smp_cpus vms" "smp_max_cpus vms \<le> 123"
proof -
  note c = machvirt_init_cases [OF assms(1-3), of fw, unfolded assms(4)]
  have n: "\<not> 2 ^ pa_limit pa vms < memory_top vms" using c by (cases "2 ^ pa_limit pa vms < memory_top vms") simp_all
  have h: "gic_version vms \<noteq> VIRT_GIC_VERSION_HOST" using c n by (cases "gic_version vms = VIRT_GIC_VERSION_HOST") simp_all
  have g: "gic_version vms \<notin> {VIRT_GIC_VERSION_2, VIRT_GIC_VERSION_4}"
    using c n h by (cases "gic_version vms \<in> {VIRT_GIC_VERSION_2, VIRT_GIC_VERSION_4}") simp_all
  have p: "\<not> 123 < smp_max_cpus vms" using c n h g by (cases "123 < smp_max_cpus vms") simp_all
  from c [unfolded if_not_P [OF n] if_not_P [OF h] if_not_P [OF g] if_not_P [OF p]] n p show thesis
    by (elim exE conjE) (rule that; simp)
qed

lemma address_bits: "unat x < 2 ^ n \<Longrightarrow> 64 - clzl x \<le> n"
proof (cases "x = 0")
  case True
  then show ?thesis by (simp add: clzl_def takeWhile_eq_all_conv [THEN iffD2])
next
  case False
  assume less: "unat x < 2 ^ n"
  have "bit (unat x) (63 - clzl x)" using clzl_props(2) [OF False] by (simp add: bit_unsigned_iff)
  then have "2 ^ (63 - clzl x) \<le> unat x" by (metis bit_iff_odd div_less even_zero not_le)
  from le_less_trans [OF this less] have "63 - clzl x < n" by (rule power_less_imp_less_exp [rotated]) simp
  then show ?thesis by simp
qed

section \<open>Properties\<close>

text \<open>
  C19.  Which machines the board builds under GZVM, and why it refuses the others: the memory must fit
  the addresses of the CPU (32 bits with \<open>highmem=off\<close>), the interrupt controller must be left open,
  \<open>max\<close> or version 3, and there may be at most 123 CPUs.  A machine it builds has a version 3
  controller, no region above the RAM, and the accelerator knows where the RAM starts.  The firmware is
  assumed to load, and the RAM, the memory slots and the high PCI window to be within the bounds of
  \<open>fresh_machine\<close>.
\<close>

theorem machine_built_or_refused:
  assumes "fresh_machine k vms" "vm_accel v" "arm_pamax cpu = Some pa"
  shows "case machvirt_init fw cpu vms v of None \<Rightarrow> False
    | Some (Inl e) \<Rightarrow>
        e = (if 2 ^ pa_limit pa vms < memory_top vms then MemoryExceedsAddressing
             else if gic_version vms = VIRT_GIC_VERSION_HOST then GicHostNeedsKvm
             else if gic_version vms \<in> {VIRT_GIC_VERSION_2, VIRT_GIC_VERSION_4} then GicNotSupported
             else TooManyCpus) \<and>
        (e = TooManyCpus \<longrightarrow> 123 < smp_max_cpus vms)
    | Some (Inr (u, w)) \<Rightarrow>
        memory_top vms \<le> 2 ^ pa_limit pa vms \<and> gic_version vms \<in> {VIRT_GIC_VERSION_NOSEL, VIRT_GIC_VERSION_MAX, VIRT_GIC_VERSION_3} \<and>
        smp_max_cpus vms \<le> 123 \<and> gic_version u = VIRT_GIC_VERSION_3 \<and>
        \<not> highmem_redists u \<and> \<not> highmem_ecam u \<and> \<not> highmem_mmio u \<and> unat (ram_base (vm_state w)) = 2 ^ 31"
proof -
  have g: "gic_version vms \<in> {VIRT_GIC_VERSION_NOSEL, VIRT_GIC_VERSION_MAX, VIRT_GIC_VERSION_3}"
    if "gic_version vms \<notin> {VIRT_GIC_VERSION_HOST, VIRT_GIC_VERSION_2, VIRT_GIC_VERSION_4}"
    using that by (cases "gic_version vms") auto
  have on: "\<not> highmem_redists u \<and> \<not> highmem_ecam u \<and> \<not> highmem_mmio u" if "\<forall>i. \<not> region_on u i" for u
    using that [rule_format, of VIRT_HIGH_GIC_REDIST2] that [rule_format, of VIRT_HIGH_PCIE_ECAM] that [rule_format, of VIRT_HIGH_PCIE_MMIO]
    by (simp add: region_on_def high_memmap_enabled_def virt_region_defs)
  have gib: "unat (2 * GiB) = 2 ^ 31" by (simp add: GiB_def)
  note c = machvirt_init_cases [OF assms, of fw]
  show ?thesis
  proof (cases "2 ^ pa_limit pa vms < memory_top vms")
    case True
    with c show ?thesis by simp
  next
    case n: False
    show ?thesis
    proof (cases "gic_version vms \<in> {VIRT_GIC_VERSION_HOST, VIRT_GIC_VERSION_2, VIRT_GIC_VERSION_4}")
      case True
      with c n show ?thesis by (cases "gic_version vms") simp_all
    next
      case False
      then have v: "gic_version vms \<noteq> VIRT_GIC_VERSION_HOST" "gic_version vms \<notin> {VIRT_GIC_VERSION_2, VIRT_GIC_VERSION_4}" by auto
      show ?thesis
      proof (cases "123 < smp_max_cpus vms")
        case True
        with c n v show ?thesis by simp
      next
        case False
        obtain u where "machvirt_init fw cpu vms v = Some (Inr (u, v\<lparr>vm_state := (vm_state v)\<lparr>ram_base := 2 * GiB\<rparr>\<rparr>))"
          "\<forall>i. \<not> region_on u i" "gic_version u = VIRT_GIC_VERSION_3"
          using c [unfolded if_not_P [OF n] if_not_P [OF v(1)] if_not_P [OF v(2)] if_not_P [OF False]] by blast
        with n g v on [of u] gib False show ?thesis by (simp add: not_less)
      qed
    qed
  qed
qed

text \<open>
  C18.  In a machine the board builds under GZVM no two regions overlap: the devices lie below 2 GiB, the
  PCI windows moved there included, and the RAM lies from 2 GiB up and inside the addresses of the CPU.
  The controller's regions are where the hypervisor has them, the check of the CPU's address size
  afterwards succeeds.  The RAM, the memory slots and the high PCI window are within the bounds of
  \<open>fresh_machine\<close>.
\<close>

theorem board_regions_disjoint:
  assumes "fresh_machine k vms" "vm_accel v" "arm_pamax cpu = Some pa" "machvirt_init fw cpu vms v = Some (Inr (u, w))"
  shows "all_apart (device_regions (memmap u) @ [ram_region u]) \<and> list_all (\<lambda>r. snd r \<le> 2 ^ 31) (device_regions (memmap u)) \<and>
    ram_region u = (2 ^ 31, 2 ^ 31 + unat (ms_ram_size vms)) \<and> snd (ram_region u) \<le> 2 ^ pa \<and>
    (\<exists>x. virt_gzvm_post_gic u w = Some (False, x)) \<and>
    virt_cpu_post_init a64 False [cpu] u = Some (Inr ())"
proof -
  obtain w' c where m: "high_ok (pa_limit pa vms) (memory_top vms) 25 c w'" "highest_gpa u = highest_gpa w'" "memmap u = gzvm_memmap (memmap w')"
    "length (memmap w') = 25" "\<forall>i < 22. memmap w' ! i = base_memmap ! i" "ms_ram_size u = ms_ram_size vms" "highmem u = highmem vms"
    and ww: "w = v\<lparr>vm_state := (vm_state v)\<lparr>ram_base := 2 * GiB\<rparr>\<rparr>" and fits: "memory_top vms \<le> 2 ^ pa_limit pa vms"
    by (rule machvirt_init_built [OF assms])
  have low: "memmap u ! i = gzvm_memmap base_memmap ! i" if "i < 22" for i
    using gzvm_low_regions [OF m(5,4,3) that] .
  have dev: "device_regions (memmap u) = device_regions (gzvm_memmap base_memmap)"
    by (simp add: device_regions_def low)
  have ram: "ram_region u = (2 ^ 31, 2 ^ 31 + unat (ms_ram_size vms))"
    using low [of VIRT_MEM] m(6) by (simp add: ram_region_def region_start_def gzvm_memmap_def virt_region_defs base_memmap_def entry_def GiB_def)
  have pa: "32 \<le> pa" "pa \<le> 52" using arm_pamax_range [OF assms(3)] by simp_all
  have le: "2 ^ pa_limit pa vms \<le> (2 :: nat) ^ pa" using pa by (intro power_increasing) (auto simp: pa_limit_def)
  then have top: "snd (ram_region u) \<le> 2 ^ pa"
    using memtop_word(5) [of vms] assms(1) fits unfolding ram fresh_machine_def snd_conv by linarith
  have gic: "mm_base (memmap u ! VIRT_GIC_DIST) = 0x08000000" "mm_base (memmap u ! VIRT_GIC_REDIST) = 0x080A0000"
    using low [of VIRT_GIC_DIST] low [of VIRT_GIC_REDIST] by (simp_all add: gzvm_memmap_def virt_region_defs base_memmap_def entry_def)
  have "Suc (unat (highest_gpa u)) \<le> 2 ^ pa_limit pa vms" using m(1,2) by (simp add: high_ok_def)
  with le have "unat (highest_gpa u) < 2 ^ pa" by linarith
  then have "64 - clzl (highest_gpa u) \<le> pa" using pa by (intro address_bits) simp_all
  then have "virt_cpu_post_init a64 False [cpu] u = Some (Inr ())"
    using assms(3) by (simp add: virt_cpu_post_init_def aget_def Let_def not_less)
  moreover have "\<exists>x. virt_gzvm_post_gic u w = Some (False, x)"
    using assms(2) by (simp add: virt_gzvm_post_gic_def gzvm_set_gic_bases_def gic ww)
  ultimately show ?thesis
    using apart_append [OF gzvm_memmap_layout] gzvm_memmap_layout(2) top by (simp add: dev ram)
qed

lemma affinity_value:
  assumes "0 < unat c" "idx div unat c < 2 ^ 16"
  shows "unat (arm_build_mp_affinity idx c) = idx div unat c * 256 + idx mod unat c"
proof -
  let ?a = "idx div unat c" and ?b = "idx mod unat c"
  have c: "unat c < 256" by (rule less_le_trans [OF unsigned_less]) simp
  have b: "?b < 256" using assms(1) c mod_less_divisor [of "unat c" idx] by linarith
  have ub: "unat (of_nat ?b :: u32) = ?b" using b by (simp add: unsigned_of_nat take_bit_nat_eq_self)
  have ua: "unat (push_bit 8 (of_nat ?a) :: u32) = ?a * 256"
    using assms(2)
    by (subst push_bit_eq_mult, subst unat_word_ariths(2)) (simp add: unsigned_of_nat take_bit_nat_eq_self)
  have low: "n < 8" if "bit (of_nat ?b :: u32) n" for n
  proof -
    have "bit (take_bit 8 ?b) n" using that b by (simp add: take_bit_nat_eq_self bit_of_nat_iff)
    then show ?thesis by (simp add: bit_take_bit_iff)
  qed
  have "push_bit 8 (of_nat ?a) OR of_nat ?b = (push_bit 8 (of_nat ?a) + of_nat ?b :: u32)"
    by (intro disjunctive_add [symmetric]) (use low in \<open>fastforce simp: bit_push_bit_iff\<close>)
  then have "unat (push_bit 8 (of_nat ?a) OR of_nat ?b :: u32) = ?a * 256 + ?b"
    using ua ub assms(2) b by (simp add: unat_word_ariths(1))
  then show ?thesis by (simp add: arm_build_mp_affinity_def ARM_AFF1_SHIFT_def Let_def unsigned_ucast_eq)
      (use assms(2) b in \<open>simp add: take_bit_nat_eq_self\<close>)
qed

lemma affinities_distinct:
  assumes "n \<le> 2 ^ 16"
  shows "inj_on (virt_cpu_mp_affinity vms) {..<n}"
proof (rule inj_onI)
  fix i j assume ij: "i \<in> {..<n}" "j \<in> {..<n}" "virt_cpu_mp_affinity vms i = virt_cpu_mp_affinity vms j"
  obtain c where c: "virt_cpu_mp_affinity vms = (\<lambda>k. arm_build_mp_affinity k c)" "0 < unat c" "unat c < 256"
    by (rule that [of "if \<not> disallow_affinity_adjustment vms then if gic_version vms = VIRT_GIC_VERSION_2 then GIC_TARGETLIST_BITS
        else GICV3_TARGETLIST_BITS else ARM_DEFAULT_CPUS_PER_CLUSTER"])
      (simp_all add: virt_cpu_mp_affinity_def fun_eq_iff Let_def ARM_DEFAULT_CPUS_PER_CLUSTER_def GIC_TARGETLIST_BITS_def GICV3_TARGETLIST_BITS_def)
  have v: "unat (arm_build_mp_affinity k c) = k div unat c * 256 + k mod unat c" if "k < n" for k
    using that assms c(2) by (intro affinity_value) (auto intro: le_less_trans [OF div_le_dividend])
  have m: "k mod unat c < 256" for k using c(2,3) mod_less_divisor [of "unat c" k] by linarith
  have "i div unat c * 256 + i mod unat c = j div unat c * 256 + j mod unat c"
    using ij v [of i] v [of j] by (simp add: c(1))
  then have "(i div unat c * 256 + i mod unat c) div 256 = (j div unat c * 256 + j mod unat c) div 256"
    "(i div unat c * 256 + i mod unat c) mod 256 = (j div unat c * 256 + j mod unat c) mod 256" by simp_all
  then have "i div unat c = j div unat c" "i mod unat c = j mod unat c" using m [of i] m [of j] by simp_all
  then show "i = j" by (metis div_mult_mod_eq)
qed

text \<open>
  C20.  The interrupt controller the board creates for a machine it builds is one the accelerator accepts:
  it is realised, has 256 shared lines and 32 for each CPU, and satisfies everything the forwarding of
  interrupts and the MSI frame rely on; the CPUs it routes to have different affinities.  The RAM, the
  memory slots and the high PCI window are within the bounds of \<open>fresh_machine\<close>.
\<close>

theorem board_controller_ready:
  assumes "fresh_machine k vms" "vm_accel v" "arm_pamax cpu = Some pa" "machvirt_init fw cpu vms v = Some (Inr (u, w))"
    "0 < smp_cpus vms" "smp_cpus vms \<le> smp_max_cpus vms" "gic_arrays s"
  shows "\<exists>s' g. create_gic u s = Some s' \<and>
    gzvm_arm_gicv3_realize (virt_cpu_mp_affinity u) \<lparr>gs_gic = s', irq_notify = [], gzvm_irq_level_lock = MutexUninit, gs_vm = w\<rparr> = Some (Inr g) \<and>
    gic_ready g \<and> num_spi g = NUM_IRQS \<and> num_lines g = 256 + 32 * unat (smp_cpus vms) \<and> gic_num_in (gs_gic g) = int (num_lines g) \<and>
    gs_vm g = w \<and> inj_on (virt_cpu_mp_affinity u) {..<unat (smp_cpus vms)}"
proof -
  obtain w' :: VirtMachineState where b: "memmap u = gzvm_memmap (memmap w')" "length (memmap w') = 25" "\<forall>i < 22. memmap w' ! i = base_memmap ! i"
    "gic_version u = VIRT_GIC_VERSION_3" "smp_cpus u = smp_cpus vms" "smp_max_cpus vms \<le> 123"
    by (rule machvirt_init_built [OF assms(1-4)]) (rule that)
  have n: "smp_cpus vms \<le> 123" "unat (smp_cpus vms) \<le> 123" using assms(6) b(6) by (auto simp: word_le_nat_alt)
  have cap: "virt_redist_capacity u VIRT_GIC_REDIST = 123"
    using gzvm_low_regions [OF b(3,2,1), of VIRT_GIC_REDIST] b(4)
    by (intro redist_capacity_gzvm) (simp_all add: gzvm_memmap_def virt_region_defs base_memmap_def entry_def)
  define s' where "s' = s\<lparr>gic_revision := 3, num_cpu := smp_cpus vms, num_irq := 288, security_extn := vms_secure u,
    redist_region_count := [smp_cpus vms], gic_dma := True, lpi_enable := True\<rparr>"
  have create: "create_gic u s = Some s'"
    using n(1) b(4,5) cap by (simp add: create_gic_def virt_gicv3_redist_region_count_def s'_def Let_def min_def NUM_IRQS_def not_less)
  have arr: "gic_arrays s'" using assms(7) by (simp add: s'_def gic_arrays_def)
  have ok: "gic_config_ok s'" using assms(5) by (simp add: s'_def gic_config_ok_def)
  obtain t where t: "arm_gicv3_common_realize (virt_cpu_mp_affinity u) s' = Some (Inr t)" "gic_wf t" "num_cpu t = smp_cpus vms" "num_irq t = 288"
  proof -
    obtain r where "arm_gicv3_common_realize (virt_cpu_mp_affinity u) s' = Some r \<and>
      (case r of Inl e \<Rightarrow> \<not> gic_config_ok s' | Inr t \<Rightarrow> gic_config_ok s' \<and> gic_wf t \<and> num_cpu t = num_cpu s' \<and> num_irq t = num_irq s')"
      using realize_result [OF arr, of "virt_cpu_mp_affinity u"] assms(5) n(2) by (auto simp: s'_def word_less_nat_alt)
    then show thesis using ok that by (cases r) (auto simp: s'_def)
  qed
  have "gic_cpu t \<noteq> []" using t(2) by (auto simp: gic_wf_def word_less_nat_alt)
  then obtain sz where sz: "gicv3_redist_size t = Some sz" by (cases "gic_cpu t") (auto simp: gicv3_redist_size_def aget_def)
  define g where "g = \<lparr>gs_gic = t\<lparr>gic_num_in := 256 + 32 * int (unat (smp_cpus vms)),
      redist_cpuidx := map fst (redist_layout sz (redist_region_count t) 0), redist_size := map snd (redist_layout sz (redist_region_count t) 0)\<rparr>,
    irq_notify = [], gzvm_irq_level_lock = MutexUnlocked, gs_vm = w\<rparr>"
  have "unat (256 + 32 * smp_cpus vms) = 256 + 32 * unat (smp_cpus vms)"
    using n(2) by (simp add: unat_word_ariths)
  then have lines: "sint (256 + 32 * smp_cpus vms) = 256 + 32 * int (unat (smp_cpus vms))"
    using n(2) by (subst sint_small) simp_all
  have "gzvm_arm_gicv3_realize (virt_cpu_mp_affinity u) \<lparr>gs_gic = s', irq_notify = [], gzvm_irq_level_lock = MutexUninit, gs_vm = w\<rparr> = Some (Inr g)"
    using t(1,3,4) sz lines by (simp add: gzvm_arm_gicv3_realize_def gicv3_init_irqs_and_mmio_def g_def GIC_INTERNAL_def Let_def) (simp add: s'_def)
  moreover have "gic_ready g" "num_spi g = NUM_IRQS" "num_lines g = 256 + 32 * unat (smp_cpus vms)" "gic_num_in (gs_gic g) = int (num_lines g)" "gs_vm g = w"
    using t(2-4) n(2) by (simp_all add: g_def gic_ready_def gic_wf_def gic_arrays_def num_spi_def num_lines_def NUM_IRQS_def)
  moreover have "inj_on (virt_cpu_mp_affinity u) {..<unat (smp_cpus vms)}" using n(2) by (intro affinities_distinct) simp
  ultimately show ?thesis using create by blast
qed

section \<open>An example machine\<close>

definition example_board :: VirtMachineState where
  "example_board = \<lparr>memmap = extended_memmap, memmap_set = False, vms_secure = False, vms_virt = False, highmem = True,
     highmem_compact = True, highmem_ecam = True, highmem_mmio = True, highmem_redists = True, gic_version = VIRT_GIC_VERSION_NOSEL,
     highest_gpa = 0, vms_psci_conduit = PSCI_DISABLED, bootinfo_entry = 0, bootinfo_dtb_start = 0, ms_ram_size = 0x100000000,
     ms_maxram_size = 0x100000000, ms_ram_slots = 0, smp_cpus = 4, smp_max_cpus = 8, disallow_affinity_adjustment = False\<rparr>"

definition board_cpu :: ARMCPU where
  "board_cpu = example_cpu\<lparr>env_features := push_bit ARM_FEATURE_AARCH64 1, isar := blank_isar\<lparr>id_aa64mmfr0 := 2\<rparr>\<rparr>"

lemma board_cpu_pamax: "arm_pamax board_cpu = Some 40"
  by (simp add: arm_pamax_def board_cpu_def example_cpu_def blank_isar_def arm_feature_def ARM_FEATURE_AARCH64_def FIELD_EX64_def extract64_def
      pamax_map_def Let_def mask_eq_exp_minus_1)

lemma example_board_fresh: "fresh_machine 39 example_board"
  by (simp add: fresh_machine_def example_board_def plausible_ram_def high_sizes_def extended_memmap_def entry_def
      DEFAULT_HIGH_PCIE_MMIO_SIZE_def MiB_def GiB_def virt_region_defs nth_append)

lemma example_board_top: "memory_top example_board = 6 * 2 ^ 30" "pa_limit 40 example_board = 40"
  by (simp_all add: memory_top_def up_gib_def pa_limit_def example_board_def)

lemma example_vm_accel: "vm_accel example_vm" by (simp add: example_vm_def)

lemmas example_board_ok = example_board_fresh example_vm_accel board_cpu_pamax

lemma example_board_built: "\<exists>u w. machvirt_init False board_cpu example_board example_vm = Some (Inr (u, w))"
  using machvirt_init_cases [OF example_board_ok, of False] unfolding example_board_top by (auto simp: example_board_def)

theorem machine_built_or_refused_witness:
  "(\<exists>u w. machvirt_init False board_cpu example_board example_vm = Some (Inr (u, w)) \<and> gic_version u = VIRT_GIC_VERSION_3 \<and> \<not> highmem_mmio u) \<and>
   machvirt_init False board_cpu (example_board\<lparr>smp_max_cpus := 124\<rparr>) example_vm = Some (Inl TooManyCpus) \<and>
   machvirt_init False board_cpu (example_board\<lparr>highmem := False\<rparr>) example_vm = Some (Inl MemoryExceedsAddressing)"
proof -
  have f: "fresh_machine 39 (example_board\<lparr>smp_max_cpus := 124\<rparr>)" "fresh_machine 39 (example_board\<lparr>highmem := False\<rparr>)"
    using example_board_fresh by (simp_all add: fresh_machine_def plausible_ram_def)
  have t: "memory_top (example_board\<lparr>smp_max_cpus := 124\<rparr>) = 6 * 2 ^ 30" "pa_limit 40 (example_board\<lparr>smp_max_cpus := 124\<rparr>) = 40"
    "memory_top (example_board\<lparr>highmem := False\<rparr>) = 6 * 2 ^ 30" "pa_limit 40 (example_board\<lparr>highmem := False\<rparr>) = 32"
    by (simp_all add: memory_top_def up_gib_def pa_limit_def example_board_def)
  show ?thesis
    using example_board_built machine_built_or_refused [OF example_board_ok, of False]
      machine_built_or_refused [OF f(1) example_vm_accel board_cpu_pamax, of False]
      machine_built_or_refused [OF f(2) example_vm_accel board_cpu_pamax, of False]
    unfolding t by (auto simp: example_board_def split: option.splits sum.splits)
qed

theorem board_regions_disjoint_witness:
  "\<exists>u w. machvirt_init False board_cpu example_board example_vm = Some (Inr (u, w)) \<and>
     all_apart (device_regions (memmap u) @ [ram_region u]) \<and> ram_region u = (2 ^ 31, 6 * 2 ^ 30)"
proof -
  obtain u w where b: "machvirt_init False board_cpu example_board example_vm = Some (Inr (u, w))" using example_board_built by blast
  have "unat (ms_ram_size example_board) = 4 * 2 ^ 30" by (simp add: example_board_def)
  with b board_regions_disjoint [OF example_board_ok b, of True] show ?thesis by auto
qed

theorem board_controller_ready_witness:
  "\<exists>u w s' g. machvirt_init False board_cpu example_board example_vm = Some (Inr (u, w)) \<and> create_gic u example_gic = Some s' \<and>
     gzvm_arm_gicv3_realize (virt_cpu_mp_affinity u) \<lparr>gs_gic = s', irq_notify = [], gzvm_irq_level_lock = MutexUninit, gs_vm = w\<rparr> = Some (Inr g) \<and>
     gic_ready g \<and> num_lines g = 384"
proof -
  obtain u w where b: "machvirt_init False board_cpu example_board example_vm = Some (Inr (u, w))" using example_board_built by blast
  have "0 < smp_cpus example_board" "smp_cpus example_board \<le> smp_max_cpus example_board" "unat (smp_cpus example_board) = 4"
    by (simp_all add: example_board_def)
  with b board_controller_ready [OF example_board_ok b _ _ example_gic_arrays] show ?thesis by fastforce
qed

text \<open>
  A window of \<open>2 ^ 63\<close> bytes passes the check of \<open>highmem-mmio-size\<close>, but its end wraps to 0: the
  window counts as one that fits the CPU's addresses, and stays enabled.
\<close>

lemma huge_window_wraps:
  "\<exists>u b w. virt_set_highmem_mmio_size (push_bit 63 1) example_board = (True, u) \<and>
     place_high_region 40 VIRT_HIGH_PCIE_MMIO 0x200000000 u = Some (b, w) \<and> highmem_mmio w \<and> highest_gpa w = -1"
  by (simp add: virt_set_highmem_mmio_size_def place_high_region_def example_board_def extended_memmap_def entry_def virt_region_defs
      high_memmap_enabled_def set_high_memmap_enabled_def ROUND_UP_def DEFAULT_HIGH_PCIE_MMIO_SIZE_def GiB_def MiB_def aget_def nth_append
      is_power_of_2_def Let_def)

end
