(* ===== verification/Virtio_Access.thy ===== *)
theory Virtio_Access
  imports Gzvm_Prelude
begin

text \<open>
  How a virtio device reaches guest memory: \<open>include/hw/virtio/virtio-access.h\<close>, the cached accesses of
  \<open>include/exec/memory.h\<close> and the part of \<open>VirtIODevice\<close> that the queues use.

  Guest memory is not under the device's control.  It is a parameter: a function from everything the
  device did so far to the byte at an address, so that the guest may change any byte between any two
  accesses.  The answers of the memory core when memory is mapped are part of the same parameter.
  Every access is appended to the history of the device.
\<close>

section \<open>Guest memory\<close>

datatype dma_event =
    CacheInit u64 u64 bool
  | DmaRead u64 nat
  | DmaWrite u64 "u8 list"
  | DmaMap u64 u64 u64 bool
  | DmaUnmap u64 u64 bool u64
  | NotifyVector u16

text \<open>
  \<open>gm_byte\<close> is the byte at a guest-physical address, \<open>gm_cache\<close> the length \<open>address_space_cache_init()\<close> can map,
  \<open>gm_map\<close> the host pointer and length of \<open>dma_memory_map()\<close>, \<open>gm_junk\<close> what newly allocated memory holds.
\<close>

record guest_memory =
  gm_byte :: "dma_event list \<Rightarrow> u64 \<Rightarrow> u8"
  gm_cache :: "dma_event list \<Rightarrow> u64 \<Rightarrow> u64 \<Rightarrow> bool \<Rightarrow> u64"
  gm_map :: "dma_event list \<Rightarrow> u64 \<Rightarrow> u64 \<Rightarrow> bool \<Rightarrow> u64 \<times> u64"
  gm_junk :: "dma_event list \<Rightarrow> u32"

record MemoryRegionCache =
  mrc_addr :: u64
  mrc_len :: u64
  mrc_is_write :: bool

datatype virtio_device_endian = VIRTIO_DEVICE_ENDIAN_UNKNOWN | VIRTIO_DEVICE_ENDIAN_LITTLE | VIRTIO_DEVICE_ENDIAN_BIG

record VirtIODevice =
  vd_status :: u8
  vd_isr :: u8
  queue_sel :: u16
  host_features :: u64
  guest_features :: u64
  config_vector :: u16
  generation :: u32
  broken :: bool
  use_disabled_flag :: bool
  disabled :: bool
  use_started :: bool
  started :: bool
  start_on_kick :: bool
  device_endian :: virtio_device_endian
  dma_hist :: "dma_event list"

section \<open>Features and status\<close>

definition VIRTIO_CONFIG_S_DRIVER_OK :: u8 where "VIRTIO_CONFIG_S_DRIVER_OK = 4"
definition VIRTIO_CONFIG_S_FEATURES_OK :: u8 where "VIRTIO_CONFIG_S_FEATURES_OK = 8"
definition VIRTIO_CONFIG_S_NEEDS_RESET :: u8 where "VIRTIO_CONFIG_S_NEEDS_RESET = 0x40"
definition VIRTIO_F_NOTIFY_ON_EMPTY :: nat where "VIRTIO_F_NOTIFY_ON_EMPTY = 24"
definition VIRTIO_RING_F_EVENT_IDX :: nat where "VIRTIO_RING_F_EVENT_IDX = 29"
definition VIRTIO_F_VERSION_1 :: nat where "VIRTIO_F_VERSION_1 = 32"
definition VIRTIO_F_IOMMU_PLATFORM :: nat where "VIRTIO_F_IOMMU_PLATFORM = 33"
definition VIRTIO_F_RING_PACKED :: nat where "VIRTIO_F_RING_PACKED = 34"
definition VIRTIO_F_IN_ORDER :: nat where "VIRTIO_F_IN_ORDER = 35"
definition VIRTIO_NO_VECTOR :: u16 where "VIRTIO_NO_VECTOR = 0xffff"

lemmas virtio_constants = VIRTIO_CONFIG_S_DRIVER_OK_def VIRTIO_CONFIG_S_FEATURES_OK_def VIRTIO_CONFIG_S_NEEDS_RESET_def
  VIRTIO_F_NOTIFY_ON_EMPTY_def VIRTIO_RING_F_EVENT_IDX_def VIRTIO_F_VERSION_1_def VIRTIO_F_IOMMU_PLATFORM_def
  VIRTIO_F_RING_PACKED_def VIRTIO_F_IN_ORDER_def VIRTIO_NO_VECTOR_def

definition virtio_has_feature :: "u64 \<Rightarrow> nat \<Rightarrow> bool" where
  "virtio_has_feature features fbit \<longleftrightarrow> bit features fbit"

definition virtio_vdev_has_feature :: "'a VirtIODevice_scheme \<Rightarrow> nat \<Rightarrow> bool" where
  "virtio_vdev_has_feature s fbit \<longleftrightarrow> virtio_has_feature (guest_features s) fbit"

definition virtio_host_has_feature :: "'a VirtIODevice_scheme \<Rightarrow> nat \<Rightarrow> bool" where
  "virtio_host_has_feature s fbit \<longleftrightarrow> virtio_has_feature (host_features s) fbit"

definition virtio_is_big_endian :: "'a VirtIODevice_scheme \<Rightarrow> bool option" where
  "virtio_is_big_endian s =
     (if \<not> virtio_vdev_has_feature s VIRTIO_F_VERSION_1
      then if device_endian s = VIRTIO_DEVICE_ENDIAN_UNKNOWN then None else Some (device_endian s = VIRTIO_DEVICE_ENDIAN_BIG)
      else Some False)"

definition virtio_device_started :: "'a VirtIODevice_scheme \<Rightarrow> u8 \<Rightarrow> bool" where
  "virtio_device_started s status \<longleftrightarrow>
     (if use_started s then started s else status AND VIRTIO_CONFIG_S_DRIVER_OK \<noteq> 0)"

definition virtio_set_started :: "bool \<Rightarrow> 'a VirtIODevice_scheme \<Rightarrow> 'a VirtIODevice_scheme" where
  "virtio_set_started st s =
     (let s = (if st then s\<lparr>start_on_kick := False\<rparr> else s)
      in if use_started s then s\<lparr>started := st\<rparr> else s)"

definition virtio_set_disabled :: "bool \<Rightarrow> 'a VirtIODevice_scheme \<Rightarrow> 'a VirtIODevice_scheme" where
  "virtio_set_disabled disable s = (if use_disabled_flag s then s\<lparr>disabled := disable\<rparr> else s)"

definition virtio_device_disabled :: "'a VirtIODevice_scheme \<Rightarrow> bool" where
  "virtio_device_disabled s \<longleftrightarrow> disabled s \<or> broken s"

text \<open>The transport's \<open>notify\<close> is the event \<open>NotifyVector\<close>.\<close>

definition virtio_notify_vector :: "u16 \<Rightarrow> 'a VirtIODevice_scheme \<Rightarrow> 'a VirtIODevice_scheme" where
  "virtio_notify_vector v s = (if virtio_device_disabled s then s else s\<lparr>dma_hist := dma_hist s @ [NotifyVector v]\<rparr>)"

definition virtio_set_isr :: "u8 \<Rightarrow> 'a VirtIODevice_scheme \<Rightarrow> 'a VirtIODevice_scheme" where
  "virtio_set_isr v s = (let old = vd_isr s in if old AND v \<noteq> v then s\<lparr>vd_isr := vd_isr s OR v\<rparr> else s)"

definition virtio_notify_config :: "'a VirtIODevice_scheme \<Rightarrow> 'a VirtIODevice_scheme" where
  "virtio_notify_config s =
     (if vd_status s AND VIRTIO_CONFIG_S_DRIVER_OK = 0 then s
      else (let s = virtio_set_isr 3 s; s = s\<lparr>generation := generation s + 1\<rparr>
            in virtio_notify_vector (config_vector s) s))"

definition virtio_error :: "'a VirtIODevice_scheme \<Rightarrow> 'a VirtIODevice_scheme" where
  "virtio_error s =
     (let s = (if virtio_vdev_has_feature s VIRTIO_F_VERSION_1
               then virtio_notify_config (s\<lparr>vd_status := vd_status s OR VIRTIO_CONFIG_S_NEEDS_RESET\<rparr>) else s)
      in s\<lparr>broken := True\<rparr>)"

section \<open>Byte order\<close>

primrec le_bytes :: "nat \<Rightarrow> nat \<Rightarrow> u8 list" where
  "le_bytes 0 v = []"
| "le_bytes (Suc n) v = of_nat v # le_bytes n (v div 256)"

primrec le_nat :: "u8 list \<Rightarrow> nat" where
  "le_nat [] = 0"
| "le_nat (b # bs) = unat b + 256 * le_nat bs"

definition ld_bytes :: "bool \<Rightarrow> u8 list \<Rightarrow> nat" where
  "ld_bytes be bs = le_nat (if be then rev bs else bs)"

definition st_bytes :: "bool \<Rightarrow> nat \<Rightarrow> nat \<Rightarrow> u8 list" where
  "st_bytes be n v = (if be then rev (le_bytes n v) else le_bytes n v)"

section \<open>Cached accesses\<close>

definition address_space_cache_init ::
  "guest_memory \<Rightarrow> u64 \<Rightarrow> u64 \<Rightarrow> bool \<Rightarrow> 'a VirtIODevice_scheme \<Rightarrow> (u64 \<times> MemoryRegionCache \<times> 'a VirtIODevice_scheme) option" where
  "address_space_cache_init G addr len is_write s =
     (if len = 0 then None
      else (let l = gm_cache G (dma_hist s) addr len is_write
            in Some (l, \<lparr>mrc_addr = addr, mrc_len = l, mrc_is_write = is_write\<rparr>,
                 s\<lparr>dma_hist := dma_hist s @ [CacheInit addr len is_write]\<rparr>)))"

definition address_space_read_cached ::
  "guest_memory \<Rightarrow> MemoryRegionCache \<Rightarrow> u64 \<Rightarrow> nat \<Rightarrow> 'a VirtIODevice_scheme \<Rightarrow> (u8 list \<times> 'a VirtIODevice_scheme) option" where
  "address_space_read_cached G c addr len s =
     (if addr < mrc_len c \<and> of_nat len \<le> mrc_len c - addr
      then Some (map (\<lambda>i. gm_byte G (dma_hist s) (mrc_addr c + addr + of_nat i)) [0..<len],
             s\<lparr>dma_hist := dma_hist s @ [DmaRead (mrc_addr c + addr) len]\<rparr>)
      else None)"

definition address_space_write_cached ::
  "MemoryRegionCache \<Rightarrow> u64 \<Rightarrow> u8 list \<Rightarrow> 'a VirtIODevice_scheme \<Rightarrow> 'a VirtIODevice_scheme option" where
  "address_space_write_cached c addr buf s =
     (if addr < mrc_len c \<and> of_nat (length buf) \<le> mrc_len c - addr
      then Some (s\<lparr>dma_hist := dma_hist s @ [DmaWrite (mrc_addr c + addr) buf]\<rparr>)
      else None)"

definition address_space_cache_invalidate :: "MemoryRegionCache \<Rightarrow> 'a VirtIODevice_scheme \<Rightarrow> 'a VirtIODevice_scheme option" where
  "address_space_cache_invalidate c s = (if mrc_is_write c then Some s else None)"

text \<open>The host is little-endian; a load or store of 16 bits checks the cache like a copy of two bytes.\<close>

definition virtio_lduw_phys_cached ::
  "guest_memory \<Rightarrow> MemoryRegionCache \<Rightarrow> u64 \<Rightarrow> 'a VirtIODevice_scheme \<Rightarrow> (u16 \<times> 'a VirtIODevice_scheme) option" where
  "virtio_lduw_phys_cached G c pa s = do {
     be \<leftarrow> virtio_is_big_endian s;
     (bs, s) \<leftarrow> address_space_read_cached G c pa 2 s;
     Some (of_nat (ld_bytes be bs), s)
   }"

definition virtio_stw_phys_cached ::
  "MemoryRegionCache \<Rightarrow> u64 \<Rightarrow> u16 \<Rightarrow> 'a VirtIODevice_scheme \<Rightarrow> 'a VirtIODevice_scheme option" where
  "virtio_stw_phys_cached c pa v s = do {
     be \<leftarrow> virtio_is_big_endian s;
     address_space_write_cached c pa (st_bytes be 2 (unat v)) s
   }"

end
