(* ===== verification/Virtio_Queue.thy ===== *)
theory Virtio_Queue
  imports Virtio_Access
begin

text \<open>
  The virtqueues of \<open>hw/virtio/virtio.c\<close>: the accesses to the rings, and the split ring.  A \<open>VirtQueue\<close> is a
  record that extends the device it belongs to, as the C structure points to it.  References to
  memory regions are not counted, and the memory barriers are left out: accesses happen in the
  order of the text.
\<close>

section \<open>Data\<close>

record VRingDesc =
  vd_addr :: u64
  vd_len :: u32
  vd_flags :: u16
  vd_next :: u16

record iovec =
  iov_addr :: u64
  iov_base :: u64
  iov_len :: u64

text \<open>The address of a segment, kept in a second array by the code, is its field \<open>iov_addr\<close>.\<close>

record VirtQueueElement =
  ve_index :: u32
  ve_len :: u32
  ve_ndescs :: u32
  in_order_filled :: bool
  in_sg :: "iovec list"
  out_sg :: "iovec list"

record VRingMemoryRegionCaches =
  rc_desc :: MemoryRegionCache
  rc_avail :: MemoryRegionCache
  rc_used :: MemoryRegionCache

record VirtQueue = VirtIODevice +
  vr_num :: u32
  vr_num_default :: u32
  vr_align :: u32
  vr_desc :: u64
  vr_avail :: u64
  vr_used :: u64
  vr_caches :: "VRingMemoryRegionCaches option"
  used_elems :: "VirtQueueElement list"
  last_avail_idx :: u16
  last_avail_wrap_counter :: bool
  shadow_avail_idx :: u16
  shadow_avail_wrap_counter :: bool
  used_idx :: u16
  used_wrap_counter :: bool
  signalled_used :: u16
  signalled_used_valid :: bool
  notification :: bool
  inuse :: u32
  vq_vector :: u16
  handle_output :: bool
  host_notifier_enabled :: bool

definition VIRTQUEUE_MAX_SIZE :: nat where "VIRTQUEUE_MAX_SIZE = 1024"
definition VIRTIO_PCI_VRING_ALIGN :: u32 where "VIRTIO_PCI_VRING_ALIGN = 4096"
definition VRING_DESC_F_NEXT :: u16 where "VRING_DESC_F_NEXT = 1"
definition VRING_DESC_F_WRITE :: u16 where "VRING_DESC_F_WRITE = 2"
definition VRING_DESC_F_INDIRECT :: u16 where "VRING_DESC_F_INDIRECT = 4"
definition VRING_USED_F_NO_NOTIFY :: u16 where "VRING_USED_F_NO_NOTIFY = 1"
definition VRING_AVAIL_F_NO_INTERRUPT :: u16 where "VRING_AVAIL_F_NO_INTERRUPT = 1"

definition sizeof_VRingDesc :: u64 where "sizeof_VRingDesc = 16"

abbreviation event_idx :: "'a VirtIODevice_scheme \<Rightarrow> bool" where
  "event_idx s \<equiv> virtio_vdev_has_feature s VIRTIO_RING_F_EVENT_IDX"

abbreviation ring_packed :: "'a VirtIODevice_scheme \<Rightarrow> bool" where
  "ring_packed s \<equiv> virtio_vdev_has_feature s VIRTIO_F_RING_PACKED"

abbreviation in_order :: "'a VirtIODevice_scheme \<Rightarrow> bool" where
  "in_order s \<equiv> virtio_vdev_has_feature s VIRTIO_F_IN_ORDER"

text \<open>\<open>x % n\<close>, which traps for 0.\<close>

definition umod :: "u32 \<Rightarrow> u32 \<Rightarrow> u32 option" where
  "umod x n = (if n = 0 then None else Some (x mod n))"

section \<open>Region caches\<close>

definition virtio_queue_get_desc_size :: "VirtQueue \<Rightarrow> u64" where
  "virtio_queue_get_desc_size s = sizeof_VRingDesc * ucast (vr_num s)"

definition virtio_queue_get_avail_size :: "VirtQueue \<Rightarrow> u64" where
  "virtio_queue_get_avail_size s =
     (if ring_packed s then 4 else 4 + 2 * ucast (vr_num s) + (if event_idx s then 2 else 0))"

definition virtio_queue_get_used_size :: "VirtQueue \<Rightarrow> u64" where
  "virtio_queue_get_used_size s =
     (if ring_packed s then 4 else 4 + 8 * ucast (vr_num s) + (if event_idx s then 2 else 0))"

definition virtio_virtqueue_reset_region_cache :: "VirtQueue \<Rightarrow> VirtQueue" where
  "virtio_virtqueue_reset_region_cache s = s\<lparr>vr_caches := None\<rparr>"

definition virtio_init_region_cache :: "guest_memory \<Rightarrow> VirtQueue \<Rightarrow> VirtQueue option" where
  "virtio_init_region_cache G s =
     (if vr_desc s = 0 then Some (virtio_virtqueue_reset_region_cache s)
      else do {
        let sz = virtio_queue_get_desc_size s;
        (len, d, s) \<leftarrow> address_space_cache_init G (vr_desc s) sz (ring_packed s) s;
        if len < sz then Some (virtio_virtqueue_reset_region_cache (virtio_error s))
        else do {
          let sz = virtio_queue_get_used_size s;
          (len, u, s) \<leftarrow> address_space_cache_init G (vr_used s) sz True s;
          if len < sz then Some (virtio_virtqueue_reset_region_cache (virtio_error s))
          else do {
            let sz = virtio_queue_get_avail_size s;
            (len, a, s) \<leftarrow> address_space_cache_init G (vr_avail s) sz False s;
            if len < sz then Some (virtio_virtqueue_reset_region_cache (virtio_error s))
            else Some (s\<lparr>vr_caches := Some \<lparr>rc_desc = d, rc_avail = a, rc_used = u\<rparr>\<rparr>)
          }
        }
      })"

text \<open>\<open>QEMU_ALIGN_UP\<close>; its only caller has checked that the alignment is not 0.\<close>

definition vring_align :: "u64 \<Rightarrow> u64 \<Rightarrow> u64" where
  "vring_align addr align = (addr + align - 1) div align * align"

definition virtio_queue_update_rings :: "guest_memory \<Rightarrow> VirtQueue \<Rightarrow> VirtQueue option" where
  "virtio_queue_update_rings G s =
     (if vr_num s = 0 \<or> vr_desc s = 0 \<or> vr_align s = 0 then Some s
      else (let s = s\<lparr>vr_avail := vr_desc s + ucast (vr_num s) * sizeof_VRingDesc\<rparr>;
                s = s\<lparr>vr_used := vring_align (vr_avail s + (4 + 2 * ucast (vr_num s))) (ucast (vr_align s))\<rparr>
            in virtio_init_region_cache G s))"

section \<open>The rings\<close>

definition vring_split_desc_read :: "guest_memory \<Rightarrow> MemoryRegionCache \<Rightarrow> u32 \<Rightarrow> VirtQueue \<Rightarrow> (VRingDesc \<times> VirtQueue) option" where
  "vring_split_desc_read G c i s = do {
     (bs, s) \<leftarrow> address_space_read_cached G c (ucast i * sizeof_VRingDesc) 16 s;
     be \<leftarrow> virtio_is_big_endian s;
     Some (\<lparr>vd_addr = of_nat (ld_bytes be (take 8 bs)), vd_len = of_nat (ld_bytes be (take 4 (drop 8 bs))),
            vd_flags = of_nat (ld_bytes be (take 2 (drop 12 bs))), vd_next = of_nat (ld_bytes be (drop 14 bs))\<rparr>, s)
   }"

definition vring_avail_flags :: "guest_memory \<Rightarrow> VirtQueue \<Rightarrow> (u16 \<times> VirtQueue) option" where
  "vring_avail_flags G s =
     (case vr_caches s of None \<Rightarrow> Some (0, s) | Some c \<Rightarrow> virtio_lduw_phys_cached G (rc_avail c) 0 s)"

definition vring_avail_idx :: "guest_memory \<Rightarrow> VirtQueue \<Rightarrow> (u16 \<times> VirtQueue) option" where
  "vring_avail_idx G s =
     (case vr_caches s of None \<Rightarrow> Some (0, s)
      | Some c \<Rightarrow> do {
          (v, s) \<leftarrow> virtio_lduw_phys_cached G (rc_avail c) 2 s;
          Some (v, s\<lparr>shadow_avail_idx := v\<rparr>)
        })"

definition vring_avail_ring :: "guest_memory \<Rightarrow> u32 \<Rightarrow> VirtQueue \<Rightarrow> (u16 \<times> VirtQueue) option" where
  "vring_avail_ring G i s =
     (case vr_caches s of None \<Rightarrow> Some (0, s) | Some c \<Rightarrow> virtio_lduw_phys_cached G (rc_avail c) (4 + 2 * ucast i) s)"

definition vring_get_used_event :: "guest_memory \<Rightarrow> VirtQueue \<Rightarrow> (u16 \<times> VirtQueue) option" where
  "vring_get_used_event G s = vring_avail_ring G (vr_num s) s"

definition vring_used_write :: "u32 \<Rightarrow> u32 \<Rightarrow> u32 \<Rightarrow> VirtQueue \<Rightarrow> VirtQueue option" where
  "vring_used_write eid elen i s =
     (case vr_caches s of None \<Rightarrow> Some s
      | Some c \<Rightarrow> do {
          be \<leftarrow> virtio_is_big_endian s;
          s \<leftarrow> address_space_write_cached (rc_used c) (4 + 8 * ucast i) (st_bytes be 4 (unat eid) @ st_bytes be 4 (unat elen)) s;
          address_space_cache_invalidate (rc_used c) s
        })"

definition vring_used_idx :: "guest_memory \<Rightarrow> VirtQueue \<Rightarrow> (u16 \<times> VirtQueue) option" where
  "vring_used_idx G s =
     (case vr_caches s of None \<Rightarrow> Some (0, s) | Some c \<Rightarrow> virtio_lduw_phys_cached G (rc_used c) 2 s)"

definition vring_used_idx_set :: "u16 \<Rightarrow> VirtQueue \<Rightarrow> VirtQueue option" where
  "vring_used_idx_set v s = do {
     s \<leftarrow> (case vr_caches s of None \<Rightarrow> Some s
           | Some c \<Rightarrow> do { s \<leftarrow> virtio_stw_phys_cached (rc_used c) 2 v s; address_space_cache_invalidate (rc_used c) s });
     Some (s\<lparr>used_idx := v\<rparr>)
   }"

definition vring_used_flags_set_bit :: "guest_memory \<Rightarrow> u16 \<Rightarrow> VirtQueue \<Rightarrow> VirtQueue option" where
  "vring_used_flags_set_bit G m s =
     (case vr_caches s of None \<Rightarrow> Some s
      | Some c \<Rightarrow> do {
          (flags, s) \<leftarrow> virtio_lduw_phys_cached G (rc_used c) 0 s;
          s \<leftarrow> virtio_stw_phys_cached (rc_used c) 0 (flags OR m) s;
          address_space_cache_invalidate (rc_used c) s
        })"

definition vring_used_flags_unset_bit :: "guest_memory \<Rightarrow> u16 \<Rightarrow> VirtQueue \<Rightarrow> VirtQueue option" where
  "vring_used_flags_unset_bit G m s =
     (case vr_caches s of None \<Rightarrow> Some s
      | Some c \<Rightarrow> do {
          (flags, s) \<leftarrow> virtio_lduw_phys_cached G (rc_used c) 0 s;
          s \<leftarrow> virtio_stw_phys_cached (rc_used c) 0 (flags AND NOT m) s;
          address_space_cache_invalidate (rc_used c) s
        })"

definition vring_set_avail_event :: "u16 \<Rightarrow> VirtQueue \<Rightarrow> VirtQueue option" where
  "vring_set_avail_event v s =
     (if \<not> notification s then Some s
      else (case vr_caches s of None \<Rightarrow> Some s
            | Some c \<Rightarrow> do {
                s \<leftarrow> virtio_stw_phys_cached (rc_used c) (4 + 8 * ucast (vr_num s)) v s;
                address_space_cache_invalidate (rc_used c) s
              }))"

definition virtio_queue_split_set_notification :: "guest_memory \<Rightarrow> bool \<Rightarrow> VirtQueue \<Rightarrow> VirtQueue option" where
  "virtio_queue_split_set_notification G enable s =
     (if event_idx s then do { (v, s) \<leftarrow> vring_avail_idx G s; vring_set_avail_event v s }
      else if enable then vring_used_flags_unset_bit G VRING_USED_F_NO_NOTIFY s
      else vring_used_flags_set_bit G VRING_USED_F_NO_NOTIFY s)"

section \<open>The packed ring\<close>

record VRingPackedDesc =
  pd_addr :: u64
  pd_len :: u32
  pd_id :: u16
  pd_flags :: u16

record VRingPackedDescEvent =
  off_wrap :: u16
  pe_flags :: u16

definition VRING_PACKED_DESC_F_AVAIL :: nat where "VRING_PACKED_DESC_F_AVAIL = 7"
definition VRING_PACKED_DESC_F_USED :: nat where "VRING_PACKED_DESC_F_USED = 15"
definition VRING_PACKED_EVENT_FLAG_ENABLE :: u16 where "VRING_PACKED_EVENT_FLAG_ENABLE = 0"
definition VRING_PACKED_EVENT_FLAG_DISABLE :: u16 where "VRING_PACKED_EVENT_FLAG_DISABLE = 1"
definition VRING_PACKED_EVENT_FLAG_DESC :: u16 where "VRING_PACKED_EVENT_FLAG_DESC = 2"

definition vring_packed_event_read :: "guest_memory \<Rightarrow> MemoryRegionCache \<Rightarrow> VirtQueue \<Rightarrow> (VRingPackedDescEvent \<times> VirtQueue) option" where
  "vring_packed_event_read G c s = do {
     (fl, s) \<leftarrow> virtio_lduw_phys_cached G c 2 s;
     (ow, s) \<leftarrow> virtio_lduw_phys_cached G c 0 s;
     Some (\<lparr>off_wrap = ow, pe_flags = fl\<rparr>, s)
   }"

definition vring_packed_off_wrap_write :: "MemoryRegionCache \<Rightarrow> u16 \<Rightarrow> VirtQueue \<Rightarrow> VirtQueue option" where
  "vring_packed_off_wrap_write c ow s = do { s \<leftarrow> virtio_stw_phys_cached c 0 ow s; address_space_cache_invalidate c s }"

definition vring_packed_flags_write :: "MemoryRegionCache \<Rightarrow> u16 \<Rightarrow> VirtQueue \<Rightarrow> VirtQueue option" where
  "vring_packed_flags_write c fl s = do { s \<leftarrow> virtio_stw_phys_cached c 2 fl s; address_space_cache_invalidate c s }"

definition virtio_queue_packed_set_notification :: "guest_memory \<Rightarrow> bool \<Rightarrow> VirtQueue \<Rightarrow> VirtQueue option" where
  "virtio_queue_packed_set_notification G enable s =
     (case vr_caches s of None \<Rightarrow> Some s
      | Some c \<Rightarrow> do {
          (e, s) \<leftarrow> vring_packed_event_read G (rc_used c) s;
          (fl, s) \<leftarrow>
            (if \<not> enable then Some (VRING_PACKED_EVENT_FLAG_DISABLE, s)
             else if event_idx s then do {
               s \<leftarrow> vring_packed_off_wrap_write (rc_used c) (shadow_avail_idx s OR (if shadow_avail_wrap_counter s then push_bit 15 1 else 0)) s;
               Some (VRING_PACKED_EVENT_FLAG_DESC, s)
             }
             else Some (VRING_PACKED_EVENT_FLAG_ENABLE, s));
          vring_packed_flags_write (rc_used c) fl s
        })"

definition virtio_queue_get_notification :: "VirtQueue \<Rightarrow> bool" where
  "virtio_queue_get_notification s = notification s"

definition virtio_queue_set_notification :: "guest_memory \<Rightarrow> bool \<Rightarrow> VirtQueue \<Rightarrow> VirtQueue option" where
  "virtio_queue_set_notification G enable s =
     (let s = s\<lparr>notification := enable\<rparr>
      in if vr_desc s = 0 then Some s
         else if ring_packed s then virtio_queue_packed_set_notification G enable s
         else virtio_queue_split_set_notification G enable s)"

definition virtio_queue_ready :: "VirtQueue \<Rightarrow> bool" where
  "virtio_queue_ready s \<longleftrightarrow> vr_avail s \<noteq> 0"

definition vring_packed_desc_read_flags :: "guest_memory \<Rightarrow> MemoryRegionCache \<Rightarrow> u32 \<Rightarrow> VirtQueue \<Rightarrow> (u16 \<times> VirtQueue) option" where
  "vring_packed_desc_read_flags G c i s = virtio_lduw_phys_cached G c (ucast i * 16 + 14) s"

definition vring_packed_desc_read :: "guest_memory \<Rightarrow> MemoryRegionCache \<Rightarrow> u32 \<Rightarrow> VirtQueue \<Rightarrow> (VRingPackedDesc \<times> VirtQueue) option" where
  "vring_packed_desc_read G c i s = do {
     let off = ucast i * 16;
     (fl, s) \<leftarrow> vring_packed_desc_read_flags G c i s;
     (ba, s) \<leftarrow> address_space_read_cached G c off 8 s;
     (bi, s) \<leftarrow> address_space_read_cached G c (off + 12) 2 s;
     (bl, s) \<leftarrow> address_space_read_cached G c (off + 8) 4 s;
     be \<leftarrow> virtio_is_big_endian s;
     Some (\<lparr>pd_addr = of_nat (ld_bytes be ba), pd_len = of_nat (ld_bytes be bl), pd_id = of_nat (ld_bytes be bi), pd_flags = fl\<rparr>, s)
   }"

definition vring_packed_desc_write_data :: "u16 \<Rightarrow> u32 \<Rightarrow> MemoryRegionCache \<Rightarrow> u32 \<Rightarrow> VirtQueue \<Rightarrow> VirtQueue option" where
  "vring_packed_desc_write_data pid plen c i s = do {
     be \<leftarrow> virtio_is_big_endian s;
     s \<leftarrow> address_space_write_cached c (ucast i * 16 + 12) (st_bytes be 2 (unat pid)) s;
     s \<leftarrow> address_space_cache_invalidate c s;
     s \<leftarrow> address_space_write_cached c (ucast i * 16 + 8) (st_bytes be 4 (unat plen)) s;
     address_space_cache_invalidate c s
   }"

definition vring_packed_desc_write_flags :: "u16 \<Rightarrow> MemoryRegionCache \<Rightarrow> u32 \<Rightarrow> VirtQueue \<Rightarrow> VirtQueue option" where
  "vring_packed_desc_write_flags fl c i s = do {
     s \<leftarrow> virtio_stw_phys_cached c (ucast i * 16 + 14) fl s;
     address_space_cache_invalidate c s
   }"

definition vring_packed_desc_write :: "u16 \<Rightarrow> u32 \<Rightarrow> u16 \<Rightarrow> MemoryRegionCache \<Rightarrow> u32 \<Rightarrow> VirtQueue \<Rightarrow> VirtQueue option" where
  "vring_packed_desc_write pid plen fl c i s = do {
     s \<leftarrow> vring_packed_desc_write_data pid plen c i s;
     vring_packed_desc_write_flags fl c i s
   }"

definition is_desc_avail :: "u16 \<Rightarrow> bool \<Rightarrow> bool" where
  "is_desc_avail flags wrap_counter \<longleftrightarrow>
     (let avail = bit flags VRING_PACKED_DESC_F_AVAIL; used = bit flags VRING_PACKED_DESC_F_USED
      in avail \<noteq> used \<and> avail = wrap_counter)"

section \<open>Emptiness and polling\<close>

definition virtio_queue_empty_rcu :: "guest_memory \<Rightarrow> VirtQueue \<Rightarrow> (bool \<times> VirtQueue) option" where
  "virtio_queue_empty_rcu G s =
     (if virtio_device_disabled s then Some (True, s)
      else if vr_avail s = 0 then Some (True, s)
      else if shadow_avail_idx s \<noteq> last_avail_idx s then Some (False, s)
      else do { (v, s) \<leftarrow> vring_avail_idx G s; Some (v = last_avail_idx s, s) })"

definition virtio_queue_split_empty :: "guest_memory \<Rightarrow> VirtQueue \<Rightarrow> (bool \<times> VirtQueue) option" where
  "virtio_queue_split_empty G s =
     (if virtio_device_disabled s then Some (True, s)
      else if vr_avail s = 0 then Some (True, s)
      else if shadow_avail_idx s \<noteq> last_avail_idx s then Some (False, s)
      else do { (v, s) \<leftarrow> vring_avail_idx G s; Some (v = last_avail_idx s, s) })"

definition virtio_queue_packed_empty_rcu :: "guest_memory \<Rightarrow> VirtQueue \<Rightarrow> (bool \<times> VirtQueue) option" where
  "virtio_queue_packed_empty_rcu G s =
     (if vr_desc s = 0 then Some (True, s)
      else (case vr_caches s of None \<Rightarrow> Some (True, s)
            | Some c \<Rightarrow> do {
                (fl, s) \<leftarrow> vring_packed_desc_read_flags G (rc_desc c) (ucast (last_avail_idx s)) s;
                Some (\<not> is_desc_avail fl (last_avail_wrap_counter s), s)
              }))"

definition virtio_queue_packed_empty :: "guest_memory \<Rightarrow> VirtQueue \<Rightarrow> (bool \<times> VirtQueue) option" where
  "virtio_queue_packed_empty G s = virtio_queue_packed_empty_rcu G s"

definition virtio_queue_empty :: "guest_memory \<Rightarrow> VirtQueue \<Rightarrow> (bool \<times> VirtQueue) option" where
  "virtio_queue_empty G s = (if ring_packed s then virtio_queue_packed_empty G s else virtio_queue_split_empty G s)"

definition virtio_queue_split_poll :: "guest_memory \<Rightarrow> u32 \<Rightarrow> VirtQueue \<Rightarrow> (bool \<times> VirtQueue) option" where
  "virtio_queue_split_poll G shadow_idx s =
     (if vr_avail s = 0 then Some (False, s)
      else do { (v, s) \<leftarrow> vring_avail_idx G s; Some (ucast shadow_idx \<noteq> v, s) })"

definition virtio_queue_packed_poll :: "guest_memory \<Rightarrow> u32 \<Rightarrow> VirtQueue \<Rightarrow> (bool \<times> VirtQueue) option" where
  "virtio_queue_packed_poll G shadow_idx s =
     (if vr_desc s = 0 then Some (False, s)
      else (case vr_caches s of None \<Rightarrow> Some (False, s)
            | Some c \<Rightarrow> do {
                (d, s) \<leftarrow> vring_packed_desc_read G (rc_desc c) shadow_idx s;
                Some (is_desc_avail (pd_flags d) (shadow_avail_wrap_counter s), s)
              }))"

definition virtio_queue_poll :: "guest_memory \<Rightarrow> u32 \<Rightarrow> VirtQueue \<Rightarrow> (bool \<times> VirtQueue) option" where
  "virtio_queue_poll G shadow_idx s =
     (if virtio_device_disabled s then Some (False, s)
      else if ring_packed s then virtio_queue_packed_poll G shadow_idx s
      else virtio_queue_split_poll G shadow_idx s)"

definition virtio_queue_enable_notification_and_check :: "guest_memory \<Rightarrow> int \<Rightarrow> VirtQueue \<Rightarrow> (bool \<times> VirtQueue) option" where
  "virtio_queue_enable_notification_and_check G opaque s = do {
     s \<leftarrow> virtio_queue_set_notification G True s;
     if 0 \<le> opaque then virtio_queue_poll G (of_int opaque) s else Some (False, s)
   }"

end
