(* ===== verification/Virtio_Ops.thy ===== *)
theory Virtio_Ops
  imports Virtio_Queue
begin

text \<open>
  The operations of a virtqueue a device uses: taking a request off the queue, returning it, giving
  it back, dropping what is queued, and deciding whether the guest wants an interrupt.
\<close>

section \<open>Returning elements\<close>

text \<open>\<open>virtqueue_unmap_sg()\<close>: the first loop with its running \<open>offset\<close>, then the second.\<close>

fun unmap_in_sg :: "u32 \<Rightarrow> u32 \<Rightarrow> iovec list \<Rightarrow> VirtQueue \<Rightarrow> VirtQueue" where
  "unmap_in_sg len offset [] s = s"
| "unmap_in_sg len offset (v # vs) s =
     (let size = min (ucast (len - offset)) (iov_len v)
      in unmap_in_sg len (offset + ucast size) vs (s\<lparr>dma_hist := dma_hist s @ [DmaUnmap (iov_base v) (iov_len v) True size]\<rparr>))"

fun unmap_out_sg :: "iovec list \<Rightarrow> VirtQueue \<Rightarrow> VirtQueue" where
  "unmap_out_sg [] s = s"
| "unmap_out_sg (v # vs) s = unmap_out_sg vs (s\<lparr>dma_hist := dma_hist s @ [DmaUnmap (iov_base v) (iov_len v) False (iov_len v)]\<rparr>)"

definition virtqueue_unmap_sg :: "VirtQueueElement \<Rightarrow> u32 \<Rightarrow> VirtQueue \<Rightarrow> VirtQueue" where
  "virtqueue_unmap_sg elem len s = unmap_out_sg (out_sg elem) (unmap_in_sg len 0 (in_sg elem) s)"

definition virtqueue_detach_element :: "VirtQueueElement \<Rightarrow> u32 \<Rightarrow> VirtQueue \<Rightarrow> VirtQueue" where
  "virtqueue_detach_element elem len s = virtqueue_unmap_sg elem len (s\<lparr>inuse := inuse s - ve_ndescs elem\<rparr>)"

definition virtqueue_split_rewind :: "u32 \<Rightarrow> VirtQueue \<Rightarrow> VirtQueue" where
  "virtqueue_split_rewind num s = s\<lparr>last_avail_idx := ucast (ucast (last_avail_idx s) - num)\<rparr>"

definition virtqueue_packed_rewind :: "u32 \<Rightarrow> VirtQueue \<Rightarrow> VirtQueue" where
  "virtqueue_packed_rewind num s =
     (if ucast (last_avail_idx s) < num
      then s\<lparr>last_avail_idx := ucast (vr_num s + ucast (last_avail_idx s) - num), last_avail_wrap_counter := \<not> last_avail_wrap_counter s\<rparr>
      else s\<lparr>last_avail_idx := ucast (ucast (last_avail_idx s) - num)\<rparr>)"

definition virtqueue_unpop :: "VirtQueueElement \<Rightarrow> u32 \<Rightarrow> VirtQueue \<Rightarrow> VirtQueue" where
  "virtqueue_unpop elem len s =
     virtqueue_detach_element elem len (if ring_packed s then virtqueue_packed_rewind 1 s else virtqueue_split_rewind 1 s)"

definition virtqueue_rewind :: "u32 \<Rightarrow> VirtQueue \<Rightarrow> bool \<times> VirtQueue" where
  "virtqueue_rewind num s =
     (if inuse s < num then (False, s)
      else (let s = s\<lparr>inuse := inuse s - num\<rparr>
            in (True, if ring_packed s then virtqueue_packed_rewind num s else virtqueue_split_rewind num s)))"

definition virtqueue_split_fill :: "VirtQueueElement \<Rightarrow> u32 \<Rightarrow> u32 \<Rightarrow> VirtQueue \<Rightarrow> VirtQueue option" where
  "virtqueue_split_fill elem len idx s =
     (if vr_used s = 0 then Some s
      else do {
        i \<leftarrow> umod (idx + ucast (used_idx s)) (vr_num s);
        vring_used_write (ve_index elem) len i s
      })"

definition set_used_elem :: "u32 \<Rightarrow> (VirtQueueElement \<Rightarrow> VirtQueueElement) \<Rightarrow> VirtQueue \<Rightarrow> VirtQueue option" where
  "set_used_elem i f s = do {
     e \<leftarrow> aget (used_elems s) (uint i);
     es \<leftarrow> aset (used_elems s) (uint i) (f e);
     Some (s\<lparr>used_elems := es\<rparr>)
   }"

definition virtqueue_packed_fill :: "VirtQueueElement \<Rightarrow> u32 \<Rightarrow> u32 \<Rightarrow> VirtQueue \<Rightarrow> VirtQueue option" where
  "virtqueue_packed_fill elem len idx s =
     set_used_elem idx (\<lambda>e. e\<lparr>ve_index := ve_index elem, ve_len := len, ve_ndescs := ve_ndescs elem\<rparr>) s"

text \<open>The loop may not end: an entry with no descriptors does not advance it.\<close>

partial_function (option) ordered_fill_loop :: "u32 \<Rightarrow> u32 \<Rightarrow> u32 \<Rightarrow> u32 \<Rightarrow> u32 \<Rightarrow> VirtQueue \<Rightarrow> VirtQueue option" where
  "ordered_fill_loop index len max_steps steps i s =
     (if max_steps < steps then Some s
      else do {
        e \<leftarrow> aget (used_elems s) (uint i);
        if ve_index e = index then set_used_elem i (\<lambda>e. e\<lparr>ve_len := len, in_order_filled := True\<rparr>) s
        else do {
          e' \<leftarrow> aget (used_elems s) (uint (i + ve_ndescs e));
          ordered_fill_loop index len max_steps (steps + ve_ndescs e')
            (if vr_num s \<le> i + ve_ndescs e then i + ve_ndescs e - vr_num s else i + ve_ndescs e) s
        }
      })"

definition virtqueue_ordered_fill :: "VirtQueueElement \<Rightarrow> u32 \<Rightarrow> VirtQueue \<Rightarrow> VirtQueue option" where
  "virtqueue_ordered_fill elem len s = do {
     i \<leftarrow> umod (ucast (used_idx s)) (vr_num s);
     max_steps \<leftarrow> umod (ucast (last_avail_idx s) - ucast (used_idx s)) (vr_num s);
     ordered_fill_loop (ve_index elem) len max_steps 0 i s
   }"

definition virtqueue_packed_fill_desc :: "VirtQueueElement \<Rightarrow> u32 \<Rightarrow> VirtQueue \<Rightarrow> VirtQueue option" where
  "virtqueue_packed_fill_desc elem idx s =
     (if vr_desc s = 0 then Some s
      else (let head = ucast (ucast (used_idx s) + idx) :: u16;
                over = (vr_num s \<le> ucast head);
                wrap = (used_wrap_counter s \<noteq> over);
                head = (if over then ucast (ucast head - vr_num s) else head);
                fl = (if wrap then push_bit VRING_PACKED_DESC_F_AVAIL 1 OR push_bit VRING_PACKED_DESC_F_USED 1 else 0)
            in case vr_caches s of None \<Rightarrow> Some s
               | Some c \<Rightarrow> vring_packed_desc_write (ucast (ve_index elem)) (ve_len elem) fl (rc_desc c) (ucast head) s))"

definition virtqueue_fill :: "VirtQueueElement \<Rightarrow> u32 \<Rightarrow> u32 \<Rightarrow> VirtQueue \<Rightarrow> VirtQueue option" where
  "virtqueue_fill elem len idx s =
     (let s = virtqueue_unmap_sg elem len s
      in if virtio_device_disabled s then Some s
         else if in_order s then virtqueue_ordered_fill elem len s
         else if ring_packed s then virtqueue_packed_fill elem len idx s
         else virtqueue_split_fill elem len idx s)"

text \<open>The used index moved by \<open>new - old\<close>: is the index last signalled among the ones passed?\<close>

definition check_signalled :: "u16 \<Rightarrow> u16 \<Rightarrow> VirtQueue \<Rightarrow> VirtQueue" where
  "check_signalled new_idx old_idx s =
     (if sint (new_idx - signalled_used s) < uint (new_idx - old_idx) then s\<lparr>signalled_used_valid := False\<rparr> else s)"

definition virtqueue_split_flush :: "u32 \<Rightarrow> VirtQueue \<Rightarrow> VirtQueue option" where
  "virtqueue_split_flush count s =
     (if vr_used s = 0 then Some s
      else do {
        let old_idx = used_idx s;
        let new_idx = ucast (ucast old_idx + count);
        s \<leftarrow> vring_used_idx_set new_idx s;
        let s = s\<lparr>inuse := inuse s - count\<rparr>;
        Some (check_signalled new_idx old_idx s)
      })"

fun packed_flush_loop :: "nat \<Rightarrow> u32 \<Rightarrow> u32 \<Rightarrow> VirtQueue \<Rightarrow> (u32 \<times> VirtQueue) option" where
  "packed_flush_loop 0 i ndescs s = Some (ndescs, s)"
| "packed_flush_loop (Suc k) i ndescs s = do {
     e \<leftarrow> aget (used_elems s) (uint i);
     s \<leftarrow> virtqueue_packed_fill_desc e ndescs s;
     packed_flush_loop k (i + 1) (ndescs + ve_ndescs e) s
   }"

definition advance_used :: "u32 \<Rightarrow> VirtQueue \<Rightarrow> VirtQueue" where
  "advance_used ndescs s =
     (let s = s\<lparr>used_idx := ucast (ucast (used_idx s) + ndescs)\<rparr>
      in if vr_num s \<le> ucast (used_idx s)
         then s\<lparr>used_idx := ucast (ucast (used_idx s) - vr_num s), used_wrap_counter := \<not> used_wrap_counter s, signalled_used_valid := False\<rparr>
         else s)"

definition virtqueue_packed_flush :: "u32 \<Rightarrow> VirtQueue \<Rightarrow> VirtQueue option" where
  "virtqueue_packed_flush count s =
     (if vr_desc s = 0 then Some s
      else do {
        e \<leftarrow> aget (used_elems s) 0;
        (ndescs, s) \<leftarrow> packed_flush_loop (unat count - 1) 1 (ve_ndescs e) s;
        e \<leftarrow> aget (used_elems s) 0;
        s \<leftarrow> virtqueue_packed_fill_desc e 0 s;
        Some (advance_used ndescs (s\<lparr>inuse := inuse s - ndescs\<rparr>))
      })"

partial_function (option) ordered_flush_loop :: "u32 \<Rightarrow> u32 \<Rightarrow> VirtQueue \<Rightarrow> (u32 \<times> VirtQueue) option" where
  "ordered_flush_loop i ndescs s = do {
     e \<leftarrow> aget (used_elems s) (uint i);
     if \<not> in_order_filled e then Some (ndescs, s)
     else do {
       s \<leftarrow> (if ring_packed s
             then (if i \<noteq> ucast (used_idx s) then virtqueue_packed_fill_desc e ndescs s else Some s)
             else vring_used_write (ve_index e) (ve_len e) i s);
       s \<leftarrow> set_used_elem i (\<lambda>e. e\<lparr>in_order_filled := False\<rparr>) s;
       ordered_flush_loop (if vr_num s \<le> i + ve_ndescs e then i + ve_ndescs e - vr_num s else i + ve_ndescs e) (ndescs + ve_ndescs e) s
     }
   }"

definition virtqueue_ordered_flush :: "VirtQueue \<Rightarrow> VirtQueue option" where
  "virtqueue_ordered_flush s = do {
     i \<leftarrow> umod (ucast (used_idx s)) (vr_num s);
     let old_idx = used_idx s;
     let packed = ring_packed s;
     if (if packed then vr_desc s = 0 else vr_used s = 0) then Some s
     else do {
       e \<leftarrow> aget (used_elems s) (uint i);
       if \<not> in_order_filled e then Some s
       else do {
         (ndescs, s) \<leftarrow> ordered_flush_loop i 0 s;
         s \<leftarrow> (if packed then do {
                 e \<leftarrow> aget (used_elems s) (uint (used_idx s));
                 s \<leftarrow> virtqueue_packed_fill_desc e 0 s;
                 Some (advance_used ndescs s)
               }
               else do {
                 let new_idx = ucast (ucast old_idx + ndescs);
                 s \<leftarrow> vring_used_idx_set new_idx s;
                 Some (check_signalled new_idx old_idx s)
               });
         Some (s\<lparr>inuse := inuse s - ndescs\<rparr>)
       }
     }
   }"

definition virtqueue_flush :: "u32 \<Rightarrow> VirtQueue \<Rightarrow> VirtQueue option" where
  "virtqueue_flush count s =
     (if virtio_device_disabled s then Some (s\<lparr>inuse := inuse s - count\<rparr>)
      else if in_order s then virtqueue_ordered_flush s
      else if ring_packed s then virtqueue_packed_flush count s
      else virtqueue_split_flush count s)"

definition virtqueue_push :: "VirtQueueElement \<Rightarrow> u32 \<Rightarrow> VirtQueue \<Rightarrow> VirtQueue option" where
  "virtqueue_push elem len s = do { s \<leftarrow> virtqueue_fill elem len 0 s; virtqueue_flush 1 s }"

section \<open>Reading descriptors\<close>

definition EINVAL :: int where "EINVAL = 22"

definition virtqueue_num_heads :: "guest_memory \<Rightarrow> u32 \<Rightarrow> VirtQueue \<Rightarrow> (int \<times> VirtQueue) option" where
  "virtqueue_num_heads G idx s = do {
     (avail_idx, s) \<leftarrow> (if ucast (shadow_avail_idx s) \<noteq> idx then Some (shadow_avail_idx s, s) else vring_avail_idx G s);
     let num_heads = (ucast (ucast avail_idx - idx) :: u16);
     if vr_num s < ucast num_heads then Some (- EINVAL, virtio_error s) else Some (uint num_heads, s)
   }"

definition virtqueue_get_head :: "guest_memory \<Rightarrow> u32 \<Rightarrow> VirtQueue \<Rightarrow> (u32 option \<times> VirtQueue) option" where
  "virtqueue_get_head G idx s = do {
     i \<leftarrow> umod idx (vr_num s);
     (head, s) \<leftarrow> vring_avail_ring G i s;
     if vr_num s \<le> ucast head then Some (None, virtio_error s) else Some (Some (ucast head), s)
   }"

datatype read_desc = VIRTQUEUE_READ_DESC_ERROR | VIRTQUEUE_READ_DESC_DONE | VIRTQUEUE_READ_DESC_MORE

definition virtqueue_split_read_next_desc ::
  "guest_memory \<Rightarrow> VRingDesc \<Rightarrow> MemoryRegionCache \<Rightarrow> u32 \<Rightarrow> VirtQueue \<Rightarrow> (read_desc \<times> VRingDesc \<times> VirtQueue) option" where
  "virtqueue_split_read_next_desc G d c maxd s =
     (if vd_flags d AND VRING_DESC_F_NEXT = 0 then Some (VIRTQUEUE_READ_DESC_DONE, d, s)
      else if maxd \<le> ucast (vd_next d) then Some (VIRTQUEUE_READ_DESC_ERROR, d, virtio_error s)
      else do {
        (d, s) \<leftarrow> vring_split_desc_read G c (ucast (vd_next d)) s;
        Some (VIRTQUEUE_READ_DESC_MORE, d, s)
      })"

definition virtqueue_packed_read_next_desc ::
  "guest_memory \<Rightarrow> VRingPackedDesc \<Rightarrow> MemoryRegionCache \<Rightarrow> u32 \<Rightarrow> u32 \<Rightarrow> bool \<Rightarrow> VirtQueue \<Rightarrow> (read_desc \<times> VRingPackedDesc \<times> u32 \<times> VirtQueue) option" where
  "virtqueue_packed_read_next_desc G d c maxd next_desc indirect s =
     (if \<not> indirect \<and> pd_flags d AND VRING_DESC_F_NEXT = 0 then Some (VIRTQUEUE_READ_DESC_DONE, d, next_desc, s)
      else (let n = next_desc + 1
            in if n = maxd \<and> indirect then Some (VIRTQUEUE_READ_DESC_DONE, d, n, s)
               else (let n = (if n = maxd then n - vr_num s else n)
                     in do {
                          (d, s) \<leftarrow> vring_packed_desc_read G c n s;
                          Some (VIRTQUEUE_READ_DESC_MORE, d, n, s)
                        })))"

section \<open>Mapping buffers\<close>

text \<open>
  The segments of one element, kept in \<open>addr[]\<close> and \<open>iov[]\<close> of \<open>VIRTQUEUE_MAX_SIZE\<close> entries.  The device-readable
  ones come first; the next entry to write is always the one after the last written.
\<close>

definition put_seg :: "iovec \<Rightarrow> iovec list \<Rightarrow> iovec list option" where
  "put_seg v iov = (if length iov < VIRTQUEUE_MAX_SIZE then Some (iov @ [v]) else None)"

text \<open>\<open>num\<close> of at most \<open>max_num\<close> segments of this direction are in use.\<close>

partial_function (option) map_desc_loop ::
  "guest_memory \<Rightarrow> nat \<Rightarrow> bool \<Rightarrow> u64 \<Rightarrow> u64 \<Rightarrow> nat \<Rightarrow> iovec list \<Rightarrow> VirtQueue \<Rightarrow> (bool \<times> nat \<times> iovec list \<times> VirtQueue) option" where
  "map_desc_loop G max_num is_write pa sz num iov s =
     (if sz = 0 then Some (True, num, iov, s)
      else if num = max_num then Some (False, num, iov, virtio_error s)
      else (case gm_map G (dma_hist s) pa sz is_write of (base, len) \<Rightarrow>
        if base = 0 then Some (False, num, iov, virtio_error (s\<lparr>dma_hist := dma_hist s @ [DmaMap pa base len is_write]\<rparr>))
        else do {
          iov \<leftarrow> put_seg \<lparr>iov_addr = pa, iov_base = base, iov_len = len\<rparr> iov;
          map_desc_loop G max_num is_write (pa + len) (sz - len) (Suc num) iov (s\<lparr>dma_hist := dma_hist s @ [DmaMap pa base len is_write]\<rparr>)
        }))"

definition virtqueue_map_desc ::
  "guest_memory \<Rightarrow> nat \<Rightarrow> bool \<Rightarrow> u64 \<Rightarrow> u64 \<Rightarrow> nat \<Rightarrow> iovec list \<Rightarrow> VirtQueue \<Rightarrow> (bool \<times> nat \<times> iovec list \<times> VirtQueue) option" where
  "virtqueue_map_desc G max_num is_write pa sz num iov s =
     (if max_num < num then None
      else if sz = 0 then Some (False, num, iov, virtio_error s)
      else map_desc_loop G max_num is_write pa sz num iov s)"

text \<open>
  \<open>cpu_physical_memory_unmap(iov->iov_base, iov->iov_len, i >= out_num, 0)\<close> for every segment.  The buffers were
  mapped through the device's own address space; the model does not tell the two address spaces apart.
\<close>

definition virtqueue_undo_map_desc :: "nat \<Rightarrow> nat \<Rightarrow> iovec list \<Rightarrow> VirtQueue \<Rightarrow> VirtQueue" where
  "virtqueue_undo_map_desc out_num in_num iov s =
     s\<lparr>dma_hist := dma_hist s @ map (\<lambda>i. DmaUnmap (iov_base (iov ! i)) (iov_len (iov ! i)) (out_num \<le> i) 0) [0..<out_num + in_num]\<rparr>"

text \<open>A buffer of a descriptor, in the direction its flags give: \<open>(ok, out_num, in_num, iov)\<close>.\<close>

definition map_buffer ::
  "guest_memory \<Rightarrow> u16 \<Rightarrow> u64 \<Rightarrow> u32 \<Rightarrow> nat \<Rightarrow> nat \<Rightarrow> iovec list \<Rightarrow> VirtQueue \<Rightarrow> (bool \<times> nat \<times> nat \<times> iovec list \<times> VirtQueue) option" where
  "map_buffer G flags addr len out_num in_num iov s =
     (if flags AND VRING_DESC_F_WRITE \<noteq> 0 then do {
        (ok, in_num, iov, s) \<leftarrow> virtqueue_map_desc G (VIRTQUEUE_MAX_SIZE - out_num) True addr (ucast len) in_num iov s;
        Some (ok, out_num, in_num, iov, s)
      }
      else if in_num \<noteq> 0 then Some (False, out_num, in_num, iov, virtio_error s)
      else do {
        (ok, out_num, iov, s) \<leftarrow> virtqueue_map_desc G VIRTQUEUE_MAX_SIZE False addr (ucast len) out_num iov s;
        Some (ok, out_num, in_num, iov, s)
      })"

text \<open>\<open>len\<close> is not initialised by \<open>virtqueue_alloc_element()\<close>.\<close>

definition virtqueue_alloc_element :: "guest_memory \<Rightarrow> nat \<Rightarrow> nat \<Rightarrow> iovec list \<Rightarrow> u32 \<Rightarrow> u32 \<Rightarrow> VirtQueue \<Rightarrow> VirtQueueElement" where
  "virtqueue_alloc_element G out_num in_num iov index ndescs s =
     \<lparr>ve_index = index, ve_len = gm_junk G (dma_hist s), ve_ndescs = ndescs, in_order_filled = False,
      in_sg = take in_num (drop out_num iov), out_sg = take out_num iov\<rparr>"

section \<open>Taking an element off a split ring\<close>

partial_function (option) split_pop_loop ::
  "guest_memory \<Rightarrow> VRingDesc \<Rightarrow> MemoryRegionCache \<Rightarrow> u32 \<Rightarrow> nat \<Rightarrow> nat \<Rightarrow> u32 \<Rightarrow> iovec list \<Rightarrow> VirtQueue \<Rightarrow> (bool \<times> nat \<times> nat \<times> iovec list \<times> VirtQueue) option" where
  "split_pop_loop G d c maxd out_num in_num entries iov s = do {
     (ok, out_num, in_num, iov, s) \<leftarrow> map_buffer G (vd_flags d) (vd_addr d) (vd_len d) out_num in_num iov s;
     if \<not> ok then Some (False, out_num, in_num, iov, s)
     else if maxd < entries + 1 then Some (False, out_num, in_num, iov, virtio_error s)
     else do {
       (rc, d, s) \<leftarrow> virtqueue_split_read_next_desc G d c maxd s;
       if rc = VIRTQUEUE_READ_DESC_MORE then split_pop_loop G d c maxd out_num in_num (entries + 1) iov s
       else Some (rc \<noteq> VIRTQUEUE_READ_DESC_ERROR, out_num, in_num, iov, s)
     }
   }"

text \<open>The head, or the first descriptor of the indirect table it refers to, with the table's size.\<close>

definition split_pop_table ::
  "guest_memory \<Rightarrow> u32 \<Rightarrow> VRingMemoryRegionCaches \<Rightarrow> VirtQueue \<Rightarrow> ((VRingDesc \<times> MemoryRegionCache \<times> u32) option \<times> VirtQueue) option" where
  "split_pop_table G head c s = do {
     (d, s) \<leftarrow> vring_split_desc_read G (rc_desc c) head s;
     if vd_flags d AND VRING_DESC_F_INDIRECT = 0 then Some (Some (d, rc_desc c, vr_num s), s)
     else if vd_len d = 0 \<or> vd_len d mod 16 \<noteq> 0 then Some (None, virtio_error s)
     else do {
       (len, ic, s) \<leftarrow> address_space_cache_init G (vd_addr d) (ucast (vd_len d)) False s;
       if len < ucast (vd_len d) then Some (None, virtio_error s)
       else do {
         let maxd = vd_len d div 16;
         (d, s) \<leftarrow> vring_split_desc_read G ic 0 s;
         Some (Some (d, ic, maxd), s)
       }
     }
   }"

text \<open>The element whose chain starts at \<open>head\<close>; \<open>last_avail_idx\<close> counts it as taken.\<close>

definition split_pop_chain :: "guest_memory \<Rightarrow> u32 \<Rightarrow> VRingMemoryRegionCaches \<Rightarrow> VirtQueue \<Rightarrow> (VirtQueueElement option \<times> VirtQueue) option" where
  "split_pop_chain G head c s = do {
     (t, s) \<leftarrow> split_pop_table G head c s;
     case t of None \<Rightarrow> Some (None, s)
     | Some (d, dc, maxd) \<Rightarrow> do {
         (ok, out_num, in_num, iov, s) \<leftarrow> split_pop_loop G d dc maxd 0 0 0 [] s;
         if \<not> ok then Some (None, virtqueue_undo_map_desc out_num in_num iov s)
         else do {
           let elem = virtqueue_alloc_element G out_num in_num iov head 1 s;
           s \<leftarrow> (if in_order s then do {
                   i \<leftarrow> umod (ucast (last_avail_idx s) - 1) (vr_num s);
                   set_used_elem i (\<lambda>e. e\<lparr>ve_index := ve_index elem, ve_len := ve_len elem, ve_ndescs := ve_ndescs elem\<rparr>) s
                 }
                 else Some s);
           Some (Some elem, s\<lparr>inuse := inuse s + 1\<rparr>)
         }
       }
   }"

definition virtqueue_split_pop :: "guest_memory \<Rightarrow> VirtQueue \<Rightarrow> (VirtQueueElement option \<times> VirtQueue) option" where
  "virtqueue_split_pop G s = do {
     (empty, s) \<leftarrow> virtio_queue_empty_rcu G s;
     if empty then Some (None, s)
     else if vr_num s \<le> inuse s then Some (None, virtio_error s)
     else do {
       (h, s) \<leftarrow> virtqueue_get_head G (ucast (last_avail_idx s)) (s\<lparr>last_avail_idx := last_avail_idx s + 1\<rparr>);
       case h of None \<Rightarrow> Some (None, s)
       | Some head \<Rightarrow> do {
           s \<leftarrow> (if event_idx s then vring_set_avail_event (last_avail_idx s) s else Some s);
           case vr_caches s of None \<Rightarrow> Some (None, virtio_error s)
           | Some c \<Rightarrow>
               if mrc_len (rc_desc c) < ucast (vr_num s) * sizeof_VRingDesc then Some (None, virtio_error s)
               else split_pop_chain G head c s
         }
     }
   }"

section \<open>Taking an element off a packed ring\<close>

partial_function (option) packed_pop_loop ::
  "guest_memory \<Rightarrow> VRingPackedDesc \<Rightarrow> MemoryRegionCache \<Rightarrow> bool \<Rightarrow> u32 \<Rightarrow> u32 \<Rightarrow> nat \<Rightarrow> nat \<Rightarrow> u32 \<Rightarrow> iovec list \<Rightarrow> VirtQueue \<Rightarrow>
   (bool \<times> VRingPackedDesc \<times> nat \<times> nat \<times> u32 \<times> iovec list \<times> VirtQueue) option" where
  "packed_pop_loop G d c indirect maxd i out_num in_num entries iov s = do {
     (ok, out_num, in_num, iov, s) \<leftarrow> map_buffer G (pd_flags d) (pd_addr d) (pd_len d) out_num in_num iov s;
     if \<not> ok then Some (False, d, out_num, in_num, entries, iov, s)
     else if maxd < entries + 1 then Some (False, d, out_num, in_num, entries + 1, iov, virtio_error s)
     else do {
       (rc, d, i, s) \<leftarrow> virtqueue_packed_read_next_desc G d c maxd i indirect s;
       if rc = VIRTQUEUE_READ_DESC_MORE then packed_pop_loop G d c indirect maxd i out_num in_num (entries + 1) iov s
       else Some (True, d, out_num, in_num, entries + 1, iov, s)
     }
   }"

text \<open>A table of length 0 is not refused here.\<close>

definition packed_pop_table ::
  "guest_memory \<Rightarrow> VRingMemoryRegionCaches \<Rightarrow> VirtQueue \<Rightarrow> ((VRingPackedDesc \<times> u16 \<times> MemoryRegionCache \<times> bool \<times> u32 \<times> u32) option \<times> VirtQueue) option" where
  "packed_pop_table G c s = do {
     let i = ucast (last_avail_idx s);
     (d, s) \<leftarrow> vring_packed_desc_read G (rc_desc c) i s;
     if pd_flags d AND VRING_DESC_F_INDIRECT = 0 then Some (Some (d, pd_id d, rc_desc c, False, vr_num s, i), s)
     else if pd_len d mod 16 \<noteq> 0 then Some (None, virtio_error s)
     else do {
       (len, ic, s) \<leftarrow> address_space_cache_init G (pd_addr d) (ucast (pd_len d)) False s;
       if len < ucast (pd_len d) then Some (None, virtio_error s)
       else do {
         (d', s) \<leftarrow> vring_packed_desc_read G ic 0 s;
         Some (Some (d', pd_id d, ic, True, pd_len d div 16, 0), s)
       }
     }
   }"

definition advance_avail :: "u32 \<Rightarrow> VirtQueue \<Rightarrow> VirtQueue" where
  "advance_avail ndescs s =
     (let s = s\<lparr>last_avail_idx := ucast (ucast (last_avail_idx s) + ndescs)\<rparr>
      in if vr_num s \<le> ucast (last_avail_idx s)
         then s\<lparr>last_avail_idx := ucast (ucast (last_avail_idx s) - vr_num s), last_avail_wrap_counter := \<not> last_avail_wrap_counter s\<rparr>
         else s)"

definition virtqueue_packed_pop :: "guest_memory \<Rightarrow> VirtQueue \<Rightarrow> (VirtQueueElement option \<times> VirtQueue) option" where
  "virtqueue_packed_pop G s = do {
     (empty, s) \<leftarrow> virtio_queue_packed_empty_rcu G s;
     if empty then Some (None, s)
     else if vr_num s \<le> inuse s then Some (None, virtio_error s)
     else (case vr_caches s of None \<Rightarrow> Some (None, virtio_error s)
       | Some c \<Rightarrow>
           if mrc_len (rc_desc c) < ucast (vr_num s) * sizeof_VRingDesc then Some (None, virtio_error s)
           else do {
             (t, s) \<leftarrow> packed_pop_table G c s;
             case t of None \<Rightarrow> Some (None, s)
             | Some (d, hid, dc, indirect, maxd, i) \<Rightarrow> do {
                 (ok, d, out_num, in_num, entries, iov, s) \<leftarrow> packed_pop_loop G d dc indirect maxd i 0 0 0 [] s;
                 if \<not> ok then Some (None, virtqueue_undo_map_desc out_num in_num iov s)
                 else do {
                   let elem = virtqueue_alloc_element G out_num in_num iov (ucast (if indirect then hid else pd_id d)) (if indirect then 1 else entries) s;
                   s \<leftarrow> (if in_order s
                         then set_used_elem (ucast (last_avail_idx s)) (\<lambda>e. e\<lparr>ve_index := ve_index elem, ve_len := ve_len elem, ve_ndescs := ve_ndescs elem\<rparr>) s
                         else Some s);
                   let s = advance_avail (ve_ndescs elem) s;
                   let s = s\<lparr>inuse := inuse s + ve_ndescs elem\<rparr>;
                   Some (Some elem, s\<lparr>shadow_avail_idx := last_avail_idx s, shadow_avail_wrap_counter := last_avail_wrap_counter s\<rparr>)
                 }
               }
           })
   }"

definition virtqueue_pop :: "guest_memory \<Rightarrow> VirtQueue \<Rightarrow> (VirtQueueElement option \<times> VirtQueue) option" where
  "virtqueue_pop G s =
     (if virtio_device_disabled s then Some (None, s)
      else if ring_packed s then virtqueue_packed_pop G s
      else virtqueue_split_pop G s)"

section \<open>How much the guest offers\<close>

text \<open>One chain is counted: an error, enough bytes seen, or its end with the number of buffers so far.\<close>

datatype chain_bytes = ChainError | ChainEnough | ChainEnd u32

partial_function (option) split_chain_bytes ::
  "guest_memory \<Rightarrow> VRingDesc \<Rightarrow> MemoryRegionCache \<Rightarrow> u32 \<Rightarrow> u32 \<Rightarrow> u32 \<Rightarrow> u32 \<Rightarrow> u32 \<Rightarrow> u32 \<Rightarrow> VirtQueue \<Rightarrow> (chain_bytes \<times> u32 \<times> u32 \<times> VirtQueue) option" where
  "split_chain_bytes G d c maxd num_bufs in_total out_total max_in max_out s =
     (if maxd < num_bufs + 1 then Some (ChainError, in_total, out_total, virtio_error s)
      else (case (if vd_flags d AND VRING_DESC_F_WRITE \<noteq> 0 then (in_total + vd_len d, out_total) else (in_total, out_total + vd_len d)) of
        (in_total, out_total) \<Rightarrow>
          if max_in \<le> in_total \<and> max_out \<le> out_total then Some (ChainEnough, in_total, out_total, s)
          else do {
            (rc, d, s) \<leftarrow> virtqueue_split_read_next_desc G d c maxd s;
            if rc = VIRTQUEUE_READ_DESC_MORE then split_chain_bytes G d c maxd (num_bufs + 1) in_total out_total max_in max_out s
            else Some (if rc = VIRTQUEUE_READ_DESC_ERROR then ChainError else ChainEnd (num_bufs + 1), in_total, out_total, s)
          }))"

text \<open>The chain's table: \<open>None\<close> for an error, otherwise the first descriptor, the table, its size and \<open>num_bufs\<close>.\<close>

definition split_bytes_table ::
  "guest_memory \<Rightarrow> u32 \<Rightarrow> VRingMemoryRegionCaches \<Rightarrow> u32 \<Rightarrow> VirtQueue \<Rightarrow>
   ((VRingDesc \<times> MemoryRegionCache \<times> bool \<times> u32 \<times> u32) option \<times> VirtQueue) option" where
  "split_bytes_table G i c total_bufs s = do {
     (d, s) \<leftarrow> vring_split_desc_read G (rc_desc c) i s;
     if vd_flags d AND VRING_DESC_F_INDIRECT = 0 then Some (Some (d, rc_desc c, False, vr_num s, total_bufs), s)
     else if vd_len d = 0 \<or> vd_len d mod 16 \<noteq> 0 then Some (None, virtio_error s)
     else if vr_num s \<le> total_bufs then Some (None, virtio_error s)
     else do {
       (len, ic, s) \<leftarrow> address_space_cache_init G (vd_addr d) (ucast (vd_len d)) False s;
       if len < ucast (vd_len d) then Some (None, virtio_error s)
       else do {
         let maxd = vd_len d div 16;
         (d, s) \<leftarrow> vring_split_desc_read G ic 0 s;
         Some (Some (d, ic, True, maxd, 0), s)
       }
     }
   }"

partial_function (option) split_bytes_loop ::
  "guest_memory \<Rightarrow> VRingMemoryRegionCaches \<Rightarrow> u32 \<Rightarrow> u32 \<Rightarrow> u32 \<Rightarrow> u32 \<Rightarrow> u32 \<Rightarrow> u32 \<Rightarrow> VirtQueue \<Rightarrow> (u32 \<times> u32 \<times> VirtQueue) option" where
  "split_bytes_loop G c max_in max_out idx total_bufs in_total out_total s = do {
     (rc, s) \<leftarrow> virtqueue_num_heads G idx s;
     if rc < 0 then Some (0, 0, s)
     else if rc = 0 then Some (in_total, out_total, s)
     else do {
       (h, s) \<leftarrow> virtqueue_get_head G idx s;
       case h of None \<Rightarrow> Some (0, 0, s)
       | Some i \<Rightarrow> do {
           (t, s) \<leftarrow> split_bytes_table G i c total_bufs s;
           case t of None \<Rightarrow> Some (0, 0, s)
           | Some (d, dc, indirect, maxd, num_bufs) \<Rightarrow> do {
               (r, in_total, out_total, s) \<leftarrow> split_chain_bytes G d dc maxd num_bufs in_total out_total max_in max_out s;
               case r of ChainError \<Rightarrow> Some (0, 0, s)
               | ChainEnough \<Rightarrow> Some (in_total, out_total, s)
               | ChainEnd n \<Rightarrow> split_bytes_loop G c max_in max_out (idx + 1) (if indirect then total_bufs + 1 else n) in_total out_total s
             }
         }
     }
   }"

definition virtqueue_split_get_avail_bytes ::
  "guest_memory \<Rightarrow> u32 \<Rightarrow> u32 \<Rightarrow> VRingMemoryRegionCaches \<Rightarrow> VirtQueue \<Rightarrow> (u32 \<times> u32 \<times> VirtQueue) option" where
  "virtqueue_split_get_avail_bytes G max_in max_out c s = split_bytes_loop G c max_in max_out (ucast (last_avail_idx s)) 0 0 0 s"

partial_function (option) packed_chain_bytes ::
  "guest_memory \<Rightarrow> VRingPackedDesc \<Rightarrow> MemoryRegionCache \<Rightarrow> bool \<Rightarrow> u32 \<Rightarrow> u32 \<Rightarrow> u32 \<Rightarrow> u32 \<Rightarrow> u32 \<Rightarrow> u32 \<Rightarrow> u32 \<Rightarrow> VirtQueue \<Rightarrow>
   (chain_bytes \<times> u32 \<times> u32 \<times> VirtQueue) option" where
  "packed_chain_bytes G d c indirect maxd i num_bufs in_total out_total max_in max_out s =
     (if maxd < num_bufs + 1 then Some (ChainError, in_total, out_total, virtio_error s)
      else (case (if pd_flags d AND VRING_DESC_F_WRITE \<noteq> 0 then (in_total + pd_len d, out_total) else (in_total, out_total + pd_len d)) of
        (in_total, out_total) \<Rightarrow>
          if max_in \<le> in_total \<and> max_out \<le> out_total then Some (ChainEnough, in_total, out_total, s)
          else do {
            (rc, d, i, s) \<leftarrow> virtqueue_packed_read_next_desc G d c maxd i indirect s;
            if rc = VIRTQUEUE_READ_DESC_MORE then packed_chain_bytes G d c indirect maxd i (num_bufs + 1) in_total out_total max_in max_out s
            else Some (ChainEnd (num_bufs + 1), in_total, out_total, s)
          }))"

definition packed_bytes_table ::
  "guest_memory \<Rightarrow> VRingPackedDesc \<Rightarrow> u32 \<Rightarrow> VRingMemoryRegionCaches \<Rightarrow> u32 \<Rightarrow> VirtQueue \<Rightarrow>
   ((VRingPackedDesc \<times> MemoryRegionCache \<times> bool \<times> u32 \<times> u32 \<times> u32) option \<times> VirtQueue) option" where
  "packed_bytes_table G d idx c total_bufs s =
     (if pd_flags d AND VRING_DESC_F_INDIRECT = 0 then Some (Some (d, rc_desc c, False, vr_num s, total_bufs, idx), s)
      else if pd_len d mod 16 \<noteq> 0 then Some (None, virtio_error s)
      else if vr_num s \<le> total_bufs then Some (None, virtio_error s)
      else do {
        (len, ic, s) \<leftarrow> address_space_cache_init G (pd_addr d) (ucast (pd_len d)) False s;
        if len < ucast (pd_len d) then Some (None, virtio_error s)
        else do {
          (d', s) \<leftarrow> vring_packed_desc_read G ic 0 s;
          Some (Some (d', ic, True, pd_len d div 16, 0, 0), s)
        }
      })"

partial_function (option) packed_bytes_loop ::
  "guest_memory \<Rightarrow> VRingMemoryRegionCaches \<Rightarrow> u32 \<Rightarrow> u32 \<Rightarrow> u32 \<Rightarrow> bool \<Rightarrow> u32 \<Rightarrow> u32 \<Rightarrow> u32 \<Rightarrow> VirtQueue \<Rightarrow> (u32 \<times> u32 \<times> VirtQueue) option" where
  "packed_bytes_loop G c max_in max_out idx wrap total_bufs in_total out_total s = do {
     (d, s) \<leftarrow> vring_packed_desc_read G (rc_desc c) idx s;
     if \<not> is_desc_avail (pd_flags d) wrap
     then Some (in_total, out_total, s\<lparr>shadow_avail_idx := ucast idx, shadow_avail_wrap_counter := wrap\<rparr>)
     else do {
       (t, s) \<leftarrow> packed_bytes_table G d idx c total_bufs s;
       case t of None \<Rightarrow> Some (0, 0, s)
       | Some (d, dc, indirect, maxd, num_bufs, i) \<Rightarrow> do {
           (r, in_total, out_total, s) \<leftarrow> packed_chain_bytes G d dc indirect maxd i num_bufs in_total out_total max_in max_out s;
           case r of ChainError \<Rightarrow> Some (0, 0, s)
           | ChainEnough \<Rightarrow> Some (in_total, out_total, s)
           | ChainEnd n \<Rightarrow>
               (case (if indirect then (total_bufs + 1, idx + 1) else (n, idx + (n - total_bufs))) of (total_bufs, idx) \<Rightarrow>
                  packed_bytes_loop G c max_in max_out (if vr_num s \<le> idx then idx - vr_num s else idx)
                    (if vr_num s \<le> idx then \<not> wrap else wrap) total_bufs in_total out_total s)
         }
     }
   }"

definition virtqueue_packed_get_avail_bytes ::
  "guest_memory \<Rightarrow> u32 \<Rightarrow> u32 \<Rightarrow> VRingMemoryRegionCaches \<Rightarrow> VirtQueue \<Rightarrow> (u32 \<times> u32 \<times> VirtQueue) option" where
  "virtqueue_packed_get_avail_bytes G max_in max_out c s =
     packed_bytes_loop G c max_in max_out (ucast (last_avail_idx s)) (last_avail_wrap_counter s) 0 0 0 s"

definition virtqueue_get_avail_bytes :: "guest_memory \<Rightarrow> u32 \<Rightarrow> u32 \<Rightarrow> VirtQueue \<Rightarrow> (int \<times> u32 \<times> u32 \<times> VirtQueue) option" where
  "virtqueue_get_avail_bytes G max_in max_out s =
     (if vr_desc s = 0 then Some (-1, 0, 0, s)
      else (case vr_caches s of None \<Rightarrow> Some (-1, 0, 0, s)
        | Some c \<Rightarrow>
            if mrc_len (rc_desc c) < ucast (vr_num s * 16) then Some (-1, 0, 0, virtio_error s)
            else do {
              (in_bytes, out_bytes, s) \<leftarrow>
                (if ring_packed s then virtqueue_packed_get_avail_bytes G max_in max_out c s
                 else virtqueue_split_get_avail_bytes G max_in max_out c s);
              Some (uint (shadow_avail_idx s), in_bytes, out_bytes, s)
            }))"

definition virtqueue_avail_bytes :: "guest_memory \<Rightarrow> u32 \<Rightarrow> u32 \<Rightarrow> VirtQueue \<Rightarrow> (bool \<times> VirtQueue) option" where
  "virtqueue_avail_bytes G in_bytes out_bytes s = do {
     (r, in_total, out_total, s) \<leftarrow> virtqueue_get_avail_bytes G in_bytes out_bytes s;
     Some (in_bytes \<le> in_total \<and> out_bytes \<le> out_total, s)
   }"

section \<open>Dropping what is queued\<close>

text \<open>\<open>VirtQueueElement elem = {}\<close>\<close>

definition zero_elem :: VirtQueueElement where
  "zero_elem = \<lparr>ve_index = 0, ve_len = 0, ve_ndescs = 0, in_order_filled = False, in_sg = [], out_sg = []\<rparr>"

text \<open>The inner loop ends only at a descriptor without \<open>VRING_DESC_F_NEXT\<close>.\<close>

partial_function (option) packed_drop_chain ::
  "guest_memory \<Rightarrow> VRingPackedDesc \<Rightarrow> MemoryRegionCache \<Rightarrow> u32 \<Rightarrow> u32 \<Rightarrow> VirtQueue \<Rightarrow> (u32 \<times> VirtQueue) option" where
  "packed_drop_chain G d c idx ndescs s = do {
     (rc, d, idx, s) \<leftarrow> virtqueue_packed_read_next_desc G d c (vr_num s) idx False s;
     if rc = VIRTQUEUE_READ_DESC_DONE then Some (ndescs, s) else packed_drop_chain G d c idx (ndescs + 1) s
   }"

partial_function (option) packed_drop_loop :: "guest_memory \<Rightarrow> MemoryRegionCache \<Rightarrow> u32 \<Rightarrow> VirtQueue \<Rightarrow> (u32 \<times> VirtQueue) option" where
  "packed_drop_loop G c dropped s =
     (if \<not> inuse s < vr_num s then Some (dropped, s)
      else do {
        (d, s) \<leftarrow> vring_packed_desc_read G c (ucast (last_avail_idx s)) s;
        if \<not> is_desc_avail (pd_flags d) (last_avail_wrap_counter s) then Some (dropped, s)
        else do {
          (ndescs, s) \<leftarrow> packed_drop_chain G d c (ucast (last_avail_idx s)) 1 s;
          s \<leftarrow> virtqueue_push (zero_elem\<lparr>ve_index := ucast (pd_id d), ve_ndescs := ndescs\<rparr>) 0 s;
          packed_drop_loop G c (dropped + 1) (advance_avail ndescs s)
        }
      })"

definition virtqueue_packed_drop_all :: "guest_memory \<Rightarrow> VirtQueue \<Rightarrow> (u32 \<times> VirtQueue) option" where
  "virtqueue_packed_drop_all G s =
     (case vr_caches s of None \<Rightarrow> Some (0, s)
      | Some c \<Rightarrow> do {
          s \<leftarrow> virtio_queue_set_notification G False s;
          packed_drop_loop G (rc_desc c) 0 s
        })"

partial_function (option) split_drop_loop :: "guest_memory \<Rightarrow> u32 \<Rightarrow> VirtQueue \<Rightarrow> (u32 \<times> VirtQueue) option" where
  "split_drop_loop G dropped s = do {
     (empty, s) \<leftarrow> virtio_queue_empty G s;
     if empty \<or> \<not> inuse s < vr_num s then Some (dropped, s)
     else do {
       (h, s) \<leftarrow> virtqueue_get_head G (ucast (last_avail_idx s)) s;
       case h of None \<Rightarrow> Some (dropped, s)
       | Some head \<Rightarrow> do {
           s \<leftarrow> (if event_idx s then vring_set_avail_event (last_avail_idx s + 1) (s\<lparr>inuse := inuse s + 1, last_avail_idx := last_avail_idx s + 1\<rparr>)
                 else Some (s\<lparr>inuse := inuse s + 1, last_avail_idx := last_avail_idx s + 1\<rparr>));
           s \<leftarrow> virtqueue_push (zero_elem\<lparr>ve_index := head\<rparr>) 0 s;
           split_drop_loop G (dropped + 1) s
         }
     }
   }"

definition virtqueue_split_drop_all :: "guest_memory \<Rightarrow> VirtQueue \<Rightarrow> (u32 \<times> VirtQueue) option" where
  "virtqueue_split_drop_all G s = split_drop_loop G 0 s"

definition virtqueue_drop_all :: "guest_memory \<Rightarrow> VirtQueue \<Rightarrow> (u32 \<times> VirtQueue) option" where
  "virtqueue_drop_all G s =
     (if virtio_device_disabled s then Some (0, s)
      else if ring_packed s then virtqueue_packed_drop_all G s
      else virtqueue_split_drop_all G s)"

section \<open>Interrupts\<close>

definition vring_need_event :: "u16 \<Rightarrow> u16 \<Rightarrow> u16 \<Rightarrow> bool" where
  "vring_need_event event_index new_idx old_idx \<longleftrightarrow> new_idx - event_index - 1 < new_idx - old_idx"

definition virtio_split_should_notify :: "guest_memory \<Rightarrow> VirtQueue \<Rightarrow> (bool \<times> VirtQueue) option" where
  "virtio_split_should_notify G s = do {
     (empty, s) \<leftarrow> (if virtio_vdev_has_feature s VIRTIO_F_NOTIFY_ON_EMPTY \<and> inuse s = 0 then virtio_queue_empty G s else Some (False, s));
     if empty then Some (True, s)
     else if \<not> event_idx s then do {
       (fl, s) \<leftarrow> vring_avail_flags G s;
       Some (fl AND VRING_AVAIL_F_NO_INTERRUPT = 0, s)
     }
     else do {
       let v = signalled_used_valid s;
       let old_idx = signalled_used s;
       let new_idx = used_idx s;
       let s = s\<lparr>signalled_used_valid := True, signalled_used := new_idx\<rparr>;
       if \<not> v then Some (True, s)
       else do { (e, s) \<leftarrow> vring_get_used_event G s; Some (vring_need_event e new_idx old_idx, s) }
     }
   }"

definition vring_packed_need_event :: "bool \<Rightarrow> u16 \<Rightarrow> u16 \<Rightarrow> u16 \<Rightarrow> VirtQueue \<Rightarrow> bool" where
  "vring_packed_need_event wrap ow new_idx old_idx s =
     (let off = ow AND NOT (push_bit 15 1);
          off = (if wrap \<noteq> bit ow 15 then ucast (ucast off - vr_num s) else off)
      in vring_need_event off new_idx old_idx)"

definition virtio_packed_should_notify :: "guest_memory \<Rightarrow> VirtQueue \<Rightarrow> (bool \<times> VirtQueue) option" where
  "virtio_packed_should_notify G s =
     (case vr_caches s of None \<Rightarrow> Some (False, s)
      | Some c \<Rightarrow> do {
          (e, s) \<leftarrow> vring_packed_event_read G (rc_avail c) s;
          let old_idx = signalled_used s;
          let new_idx = used_idx s;
          let v = signalled_used_valid s;
          let s = s\<lparr>signalled_used := new_idx, signalled_used_valid := True\<rparr>;
          Some (if pe_flags e = VRING_PACKED_EVENT_FLAG_DISABLE then False
                else if pe_flags e = VRING_PACKED_EVENT_FLAG_ENABLE then True
                else \<not> v \<or> vring_packed_need_event (used_wrap_counter s) (off_wrap e) new_idx old_idx s, s)
        })"

definition virtio_should_notify :: "guest_memory \<Rightarrow> VirtQueue \<Rightarrow> (bool \<times> VirtQueue) option" where
  "virtio_should_notify G s = (if ring_packed s then virtio_packed_should_notify G s else virtio_split_should_notify G s)"

definition virtio_irq :: "VirtQueue \<Rightarrow> VirtQueue" where
  "virtio_irq s = virtio_notify_vector (vq_vector s) (virtio_set_isr 1 s)"

definition virtio_notify :: "guest_memory \<Rightarrow> VirtQueue \<Rightarrow> VirtQueue option" where
  "virtio_notify G s = do { (n, s) \<leftarrow> virtio_should_notify G s; Some (if n then virtio_irq s else s) }"

end
