(* ===== verification/Virtio_Safety.thy ===== *)
theory Virtio_Safety
  imports Virtio_Ops "HOL-Library.Multiset"
begin

text \<open>
  Whatever the guest puts into its memory, and however it changes it between two accesses, the
  operations on a split virtqueue return, stay inside their buffers and keep account of what is
  mapped.
\<close>

section \<open>Results\<close>

text \<open>\<open>m\<close> returns, with a result of which \<open>Q\<close> holds.\<close>

definition returns :: "'a option \<Rightarrow> ('a \<Rightarrow> bool) \<Rightarrow> bool" where
  "returns m Q \<longleftrightarrow> (\<exists>x. m = Some x \<and> Q x)"

lemma returns_Some [simp]: "returns (Some x) Q \<longleftrightarrow> Q x"
  by (simp add: returns_def)

lemma returns_None [simp]: "\<not> returns None Q"
  by (simp add: returns_def)

lemma returns_bind: "returns m Q \<Longrightarrow> (\<And>x. Q x \<Longrightarrow> returns (f x) R) \<Longrightarrow> returns (m \<bind> f) R"
  by (auto simp: returns_def)

lemma returns_mono: "returns m Q \<Longrightarrow> (\<And>x. Q x \<Longrightarrow> R x) \<Longrightarrow> returns m R"
  by (auto simp: returns_def)

lemma returnsE: "returns m Q \<Longrightarrow> (\<And>x. m = Some x \<Longrightarrow> Q x \<Longrightarrow> thesis) \<Longrightarrow> thesis"
  by (auto simp: returns_def)

section \<open>What is mapped\<close>

text \<open>The segments \<open>(base, length, written by the device)\<close> mapped and unmapped by a sequence of events.\<close>

type_synonym seg = "u64 \<times> u64 \<times> bool"

fun mapped1 :: "dma_event \<Rightarrow> seg multiset" where
  "mapped1 (DmaMap pa base len w) = (if base = 0 then {#} else {#(base, len, w)#})"
| "mapped1 _ = {#}"

fun unmapped1 :: "dma_event \<Rightarrow> seg multiset" where
  "unmapped1 (DmaUnmap base len w n) = {#(base, len, w)#}"
| "unmapped1 _ = {#}"

definition mapped :: "dma_event list \<Rightarrow> seg multiset" where
  "mapped h = sum_list (map mapped1 h)"

definition unmapped :: "dma_event list \<Rightarrow> seg multiset" where
  "unmapped h = sum_list (map unmapped1 h)"

lemma mapped_simps [simp]: "mapped [] = {#}" "mapped (e # h) = mapped1 e + mapped h" "mapped (g @ h) = mapped g + mapped h"
  by (simp_all add: mapped_def)

lemma unmapped_simps [simp]:
  "unmapped [] = {#}" "unmapped (e # h) = unmapped1 e + unmapped h" "unmapped (g @ h) = unmapped g + unmapped h"
  by (simp_all add: unmapped_def)

definition sg_segs :: "bool \<Rightarrow> iovec list \<Rightarrow> seg multiset" where
  "sg_segs w vs = mset (map (\<lambda>v. (iov_base v, iov_len v, w)) vs)"

definition elem_segs :: "VirtQueueElement \<Rightarrow> seg multiset" where
  "elem_segs e = sg_segs True (in_sg e) + sg_segs False (out_sg e)"

lemma sg_segs_simps [simp]: "sg_segs w [] = {#}" "sg_segs w (v # vs) = {#(iov_base v, iov_len v, w)#} + sg_segs w vs"
  "sg_segs w (us @ vs) = sg_segs w us + sg_segs w vs"
  by (simp_all add: sg_segs_def)

section \<open>Queues whose caches fit\<close>

definition ring_config :: "VirtQueue \<Rightarrow> _" where
  "ring_config s = (vr_num s, vr_num_default s, vr_desc s, vr_avail s, vr_used s, vr_caches s, guest_features s, device_endian s)"

definition caches_fit :: "VirtQueue \<Rightarrow> bool" where
  "caches_fit s \<longleftrightarrow> (case vr_caches s of None \<Rightarrow> True
     | Some c \<Rightarrow> virtio_queue_get_desc_size s \<le> mrc_len (rc_desc c) \<and> virtio_queue_get_avail_size s \<le> mrc_len (rc_avail c) \<and>
         virtio_queue_get_used_size s \<le> mrc_len (rc_used c) \<and> mrc_is_write (rc_used c) \<and> (ring_packed s \<longrightarrow> mrc_is_write (rc_desc c)))"

definition queue_ok :: "VirtQueue \<Rightarrow> bool" where
  "queue_ok s \<longleftrightarrow> 0 < vr_num s \<and> vr_num s \<le> 1024 \<and> virtio_is_big_endian s \<noteq> None \<and> caches_fit s"

lemma config_features: "ring_config t = ring_config s \<Longrightarrow> virtio_vdev_has_feature t f = virtio_vdev_has_feature s f"
  by (simp add: ring_config_def virtio_vdev_has_feature_def)

lemma config_fields:
  "ring_config t = ring_config s \<Longrightarrow> vr_num t = vr_num s" "ring_config t = ring_config s \<Longrightarrow> vr_caches t = vr_caches s"
  "ring_config t = ring_config s \<Longrightarrow> vr_used t = vr_used s" "ring_config t = ring_config s \<Longrightarrow> vr_desc t = vr_desc s"
  by (simp_all add: ring_config_def)

lemma config_ok:
  assumes c: "ring_config t = ring_config s"
  shows "queue_ok t = queue_ok s"
proof -
  have e: "virtio_is_big_endian t = virtio_is_big_endian s"
    using c by (simp add: virtio_is_big_endian_def virtio_vdev_has_feature_def ring_config_def)
  have z: "virtio_queue_get_desc_size t = virtio_queue_get_desc_size s" "virtio_queue_get_avail_size t = virtio_queue_get_avail_size s"
    "virtio_queue_get_used_size t = virtio_queue_get_used_size s"
    by (simp_all add: virtio_queue_get_desc_size_def virtio_queue_get_avail_size_def virtio_queue_get_used_size_def
        config_features [OF c] config_fields [OF c])
  show ?thesis unfolding queue_ok_def caches_fit_def e z config_features [OF c] config_fields [OF c] ..
qed

text \<open>What an operation that only talks to the guest leaves alone: everything but the history, the
  status and the shadow index; nothing is mapped or unmapped.\<close>

definition queue_core :: "VirtQueue \<Rightarrow> _" where
  "queue_core s = (ring_config s, used_elems s, last_avail_idx s, used_idx s, signalled_used s, signalled_used_valid s, inuse s)"

definition quiet :: "VirtQueue \<Rightarrow> VirtQueue \<Rightarrow> bool" where
  "quiet s t \<longleftrightarrow> queue_core t = queue_core s \<and> mapped (dma_hist t) = mapped (dma_hist s) \<and> unmapped (dma_hist t) = unmapped (dma_hist s)"

lemma quiet_refl [simp]: "quiet s s"
  by (simp add: quiet_def)

lemma quiet_trans: "quiet s t \<Longrightarrow> quiet t u \<Longrightarrow> quiet s u"
  by (simp add: quiet_def)

lemma quiet_ok: "quiet s t \<Longrightarrow> queue_ok t = queue_ok s"
  by (rule config_ok) (simp add: quiet_def queue_core_def)

lemma quiet_hist:
  "mapped1 e = {#} \<Longrightarrow> unmapped1 e = {#} \<Longrightarrow> quiet s (s\<lparr>dma_hist := dma_hist s @ [e]\<rparr>)"
  by (simp add: quiet_def queue_core_def ring_config_def)

lemma quiet_shadow: "quiet s (s\<lparr>shadow_avail_idx := v\<rparr>)"
  by (simp add: quiet_def queue_core_def ring_config_def)

lemma quiet_status:
  "quiet s (s\<lparr>vd_status := a\<rparr>)" "quiet s (s\<lparr>vd_isr := b\<rparr>)" "quiet s (s\<lparr>generation := g\<rparr>)" "quiet s (s\<lparr>broken := x\<rparr>)"
  by (simp_all add: quiet_def queue_core_def ring_config_def)

lemma quiet_notify_vector: "quiet s (virtio_notify_vector v s)"
  by (simp add: virtio_notify_vector_def quiet_hist)

lemma quiet_set_isr: "quiet s (virtio_set_isr v s)"
  by (simp add: virtio_set_isr_def quiet_status Let_def)

lemma quiet_notify_config: "quiet s (virtio_notify_config s)"
  unfolding virtio_notify_config_def Let_def
  by (auto intro: quiet_trans [OF quiet_set_isr quiet_trans [OF quiet_status(3) quiet_notify_vector]])

lemma quiet_error: "quiet s (virtio_error s)"
  unfolding virtio_error_def Let_def
  by (rule quiet_trans [OF _ quiet_status(4)]) (auto intro: quiet_trans [OF quiet_status(1) quiet_notify_config])

section \<open>Accesses to the rings\<close>

lemma unat_up: "unat (ucast (x :: u32) :: u64) = unat x"
proof -
  have "unat x < 2 ^ 32" using unsigned_less [of x, where ?'a = nat] by simp
  then show ?thesis by (simp add: unsigned_ucast_eq take_bit_nat_eq_self)
qed

lemma total_big_endian: "queue_ok s \<Longrightarrow> returns (virtio_is_big_endian s) (\<lambda>_. True)"
  by (auto simp: queue_ok_def returns_def)

text \<open>An offset inside a cache that is long enough.\<close>

definition inside :: "u64 \<Rightarrow> nat \<Rightarrow> MemoryRegionCache \<Rightarrow> bool" where
  "inside off n c \<longleftrightarrow> unat off + n \<le> unat (mrc_len c) \<and> 0 < n"

lemma inside_check:
  assumes "inside off n c"
  shows "off < mrc_len c \<and> of_nat n \<le> mrc_len c - off"
proof -
  have "unat (mrc_len c) < 2 ^ 64" by (rule less_le_trans [OF unsigned_less]) simp
  then have n: "unat off + n \<le> unat (mrc_len c)" "0 < n" "n < 2 ^ 64" using assms by (auto simp: inside_def)
  then have l: "off < mrc_len c" by (simp add: word_less_nat_alt)
  then have "unat (mrc_len c - off) = unat (mrc_len c) - unat off" by (intro unat_sub) simp
  moreover have "unat (of_nat n :: u64) = n" using n(3) by (simp add: unsigned_of_nat take_bit_nat_eq_self)
  ultimately show ?thesis using l n(1) by (simp add: word_le_nat_alt)
qed

lemma total_read: "inside off n c \<Longrightarrow> returns (address_space_read_cached G c off n s) (\<lambda>(bs, t). length bs = n \<and> quiet s t)"
  using inside_check [of off n c] by (simp add: address_space_read_cached_def quiet_hist)

lemma total_lduw: "queue_ok s \<Longrightarrow> inside off 2 c \<Longrightarrow> returns (virtio_lduw_phys_cached G c off s) (\<lambda>(v, t). quiet s t)"
  unfolding virtio_lduw_phys_cached_def
  by (rule returns_bind [OF total_big_endian], assumption, rule returns_bind [OF total_read], assumption) auto

lemma total_write: "inside off (length bs) c \<Longrightarrow> returns (address_space_write_cached c off bs s) (\<lambda>t. quiet s t)"
  using inside_check [of off "length bs" c] by (simp add: address_space_write_cached_def quiet_hist)

lemma length_st_bytes [simp]: "length (st_bytes be n v) = n"
proof -
  have "length (le_bytes n v) = n" for n v by (induction n arbitrary: v) simp_all
  then show ?thesis by (simp add: st_bytes_def)
qed

lemma total_stw: "queue_ok s \<Longrightarrow> inside off 2 c \<Longrightarrow> returns (virtio_stw_phys_cached c off v s) (\<lambda>t. quiet s t)"
  unfolding virtio_stw_phys_cached_def
  by (rule returns_bind [OF total_big_endian], assumption, rule total_write) simp

lemma total_invalidate: "mrc_is_write c \<Longrightarrow> returns (address_space_cache_invalidate c s) (\<lambda>t. t = s)"
  by (simp add: address_space_cache_invalidate_def)

text \<open>The caches of a queue hold what its rings need.\<close>

lemma unat_num_bound: "queue_ok s \<Longrightarrow> unat (vr_num s) \<le> 1024 \<and> 0 < unat (vr_num s)"
  by (auto simp: queue_ok_def word_le_nat_alt word_less_nat_alt)

lemma inside_desc:
  assumes "unat i < unat n" "ucast (n :: u32) * sizeof_VRingDesc \<le> mrc_len c" "unat n < 2 ^ 28"
  shows "inside (ucast (i :: u32) * sizeof_VRingDesc) 16 c"
proof -
  have "unat (ucast n * sizeof_VRingDesc :: u64) = unat n * 16" "unat (ucast i * sizeof_VRingDesc :: u64) = unat i * 16"
    using assms(1,3) by (simp_all add: sizeof_VRingDesc_def unat_word_ariths(2) unsigned_ucast_eq take_bit_nat_eq_self)
  with assms(1,2) show ?thesis by (simp add: inside_def word_le_nat_alt)
qed

lemma unat_avail_size:
  assumes "queue_ok s" "\<not> ring_packed s"
  shows "unat (virtio_queue_get_avail_size s) = 4 + 2 * unat (vr_num s) + (if event_idx s then 2 else 0)"
  using unat_num_bound [OF assms(1)] assms(2)
  by (simp add: virtio_queue_get_avail_size_def unat_word_ariths unsigned_ucast_eq take_bit_nat_eq_self)

lemma unat_used_size:
  assumes "queue_ok s" "\<not> ring_packed s"
  shows "unat (virtio_queue_get_used_size s) = 4 + 8 * unat (vr_num s) + (if event_idx s then 2 else 0)"
  using unat_num_bound [OF assms(1)] assms(2)
  by (simp add: virtio_queue_get_used_size_def unat_word_ariths unsigned_ucast_eq take_bit_nat_eq_self)

lemma caches_fitD:
  assumes "queue_ok s" "vr_caches s = Some c"
  shows "ucast (vr_num s) * sizeof_VRingDesc \<le> mrc_len (rc_desc c)" "unat (virtio_queue_get_avail_size s) \<le> unat (mrc_len (rc_avail c))"
    "unat (virtio_queue_get_used_size s) \<le> unat (mrc_len (rc_used c))" "mrc_is_write (rc_used c)" "ring_packed s \<Longrightarrow> mrc_is_write (rc_desc c)"
  using assms by (auto simp: queue_ok_def caches_fit_def word_le_nat_alt virtio_queue_get_desc_size_def mult.commute)

lemma inside_flags:
  assumes "queue_ok s" "vr_caches s = Some c"
  shows "inside 0 2 (rc_avail c)" "inside 2 2 (rc_avail c)" "inside 0 2 (rc_used c)" "inside 2 2 (rc_used c)"
proof -
  have "4 \<le> unat (virtio_queue_get_avail_size s)" "4 \<le> unat (virtio_queue_get_used_size s)"
    using unat_avail_size [OF assms(1)] unat_used_size [OF assms(1)]
    by (cases "ring_packed s"; simp add: virtio_queue_get_avail_size_def virtio_queue_get_used_size_def)+
  with caches_fitD(2,3) [OF assms] show "inside 0 2 (rc_avail c)" "inside 2 2 (rc_avail c)" "inside 0 2 (rc_used c)" "inside 2 2 (rc_used c)"
    by (simp_all add: inside_def)
qed

lemma unat_offset: "unat (i :: u32) \<le> 1024 \<Longrightarrow> k \<le> 8 \<Longrightarrow> unat (4 + of_nat k * ucast i :: u64) = 4 + k * unat i"
proof -
  assume i: "unat i \<le> 1024" "k \<le> 8"
  have "k * unat i \<le> 8 * 1024" using i by (intro mult_le_mono)
  with i show ?thesis by (simp add: unat_word_ariths unsigned_ucast_eq take_bit_nat_eq_self unsigned_of_nat)
qed

lemma inside_rings:
  assumes "queue_ok s" "vr_caches s = Some c" "\<not> ring_packed s"
  shows "unat i < unat (vr_num s) \<or> event_idx s \<and> i = vr_num s \<Longrightarrow> inside (4 + 2 * ucast i) 2 (rc_avail c)"
    "unat i < unat (vr_num s) \<Longrightarrow> inside (4 + 8 * ucast i) 8 (rc_used c)"
    "event_idx s \<Longrightarrow> inside (4 + 8 * ucast (vr_num s)) 2 (rc_used c)"
  using caches_fitD(2,3) [OF assms(1,2)] unat_avail_size [OF assms(1,3)] unat_used_size [OF assms(1,3)] unat_num_bound [OF assms(1)]
    unat_offset [of i 2] unat_offset [of i 8] unat_offset [of "vr_num s" 8]
  by (auto simp: inside_def)

lemma total_umod: "n \<noteq> 0 \<Longrightarrow> returns (umod x n) (\<lambda>i. i = x mod n \<and> unat i < unat n)"
  by (simp add: umod_def unat_mod_distrib word_neq_0_conv unat_gt_0)

text \<open>Each access, for a split ring.\<close>

lemma total_avail_idx: "queue_ok s \<Longrightarrow> returns (vring_avail_idx G s) (\<lambda>(v, t). quiet s t)"
proof (cases "vr_caches s")
  case (Some c)
  assume ok: "queue_ok s"
  show ?thesis unfolding vring_avail_idx_def Some option.case
    by (rule returns_bind [OF total_lduw [OF ok inside_flags(2) [OF ok Some]]]) (auto intro: quiet_trans [OF _ quiet_shadow])
qed (simp add: vring_avail_idx_def)

lemma total_avail_flags: "queue_ok s \<Longrightarrow> returns (vring_avail_flags G s) (\<lambda>(v, t). quiet s t)"
  using total_lduw [of s 0 _ G] inside_flags(1) [of s] by (cases "vr_caches s") (auto simp: vring_avail_flags_def)

lemma total_avail_ring:
  "queue_ok s \<Longrightarrow> \<not> ring_packed s \<Longrightarrow> unat i < unat (vr_num s) \<or> event_idx s \<and> i = vr_num s \<Longrightarrow> returns (vring_avail_ring G i s) (\<lambda>(v, t). quiet s t)"
  using total_lduw [of s "4 + 2 * ucast i" _ G] inside_rings(1) [of s _ i] by (cases "vr_caches s") (auto simp: vring_avail_ring_def)

lemma total_used_write:
  assumes "queue_ok s" "\<not> ring_packed s" "unat i < unat (vr_num s)"
  shows "returns (vring_used_write eid elen i s) (\<lambda>t. quiet s t)"
proof (cases "vr_caches s")
  case (Some c)
  have w: "inside (4 + 8 * ucast i) (length (st_bytes be 4 (unat eid) @ st_bytes be 4 (unat elen))) (rc_used c)" for be
    using inside_rings(2) [OF assms(1) Some assms(2,3)] by simp
  show ?thesis unfolding vring_used_write_def Some option.case
    by (rule returns_bind [OF total_big_endian [OF assms(1)]], rule returns_bind [OF total_write [OF w]],
        rule returns_mono [OF total_invalidate [OF caches_fitD(4) [OF assms(1) Some]]]) simp
qed (simp add: vring_used_write_def)

lemma total_used_stw:
  assumes "queue_ok s" "vr_caches s = Some c" "inside off 2 (rc_used c)" "quiet s t"
  shows "returns (do { u \<leftarrow> virtio_stw_phys_cached (rc_used c) off v t; address_space_cache_invalidate (rc_used c) u }) (\<lambda>u. quiet s u)"
proof -
  have "queue_ok t" using quiet_ok [OF assms(4)] assms(1) by simp
  then show ?thesis
    by (rule returns_bind [OF total_stw [OF _ assms(3)]])
      (rule returns_mono [OF total_invalidate [OF caches_fitD(4) [OF assms(1,2)]]], use assms(4) in \<open>auto intro: quiet_trans\<close>)
qed

lemma total_set_avail_event:
  "queue_ok s \<Longrightarrow> \<not> ring_packed s \<Longrightarrow> event_idx s \<Longrightarrow> returns (vring_set_avail_event v s) (\<lambda>t. quiet s t)"
  using total_used_stw [of s _ "4 + 8 * ucast (vr_num s)" s v] inside_rings(3) [of s]
  by (cases "vr_caches s") (auto simp: vring_set_avail_event_def)

section \<open>Reading descriptors\<close>

lemma total_get_head:
  assumes "queue_ok s" "\<not> ring_packed s"
  shows "returns (virtqueue_get_head G idx s) (\<lambda>(h, t). quiet s t \<and> (\<forall>x. h = Some x \<longrightarrow> unat x < unat (vr_num s)))"
proof -
  have n: "vr_num s \<noteq> 0" using assms(1) by (auto simp: queue_ok_def)
  from total_umod [OF this] obtain i where i: "umod idx (vr_num s) = Some i" "unat i < unat (vr_num s)" by (rule returnsE) auto
  from total_avail_ring [OF assms, of i G] i(2) obtain v t where t: "vring_avail_ring G i s = Some (v, t)" "quiet s t"
    by (auto elim!: returnsE)
  have "vr_num t = vr_num s" using t(2) by (simp add: quiet_def queue_core_def ring_config_def)
  then show ?thesis using i(1) t quiet_trans [OF t(2) quiet_error]
    by (auto simp: virtqueue_get_head_def word_less_nat_alt not_le)
qed

lemma total_desc_read:
  assumes "queue_ok s" "inside (ucast i * sizeof_VRingDesc) 16 c"
  shows "returns (vring_split_desc_read G c i s) (\<lambda>(d, t). quiet s t)"
proof -
  from total_read [OF assms(2), of G s] obtain bs t where t: "address_space_read_cached G c (ucast i * sizeof_VRingDesc) 16 s = Some (bs, t)" "quiet s t"
    by (auto elim!: returnsE)
  then obtain be where "virtio_is_big_endian t = Some be" using assms(1) quiet_ok [OF t(2)] by (auto simp: queue_ok_def)
  with t show ?thesis by (simp add: vring_split_desc_read_def)
qed

text \<open>A table of \<open>maxd\<close> descriptors that its cache covers.\<close>

definition table_ok :: "u32 \<Rightarrow> MemoryRegionCache \<Rightarrow> bool" where
  "table_ok maxd c \<longleftrightarrow> 0 < maxd \<and> unat maxd < 2 ^ 28 \<and> (\<forall>i. unat i < unat maxd \<longrightarrow> inside (ucast (i :: u32) * sizeof_VRingDesc) 16 c)"

lemma table_okI: "0 < maxd \<Longrightarrow> unat maxd < 2 ^ 28 \<Longrightarrow> ucast maxd * sizeof_VRingDesc \<le> mrc_len c \<Longrightarrow> table_ok maxd c"
  using inside_desc [of _ maxd c] by (simp add: table_ok_def)

lemma ring_table: "queue_ok s \<Longrightarrow> vr_caches s = Some c \<Longrightarrow> table_ok (vr_num s) (rc_desc c)"
  using caches_fitD(1) [of s c] unat_num_bound [of s] by (intro table_okI) (auto simp: queue_ok_def)

lemma total_read_next:
  assumes "queue_ok s" "table_ok maxd c"
  shows "returns (virtqueue_split_read_next_desc G d c maxd s) (\<lambda>(rc, d, t). quiet s t)"
proof (cases "vd_flags d AND VRING_DESC_F_NEXT = 0 \<or> maxd \<le> ucast (vd_next d)")
  case True
  then show ?thesis using quiet_error [of s] by (auto simp: virtqueue_split_read_next_desc_def)
next
  case False
  then have "unat (ucast (vd_next d) :: u32) < unat maxd" by (simp add: not_le word_less_nat_alt)
  then have "inside (ucast (ucast (vd_next d) :: u32) * sizeof_VRingDesc) 16 c" using assms(2) by (simp add: table_ok_def)
  from total_desc_read [OF assms(1) this, of G] False show ?thesis
    by (auto simp: virtqueue_split_read_next_desc_def elim!: returnsE)
qed

section \<open>Mapping buffers\<close>

definition maps :: "VirtQueue \<Rightarrow> seg multiset \<Rightarrow> VirtQueue \<Rightarrow> bool" where
  "maps s m t \<longleftrightarrow> queue_core t = queue_core s \<and> mapped (dma_hist t) = mapped (dma_hist s) + m \<and> unmapped (dma_hist t) = unmapped (dma_hist s)"

lemma maps_quiet: "quiet s t \<longleftrightarrow> maps s {#} t"
  by (simp add: quiet_def maps_def)

lemma maps_trans: "maps s m t \<Longrightarrow> maps t n u \<Longrightarrow> maps s (m + n) u"
  by (simp add: maps_def)

lemma maps_trans_quiet: "maps s m t \<Longrightarrow> quiet t u \<Longrightarrow> maps s m u"
  using maps_trans [of s m t "{#}" u] by (simp add: maps_quiet)

lemma maps_ok: "maps s m t \<Longrightarrow> queue_ok t = queue_ok s"
  by (rule config_ok) (simp add: maps_def queue_core_def)

lemma maps_map: "maps s (mapped1 (DmaMap pa base len w)) (s\<lparr>dma_hist := dma_hist s @ [DmaMap pa base len w]\<rparr>)"
  by (simp add: maps_def queue_core_def ring_config_def)

lemma total_map_desc_loop:
  assumes "num \<le> max_num" "length iov + (max_num - num) \<le> VIRTQUEUE_MAX_SIZE"
  shows "returns (map_desc_loop G max_num w pa sz num iov s)
    (\<lambda>(ok, num', iov', t). \<exists>vs. iov' = iov @ vs \<and> num' = num + length vs \<and> num' \<le> max_num \<and> maps s (sg_segs w vs) t \<and> (ok \<and> sz \<noteq> 0 \<longrightarrow> vs \<noteq> []))"
  using assms
proof (induction "max_num - num" arbitrary: num iov pa sz s)
  case 0
  then show ?case
    using quiet_error [of s] by (subst map_desc_loop.simps) (simp add: maps_quiet [symmetric])
next
  case (Suc k)
  obtain base len where m: "gm_map G (dma_hist s) pa sz w = (base, len)" by (cases "gm_map G (dma_hist s) pa sz w")
  define t where "t = s\<lparr>dma_hist := dma_hist s @ [DmaMap pa base len w]\<rparr>"
  define v where "v = \<lparr>iov_addr = pa, iov_base = base, iov_len = len\<rparr>"
  have st: "maps s (mapped1 (DmaMap pa base len w)) t" unfolding t_def by (rule maps_map)
  have put: "put_seg v iov = Some (iov @ [v])" using Suc.hyps(2) Suc.prems by (simp add: put_seg_def)
  show ?case
  proof (cases "sz = 0 \<or> base = 0")
    case True
    then show ?thesis using m Suc.hyps(2) maps_trans_quiet [OF st quiet_error]
      by (subst map_desc_loop.simps) (auto simp: maps_quiet [symmetric] t_def)
  next
    case False
    have "returns (map_desc_loop G max_num w (pa + len) (sz - len) (Suc num) (iov @ [v]) t)
      (\<lambda>(ok, num', iov', u). \<exists>vs. iov' = (iov @ [v]) @ vs \<and> num' = Suc num + length vs \<and> num' \<le> max_num \<and> maps t (sg_segs w vs) u \<and> (ok \<and> sz - len \<noteq> 0 \<longrightarrow> vs \<noteq> []))"
      using Suc.hyps(2) Suc.prems by (intro Suc.hyps(1)) auto
    then obtain ok num' vs u where r: "map_desc_loop G max_num w (pa + len) (sz - len) (Suc num) (iov @ [v]) t = Some (ok, num', (iov @ [v]) @ vs, u)"
      "num' = Suc num + length vs" "num' \<le> max_num" "maps t (sg_segs w vs) u"
      by (auto elim!: returnsE)
    have "maps s (sg_segs w (v # vs)) u" using maps_trans [OF st r(4)] False by (simp add: v_def)
    then show ?thesis
      using m False Suc.hyps(2) put r unfolding v_def t_def
      by (subst map_desc_loop.simps) (auto intro!: exI [of _ "v # vs"] simp: v_def)
  qed
qed

text \<open>The segments collected so far: \<open>out_num\<close> the device reads, then \<open>in_num\<close> it writes.\<close>

definition bufs_ok :: "nat \<Rightarrow> nat \<Rightarrow> iovec list \<Rightarrow> bool" where
  "bufs_ok out_num in_num iov \<longleftrightarrow> length iov = out_num + in_num \<and> out_num + in_num \<le> VIRTQUEUE_MAX_SIZE"

definition bufs_segs :: "nat \<Rightarrow> iovec list \<Rightarrow> seg multiset" where
  "bufs_segs out_num iov = sg_segs False (take out_num iov) + sg_segs True (drop out_num iov)"

definition mapped_more :: "VirtQueue \<Rightarrow> nat \<Rightarrow> iovec list \<Rightarrow> nat \<Rightarrow> iovec list \<Rightarrow> VirtQueue \<Rightarrow> bool" where
  "mapped_more s out_num iov out_num' iov' t \<longleftrightarrow> (\<exists>m. maps s m t \<and> bufs_segs out_num' iov' = bufs_segs out_num iov + m)"

lemma mapped_more_quiet: "quiet s t \<Longrightarrow> mapped_more s out_num iov out_num iov t"
  by (auto simp: mapped_more_def maps_quiet)

lemma mapped_more_trans:
  assumes "mapped_more s o1 v1 o2 v2 t" "mapped_more t o2 v2 o3 v3 u"
  shows "mapped_more s o1 v1 o3 v3 u"
proof -
  obtain m n where "maps s m t" "bufs_segs o2 v2 = bufs_segs o1 v1 + m" "maps t n u" "bufs_segs o3 v3 = bufs_segs o2 v2 + n"
    using assms by (auto simp: mapped_more_def)
  then show ?thesis unfolding mapped_more_def by (intro exI [of _ "m + n"]) (simp add: maps_trans)
qed

lemma mapped_more_ok: "mapped_more s o1 v1 o2 v2 t \<Longrightarrow> queue_ok t = queue_ok s"
  by (auto simp: mapped_more_def maps_ok)

lemma total_map_desc:
  assumes "num \<le> max_num" "length iov + (max_num - num) \<le> VIRTQUEUE_MAX_SIZE"
  shows "returns (virtqueue_map_desc G max_num w pa sz num iov s)
    (\<lambda>(ok, num', iov', t). \<exists>vs. iov' = iov @ vs \<and> num' = num + length vs \<and> num' \<le> max_num \<and> maps s (sg_segs w vs) t \<and> (ok \<longrightarrow> vs \<noteq> []))"
proof (cases "sz = 0")
  case True
  then show ?thesis using assms(1) quiet_error [of s] by (simp add: virtqueue_map_desc_def maps_quiet [symmetric])
next
  case False
  then show ?thesis using returns_mono [OF total_map_desc_loop [OF assms, of G w pa sz s]] assms(1)
    by (auto simp: virtqueue_map_desc_def elim!: returnsE)
qed

lemma total_map_buffer:
  assumes "bufs_ok out_num in_num iov"
  shows "returns (map_buffer G flags pa len out_num in_num iov s)
    (\<lambda>(ok, out_num', in_num', iov', t). bufs_ok out_num' in_num' iov' \<and> mapped_more s out_num iov out_num' iov' t \<and> (ok \<longrightarrow> out_num + in_num < out_num' + in_num'))"
proof (cases "flags AND VRING_DESC_F_WRITE \<noteq> 0")
  case True
  have "returns (virtqueue_map_desc G (VIRTQUEUE_MAX_SIZE - out_num) True pa (ucast len) in_num iov s)
    (\<lambda>(ok, num', iov', t). \<exists>vs. iov' = iov @ vs \<and> num' = in_num + length vs \<and> num' \<le> VIRTQUEUE_MAX_SIZE - out_num \<and> maps s (sg_segs True vs) t \<and> (ok \<longrightarrow> vs \<noteq> []))"
    using assms by (intro total_map_desc) (auto simp: bufs_ok_def)
  then obtain ok vs t where r: "virtqueue_map_desc G (VIRTQUEUE_MAX_SIZE - out_num) True pa (ucast len) in_num iov s = Some (ok, in_num + length vs, iov @ vs, t)"
    "in_num + length vs \<le> VIRTQUEUE_MAX_SIZE - out_num" "maps s (sg_segs True vs) t" "ok \<longrightarrow> vs \<noteq> []"
    by (auto elim!: returnsE)
  have "bufs_segs out_num (iov @ vs) = bufs_segs out_num iov + sg_segs True vs"
    using assms by (simp add: bufs_segs_def bufs_ok_def)
  with r True assms show ?thesis by (auto simp: map_buffer_def bufs_ok_def mapped_more_def)
next
  case F: False
  show ?thesis
  proof (cases "in_num = 0")
    case True
    have "returns (virtqueue_map_desc G VIRTQUEUE_MAX_SIZE False pa (ucast len) out_num iov s)
      (\<lambda>(ok, num', iov', t). \<exists>vs. iov' = iov @ vs \<and> num' = out_num + length vs \<and> num' \<le> VIRTQUEUE_MAX_SIZE \<and> maps s (sg_segs False vs) t \<and> (ok \<longrightarrow> vs \<noteq> []))"
      using assms True by (intro total_map_desc) (auto simp: bufs_ok_def)
    then obtain ok vs t where r: "virtqueue_map_desc G VIRTQUEUE_MAX_SIZE False pa (ucast len) out_num iov s = Some (ok, out_num + length vs, iov @ vs, t)"
      "out_num + length vs \<le> VIRTQUEUE_MAX_SIZE" "maps s (sg_segs False vs) t" "ok \<longrightarrow> vs \<noteq> []"
      by (auto elim!: returnsE)
    have "bufs_segs (out_num + length vs) (iov @ vs) = bufs_segs out_num iov + sg_segs False vs"
      using assms True by (simp add: bufs_segs_def bufs_ok_def)
    with r F True assms show ?thesis by (auto simp: map_buffer_def bufs_ok_def mapped_more_def)
  next
    case False
    with F assms show ?thesis by (simp add: map_buffer_def mapped_more_quiet [OF quiet_error])
  qed
qed

lemma total_split_pop_loop:
  assumes "queue_ok s" "table_ok maxd c" "bufs_ok out_num in_num iov"
  shows "returns (split_pop_loop G d c maxd out_num in_num entries iov s)
    (\<lambda>(ok, out_num', in_num', iov', t). bufs_ok out_num' in_num' iov' \<and> mapped_more s out_num iov out_num' iov' t \<and> (ok \<longrightarrow> 0 < out_num' + in_num'))"
  using assms
proof (induction "VIRTQUEUE_MAX_SIZE - (out_num + in_num)" arbitrary: out_num in_num iov d entries s rule: less_induct)
  case less
  obtain ok o1 i1 v1 t where r: "map_buffer G (vd_flags d) (vd_addr d) (vd_len d) out_num in_num iov s = Some (ok, o1, i1, v1, t)"
    "bufs_ok o1 i1 v1" "mapped_more s out_num iov o1 v1 t" "ok \<longrightarrow> out_num + in_num < o1 + i1"
    using total_map_buffer [OF less.prems(3), of G "vd_flags d" "vd_addr d" "vd_len d" s] by (auto elim!: returnsE)
  show ?case
  proof (cases "\<not> ok \<or> maxd < entries + 1")
    case True
    then show ?thesis using r mapped_more_trans [OF r(3) mapped_more_quiet [OF quiet_error]]
      by (subst split_pop_loop.simps) auto
  next
    case False
    have ok: "queue_ok t" using mapped_more_ok [OF r(3)] less.prems(1) by simp
    from total_read_next [OF this less.prems(2), of G d] obtain rc d' u where n: "virtqueue_split_read_next_desc G d c maxd t = Some (rc, d', u)" "quiet t u"
      by (auto elim!: returnsE)
    have m: "mapped_more s out_num iov o1 v1 u" using mapped_more_trans [OF r(3) mapped_more_quiet [OF n(2)]] .
    have "returns (split_pop_loop G d' c maxd o1 i1 (entries + 1) v1 u)
      (\<lambda>(ok, out_num', in_num', iov', t). bufs_ok out_num' in_num' iov' \<and> mapped_more u o1 v1 out_num' iov' t \<and> (ok \<longrightarrow> 0 < out_num' + in_num'))"
      using r(2,4) False ok quiet_ok [OF n(2)] less.prems(2) by (intro less.hyps) (auto simp: bufs_ok_def)
    then obtain ok' o2 i2 v2 w where l: "split_pop_loop G d' c maxd o1 i1 (entries + 1) v1 u = Some (ok', o2, i2, v2, w)"
      "bufs_ok o2 i2 v2" "mapped_more u o1 v1 o2 v2 w" "ok' \<longrightarrow> 0 < o2 + i2" by (auto elim!: returnsE)
    show ?thesis
      using r False n m l mapped_more_trans [OF m l(3)] by (subst split_pop_loop.simps) auto
  qed
qed

text \<open>An indirect table whose length is a positive multiple of 16, mapped as far as the memory core allows.\<close>

lemma indirect_table:
  assumes "queue_ok t" "\<not> (vd_len d = 0 \<or> vd_len d mod 16 \<noteq> 0)"
  obtains l ic u where "address_space_cache_init G (vd_addr d) (ucast (vd_len d)) False t = Some (l, ic, u)" "quiet t u"
    "l < ucast (vd_len d) \<or> table_ok (vd_len d div 16) ic \<and> (\<exists>d' w. vring_split_desc_read G ic 0 u = Some (d', w) \<and> quiet u w)"
proof -
  define l where "l = gm_cache G (dma_hist t) (vd_addr d) (ucast (vd_len d)) False"
  define u where "u = t\<lparr>dma_hist := dma_hist t @ [CacheInit (vd_addr d) (ucast (vd_len d)) False]\<rparr>"
  define ic where "ic = \<lparr>mrc_addr = vd_addr d, mrc_len = l, mrc_is_write = False\<rparr>"
  have nz: "ucast (vd_len d) \<noteq> (0 :: u64)" using assms(2) by (auto simp: word_unat_eq_iff unat_up)
  have init: "address_space_cache_init G (vd_addr d) (ucast (vd_len d)) False t = Some (l, ic, u)"
    using nz by (simp add: address_space_cache_init_def l_def u_def ic_def Let_def)
  have u: "quiet t u" unfolding u_def by (rule quiet_hist) simp_all
  have "table_ok (vd_len d div 16) ic \<and> (\<exists>d' w. vring_split_desc_read G ic 0 u = Some (d', w) \<and> quiet u w)" if l: "\<not> l < ucast (vd_len d)"
  proof -
    have "unat (vd_len d mod 16) = 0" "vd_len d \<noteq> 0" using assms(2) by auto
    then have z: "unat (vd_len d) mod 16 = 0" "0 < unat (vd_len d)" by (simp_all add: unat_mod_distrib unat_gt_0)
    have less: "unat (vd_len d) < 2 ^ 32" using unsigned_less [of "vd_len d", where ?'a = nat] by simp
    have dv: "unat (vd_len d div 16) = unat (vd_len d) div 16" by (simp add: unat_div_distrib)
    have m: "0 < unat (vd_len d div 16)" "unat (vd_len d div 16) < 2 ^ 28" "unat (vd_len d div 16) * 16 = unat (vd_len d)"
      using z less unfolding dv by auto
    have "unat (ucast (vd_len d div 16) * sizeof_VRingDesc :: u64) = unat (ucast (vd_len d) :: u64)"
      using m(2,3) by (simp add: unat_word_ariths(2) sizeof_VRingDesc_def unat_up)
    then have "ucast (vd_len d div 16) * sizeof_VRingDesc = (ucast (vd_len d) :: u64)" by (simp only: word_unat_eq_iff)
    then have tab: "table_ok (vd_len d div 16) ic"
      using m l by (intro table_okI) (auto simp: ic_def word_less_nat_alt word_le_nat_alt not_less)
    then have "inside (ucast (0 :: u32) * sizeof_VRingDesc) 16 ic" using m(1) unfolding table_ok_def by (metis unsigned_0)
    from total_desc_read [OF _ this, of u G] quiet_ok [OF u] assms(1) tab show ?thesis by (auto elim!: returnsE)
  qed
  with init u that show thesis by blast
qed

lemma total_split_pop_table:
  assumes "queue_ok s" "vr_caches s = Some c" "unat head < unat (vr_num s)"
  shows "returns (split_pop_table G head c s) (\<lambda>(r, t). quiet s t \<and> (\<forall>d dc maxd. r = Some (d, dc, maxd) \<longrightarrow> table_ok maxd dc))"
proof -
  note ring = ring_table [OF assms(1,2)]
  from total_desc_read [OF assms(1), of head "rc_desc c" G] obtain d t where d: "vring_split_desc_read G (rc_desc c) head s = Some (d, t)" "quiet s t"
    using ring assms(3) by (auto simp: table_ok_def elim!: returnsE)
  have num: "vr_num t = vr_num s" using d(2) by (simp add: quiet_def queue_core_def ring_config_def)
  have ok: "queue_ok t" using quiet_ok [OF d(2)] assms(1) by simp
  show ?thesis
  proof (cases "vd_flags d AND VRING_DESC_F_INDIRECT = 0")
    case True
    then show ?thesis using d ring num by (simp add: split_pop_table_def)
  next
    case ind: False
    note table = split_pop_table_def d(1) Option.bind.bind_lunit prod.case if_not_P [OF ind]
    show ?thesis
    proof (cases "vd_len d = 0 \<or> vd_len d mod 16 \<noteq> 0")
      case True
      show ?thesis using quiet_trans [OF d(2) quiet_error] unfolding table if_P [OF True] by simp
    next
      case False
      from indirect_table [OF ok False, of G] obtain l ic u where u:
        "address_space_cache_init G (vd_addr d) (ucast (vd_len d)) False t = Some (l, ic, u)" "quiet t u"
        "l < ucast (vd_len d) \<or> table_ok (vd_len d div 16) ic \<and> (\<exists>d' w. vring_split_desc_read G ic 0 u = Some (d', w) \<and> quiet u w)" .
      have su: "quiet s u" using quiet_trans [OF d(2) u(2)] .
      show ?thesis using u(3) quiet_trans [OF su quiet_error] quiet_trans [OF su] unfolding table if_not_P [OF False] u(1)
        by (cases "l < ucast (vd_len d)") (auto simp: Let_def)
    qed
  qed
qed

lemma total_empty_rcu: "queue_ok s \<Longrightarrow> returns (virtio_queue_empty_rcu G s) (\<lambda>(e, t). quiet s t)"
  using total_avail_idx [of s G] by (auto simp: virtio_queue_empty_rcu_def elim!: returnsE)

lemma undo_maps:
  assumes "bufs_ok out_num in_num iov"
  shows "unmapped (dma_hist (virtqueue_undo_map_desc out_num in_num iov s)) = unmapped (dma_hist s) + bufs_segs out_num iov"
    "mapped (dma_hist (virtqueue_undo_map_desc out_num in_num iov s)) = mapped (dma_hist s)"
    "queue_core (virtqueue_undo_map_desc out_num in_num iov s) = queue_core s"
proof -
  have len: "length iov = out_num + in_num" using assms by (simp add: bufs_ok_def)
  let ?f = "\<lambda>i. (iov_base (iov ! i), iov_len (iov ! i), out_num \<le> i)"
  have split: "[0..<out_num + in_num] = [0..<out_num] @ [out_num..<out_num + in_num]" using upt_add_eq_append [of 0 out_num in_num] by simp
  have "map ?f [0..<out_num] = map (\<lambda>v. (iov_base v, iov_len v, False)) (take out_num iov)"
    using len by (auto intro!: nth_equalityI)
  moreover have "map ?f [out_num..<out_num + in_num] = map (\<lambda>v. (iov_base v, iov_len v, True)) (drop out_num iov)"
    using len by (auto intro!: nth_equalityI)
  ultimately have "mset (map ?f [0..<out_num + in_num]) = bufs_segs out_num iov"
    unfolding split by (simp add: bufs_segs_def sg_segs_def)
  moreover have "unmapped (map (\<lambda>i. DmaUnmap (iov_base (iov ! i)) (iov_len (iov ! i)) (out_num \<le> i) 0) xs) = mset (map ?f xs)"
    "mapped (map (\<lambda>i. DmaUnmap (iov_base (iov ! i)) (iov_len (iov ! i)) (out_num \<le> i) 0) xs) = {#}" for xs
    by (induction xs) simp_all
  ultimately show "unmapped (dma_hist (virtqueue_undo_map_desc out_num in_num iov s)) = unmapped (dma_hist s) + bufs_segs out_num iov"
    "mapped (dma_hist (virtqueue_undo_map_desc out_num in_num iov s)) = mapped (dma_hist s)"
    by (simp_all add: virtqueue_undo_map_desc_def)
qed (simp add: virtqueue_undo_map_desc_def queue_core_def ring_config_def)

section \<open>Taking an element off a split ring\<close>

text \<open>
  What \<open>virtqueue_pop()\<close> leaves alone, and the account of the segments it mapped: none are left mapped
  when it returns no element, and exactly those of the element otherwise.
\<close>

definition pop_frame :: "VirtQueue \<Rightarrow> VirtQueue \<Rightarrow> bool" where
  "pop_frame s t \<longleftrightarrow> ring_config t = ring_config s \<and> length (used_elems t) = length (used_elems s) \<and> used_idx t = used_idx s \<and>
     signalled_used t = signalled_used s \<and> signalled_used_valid t = signalled_used_valid s"

definition elem_ok :: "VirtQueue \<Rightarrow> VirtQueueElement \<Rightarrow> bool" where
  "elem_ok s e \<longleftrightarrow> unat (ve_index e) < unat (vr_num s) \<and> ve_ndescs e = 1 \<and> 0 < length (out_sg e) + length (in_sg e) \<and>
     length (out_sg e) + length (in_sg e) \<le> VIRTQUEUE_MAX_SIZE"

definition popped :: "VirtQueue \<Rightarrow> VirtQueueElement option \<times> VirtQueue \<Rightarrow> bool" where
  "popped s r \<longleftrightarrow> (case r of
     (None, t) \<Rightarrow> pop_frame s t \<and> inuse t = inuse s \<and>
       (\<exists>m. mapped (dma_hist t) = mapped (dma_hist s) + m \<and> unmapped (dma_hist t) = unmapped (dma_hist s) + m)
   | (Some e, t) \<Rightarrow> pop_frame s t \<and> elem_ok s e \<and> inuse s < vr_num s \<and> inuse t = inuse s + 1 \<and>
       mapped (dma_hist t) = mapped (dma_hist s) + elem_segs e \<and> unmapped (dma_hist t) = unmapped (dma_hist s))"

lemma core_frame: "queue_core t = queue_core s \<Longrightarrow> pop_frame s t"
  by (simp add: queue_core_def pop_frame_def)

lemma quiet_popped: "quiet s t \<Longrightarrow> popped s (None, t)"
  by (auto simp: popped_def quiet_def core_frame queue_core_def)

lemma total_set_used_elem:
  assumes "unat i < length (used_elems s)"
  shows "returns (set_used_elem i f s) (\<lambda>t. \<exists>es. t = s\<lparr>used_elems := es\<rparr> \<and> length es = length (used_elems s))"
proof -
  have "int (unat i) < int (length (used_elems s))" using assms by (simp only: of_nat_less_iff)
  then show ?thesis by (auto simp: set_used_elem_def aget_def aset_def)
qed

lemma total_split_pop_chain:
  assumes ok: "queue_ok s" "in_order s \<Longrightarrow> unat (vr_num s) \<le> length (used_elems s)" and c: "vr_caches s = Some c"
    and head: "unat head < unat (vr_num s)" and room: "inuse s < vr_num s"
  shows "returns (split_pop_chain G head c s) (popped s)"
proof -
  from total_split_pop_table [OF ok(1) c head, of G] obtain tab u where u: "split_pop_table G head c s = Some (tab, u)" "quiet s u"
    "\<And>d dc maxd. tab = Some (d, dc, maxd) \<Longrightarrow> table_ok maxd dc" by (auto elim!: returnsE)
  show ?thesis
  proof (cases tab)
    case None
    with u show ?thesis using quiet_popped [OF u(2)] by (simp add: split_pop_chain_def)
  next
    case (Some q)
    then obtain d dc maxd where q: "tab = Some (d, dc, maxd)" using prod_cases3 [of q] by blast
    have "queue_ok u" using quiet_ok [OF u(2)] ok(1) by simp
    from total_split_pop_loop [OF this u(3) [OF q], of 0 0 "[]" G d 0] obtain r o1 i1 v1 w where
      w: "split_pop_loop G d dc maxd 0 0 0 [] u = Some (r, o1, i1, v1, w)" "bufs_ok o1 i1 v1" "mapped_more u 0 [] o1 v1 w" "r \<longrightarrow> 0 < o1 + i1"
      by (auto simp: bufs_ok_def elim!: returnsE)
    have m: "queue_core w = queue_core s" "mapped (dma_hist w) = mapped (dma_hist s) + bufs_segs o1 v1" "unmapped (dma_hist w) = unmapped (dma_hist s)"
      using w(3) u(2) by (auto simp: mapped_more_def maps_def quiet_def bufs_segs_def)
    show ?thesis
    proof (cases r)
      case False
      have "popped s (None, virtqueue_undo_map_desc o1 i1 v1 w)"
        using m undo_maps [OF w(2), of w] core_frame [of "virtqueue_undo_map_desc o1 i1 v1 w" s] by (auto simp: popped_def queue_core_def)
      with False q u w show ?thesis by (simp add: split_pop_chain_def)
    next
      case True
      let ?e = "virtqueue_alloc_element G o1 i1 v1 head 1 w"
      have fr: "ring_config w = ring_config s" "used_elems w = used_elems s" "inuse w = inuse s" using m(1) by (simp_all add: queue_core_def)
      have e: "elem_ok s ?e" "elem_segs ?e = bufs_segs o1 v1"
        using w(2,4) True head by (simp_all add: elem_ok_def elem_segs_def bufs_segs_def virtqueue_alloc_element_def bufs_ok_def)
      have n: "vr_num s \<noteq> 0" using ok(1) by (auto simp: queue_ok_def)
      obtain x where x: "(if in_order w then do {
          i \<leftarrow> umod (ucast (last_avail_idx w) - 1) (vr_num w);
          set_used_elem i (\<lambda>e. e\<lparr>ve_index := ve_index ?e, ve_len := ve_len ?e, ve_ndescs := ve_ndescs ?e\<rparr>) w
        } else Some w) = Some x" "\<exists>es. x = w\<lparr>used_elems := es\<rparr> \<and> length es = length (used_elems w)"
      proof (cases "in_order w")
        case True
        then have "unat (vr_num w) \<le> length (used_elems w)" using ok(2) fr config_features [OF fr(1)] config_fields [OF fr(1)] by simp
        then obtain i where i: "umod (ucast (last_avail_idx w) - 1) (vr_num w) = Some i" "unat i < length (used_elems w)"
          using total_umod [OF n, of "ucast (last_avail_idx w) - 1"] config_fields(1) [OF fr(1)] by (auto elim!: returnsE)
        from total_set_used_elem [OF this(2), of "\<lambda>e. e\<lparr>ve_index := ve_index ?e, ve_len := ve_len ?e, ve_ndescs := ve_ndescs ?e\<rparr>"]
        show ?thesis by (rule returnsE) (rule that, use True i in simp_all)
      next
        case False
        then show ?thesis by (intro that [of w]) (auto intro: exI [of _ "used_elems w"])
      qed
      then have p: "popped s (Some ?e, x\<lparr>inuse := inuse x + 1\<rparr>)"
        using m(2,3) e room fr core_frame [OF m(1)] unfolding popped_def pop_frame_def by (auto simp: ring_config_def)
      have nr: "\<not> \<not> r" using True by simp
      show ?thesis
        unfolding split_pop_chain_def u(1) q Option.bind.bind_lunit prod.case option.case w(1) Let_def if_not_P [OF nr] x(1) returns_Some by (rule p)
    qed
  qed
qed

lemma popped_quiet:
  assumes "pop_frame s t" "inuse t = inuse s" "mapped (dma_hist t) = mapped (dma_hist s)" "unmapped (dma_hist t) = unmapped (dma_hist s)" "popped t r"
  shows "popped s r"
proof -
  obtain e u where r: "r = (e, u)" by (cases r)
  have c: "ring_config t = ring_config s" using assms(1) by (simp add: pop_frame_def)
  have "elem_ok t x = elem_ok s x" for x by (simp add: elem_ok_def config_fields [OF c])
  then show ?thesis using assms config_fields [OF c] by (cases e) (auto simp: r popped_def pop_frame_def)
qed

lemma total_split_pop:
  assumes "queue_ok s" "\<not> ring_packed s" "in_order s \<Longrightarrow> unat (vr_num s) \<le> length (used_elems s)"
  shows "returns (virtqueue_split_pop G s) (popped s)"
proof -
  from total_empty_rcu [OF assms(1), of G] obtain e t where t: "virtio_queue_empty_rcu G s = Some (e, t)" "quiet s t"
    by (auto elim!: returnsE)
  define t' where "t' = t\<lparr>last_avail_idx := last_avail_idx t + 1\<rparr>"
  have c: "ring_config t' = ring_config s" using t(2) by (simp add: t'_def quiet_def queue_core_def ring_config_def)
  have ok: "queue_ok t'" "\<not> ring_packed t'" using config_ok [OF c] config_features [OF c] assms(1,2) by simp_all
  from total_get_head [OF ok, of G "ucast (last_avail_idx t)"] obtain h u where
    u: "virtqueue_get_head G (ucast (last_avail_idx t)) t' = Some (h, u)" "quiet t' u" "\<And>x. h = Some x \<Longrightarrow> unat x < unat (vr_num t')"
    by (auto elim!: returnsE)
  have cu: "ring_config u = ring_config s" using u(2) c by (simp add: quiet_def queue_core_def)
  have su: "pop_frame s u" "inuse u = inuse s" "mapped (dma_hist u) = mapped (dma_hist s)" "unmapped (dma_hist u) = unmapped (dma_hist s)"
    using t(2) u(2) by (simp_all add: t'_def quiet_def queue_core_def pop_frame_def ring_config_def)
  have oku: "queue_ok u" "\<not> ring_packed u" using config_ok [OF cu] config_features [OF cu] assms(1,2) by simp_all
  have num: "vr_num t = vr_num s" "inuse t = inuse s" using t(2) by (simp_all add: quiet_def queue_core_def ring_config_def)
  consider "e" | "\<not> e" "vr_num t \<le> inuse t" | "\<not> e" "\<not> vr_num t \<le> inuse t" "h = None" | head where "\<not> e" "\<not> vr_num t \<le> inuse t" "h = Some head"
    by (cases h) auto
  then show ?thesis
  proof cases
    case 1
    then show ?thesis using t quiet_popped [OF t(2)] by (simp add: virtqueue_split_pop_def)
  next
    case 2
    then show ?thesis using t quiet_popped [OF quiet_trans [OF t(2) quiet_error]] by (simp add: virtqueue_split_pop_def)
  next
    case 3
    then show ?thesis using t u(1) popped_quiet [OF su quiet_popped [OF quiet_refl]] by (simp add: virtqueue_split_pop_def t'_def)
  next
    case 4
    note unf = virtqueue_split_pop_def t(1) Option.bind.bind_lunit prod.case if_not_P [OF 4(1)] if_not_P [OF 4(2)] u(1) [unfolded t'_def] 4(3) option.case
    obtain v where v: "(if event_idx u then vring_set_avail_event (last_avail_idx u) u else Some u) = Some v" "quiet u v"
      using total_set_avail_event [OF oku] by (cases "event_idx u") (auto elim!: returnsE)
    have cv: "ring_config v = ring_config s" using v(2) cu by (simp add: quiet_def queue_core_def)
    have sv: "pop_frame s v" "inuse v = inuse s" "mapped (dma_hist v) = mapped (dma_hist s)" "unmapped (dma_hist v) = unmapped (dma_hist s)"
      using su v(2) by (simp_all add: quiet_def queue_core_def pop_frame_def)
    have okv: "queue_ok v" using config_ok [OF cv] assms(1) by simp
    show ?thesis
    proof (cases "vr_caches v")
      case None
      then show ?thesis unfolding unf v(1) using popped_quiet [OF sv quiet_popped [OF quiet_error]] by simp
    next
      case (Some cc)
      have "\<not> mrc_len (rc_desc cc) < ucast (vr_num v) * sizeof_VRingDesc" using caches_fitD(1) [OF okv Some] by simp
      moreover have "returns (split_pop_chain G head cc v) (popped v)"
        using okv Some u(3) [OF 4(3)] num 4(2) config_fields(1) [OF cv] config_fields(1) [OF c] config_features [OF cv] sv assms(3)
        by (intro total_split_pop_chain) (auto simp: pop_frame_def)
      ultimately show ?thesis unfolding unf v(1) Some option.case
        by (simp add: returns_mono [OF _ popped_quiet [OF sv]])
    qed
  qed
qed

lemma total_pop:
  assumes "queue_ok s" "\<not> ring_packed s" "in_order s \<Longrightarrow> unat (vr_num s) \<le> length (used_elems s)"
  shows "returns (virtqueue_pop G s) (popped s)"
  using total_split_pop [OF assms, of G] assms(2) quiet_popped [OF quiet_refl] by (simp add: virtqueue_pop_def)

section \<open>Returning elements\<close>

lemma unmap_in: "queue_core (unmap_in_sg len offset vs s) = queue_core s \<and> mapped (dma_hist (unmap_in_sg len offset vs s)) = mapped (dma_hist s) \<and>
   unmapped (dma_hist (unmap_in_sg len offset vs s)) = unmapped (dma_hist s) + sg_segs True vs \<and> broken (unmap_in_sg len offset vs s) = broken s \<and>
   disabled (unmap_in_sg len offset vs s) = disabled s"
  by (induction len offset vs s rule: unmap_in_sg.induct) (simp_all add: Let_def queue_core_def ring_config_def)

lemma unmap_out: "queue_core (unmap_out_sg vs s) = queue_core s \<and> mapped (dma_hist (unmap_out_sg vs s)) = mapped (dma_hist s) \<and>
   unmapped (dma_hist (unmap_out_sg vs s)) = unmapped (dma_hist s) + sg_segs False vs \<and> broken (unmap_out_sg vs s) = broken s \<and>
   disabled (unmap_out_sg vs s) = disabled s"
  by (induction vs s rule: unmap_out_sg.induct) (simp_all add: queue_core_def ring_config_def)

lemma unmap_sg:
  "queue_core (virtqueue_unmap_sg e len s) = queue_core s" "mapped (dma_hist (virtqueue_unmap_sg e len s)) = mapped (dma_hist s)"
  "unmapped (dma_hist (virtqueue_unmap_sg e len s)) = unmapped (dma_hist s) + elem_segs e"
  "virtio_device_disabled (virtqueue_unmap_sg e len s) = virtio_device_disabled s"
  by (simp_all add: virtqueue_unmap_sg_def unmap_in unmap_out elem_segs_def virtio_device_disabled_def)

lemma core_config: "queue_core t = queue_core s \<Longrightarrow> ring_config t = ring_config s"
  by (simp add: queue_core_def)

lemma total_fill:
  assumes "queue_ok s" "\<not> ring_packed s" "\<not> in_order s"
  shows "returns (virtqueue_fill e len idx s) (\<lambda>t. queue_core t = queue_core s \<and> mapped (dma_hist t) = mapped (dma_hist s) \<and>
    unmapped (dma_hist t) = unmapped (dma_hist s) + elem_segs e)"
proof -
  define u where "u = virtqueue_unmap_sg e len s"
  have u: "queue_core u = queue_core s" "mapped (dma_hist u) = mapped (dma_hist s)" "unmapped (dma_hist u) = unmapped (dma_hist s) + elem_segs e"
    by (simp_all add: u_def unmap_sg)
  note c = core_config [OF u(1)]
  have ok: "queue_ok u" "\<not> ring_packed u" "\<not> in_order u" using assms config_ok [OF c] config_features [OF c] by simp_all
  have n: "vr_num u \<noteq> 0" using ok(1) by (auto simp: queue_ok_def)
  obtain i where i: "umod (idx + ucast (used_idx u)) (vr_num u) = Some i" "unat i < unat (vr_num u)"
    using total_umod [OF n, of "idx + ucast (used_idx u)"] by (auto elim!: returnsE)
  show ?thesis
    using total_used_write [OF ok(1,2) i(2), of "ve_index e" len] ok i u
    by (auto simp: virtqueue_fill_def Let_def u_def [symmetric] virtqueue_split_fill_def quiet_def elim!: returnsE)
qed

definition flushed :: "u32 \<Rightarrow> VirtQueue \<Rightarrow> VirtQueue \<Rightarrow> bool" where
  "flushed n s t \<longleftrightarrow> ring_config t = ring_config s \<and> used_elems t = used_elems s \<and> last_avail_idx t = last_avail_idx s \<and>
     (inuse t = inuse s - n \<or> vr_used s = 0 \<and> inuse t = inuse s) \<and>
     mapped (dma_hist t) = mapped (dma_hist s) \<and> unmapped (dma_hist t) = unmapped (dma_hist s)"

lemma total_used_idx_set:
  assumes "queue_ok s"
  shows "returns (vring_used_idx_set v s) (\<lambda>t. \<exists>u. quiet s u \<and> t = u\<lparr>used_idx := v\<rparr>)"
proof (cases "vr_caches s")
  case None
  then show ?thesis by (simp add: vring_used_idx_set_def) (blast intro: quiet_refl)
next
  case (Some c)
  from total_used_stw [OF assms Some inside_flags(4) [OF assms Some] quiet_refl, of v] obtain u where
    u: "(do { t \<leftarrow> virtio_stw_phys_cached (rc_used c) 2 v s; address_space_cache_invalidate (rc_used c) t }) = Some u" "quiet s u" by (rule returnsE)
  show ?thesis unfolding vring_used_idx_set_def Some option.case u(1) using u(2) by auto
qed

lemma total_flush:
  assumes "queue_ok s" "\<not> ring_packed s" "\<not> in_order s"
  shows "returns (virtqueue_flush n s) (flushed n s)"
proof -
  obtain u where u: "vring_used_idx_set (ucast (ucast (used_idx s) + n)) s = Some (u\<lparr>used_idx := ucast (ucast (used_idx s) + n)\<rparr>)" "quiet s u"
    using total_used_idx_set [OF assms(1), of "ucast (ucast (used_idx s) + n)"] by (auto elim!: returnsE)
  have "returns (virtqueue_split_flush n s) (flushed n s)"
    using u by (auto simp: virtqueue_split_flush_def Let_def check_signalled_def flushed_def quiet_def queue_core_def ring_config_def)
  then show ?thesis using assms by (auto simp: virtqueue_flush_def flushed_def ring_config_def)
qed

definition returned :: "VirtQueueElement \<Rightarrow> VirtQueue \<Rightarrow> VirtQueue \<Rightarrow> bool" where
  "returned e s t \<longleftrightarrow> ring_config t = ring_config s \<and> length (used_elems t) = length (used_elems s) \<and>
     (inuse t = inuse s - 1 \<or> vr_used s = 0 \<and> inuse t = inuse s) \<and>
     mapped (dma_hist t) = mapped (dma_hist s) \<and> unmapped (dma_hist t) = unmapped (dma_hist s) + elem_segs e"

lemma total_push:
  assumes "queue_ok s" "\<not> ring_packed s" "\<not> in_order s"
  shows "returns (virtqueue_push e len s) (returned e s)"
proof -
  obtain t where t: "virtqueue_fill e len 0 s = Some t" "queue_core t = queue_core s" "mapped (dma_hist t) = mapped (dma_hist s)"
    "unmapped (dma_hist t) = unmapped (dma_hist s) + elem_segs e"
    using total_fill [OF assms, of e len 0] by (auto elim!: returnsE)
  note c = core_config [OF t(2)]
  have "returns (virtqueue_flush 1 t) (flushed 1 t)"
    using assms config_ok [OF c] config_features [OF c] by (intro total_flush) simp_all
  then show ?thesis using t config_fields [OF c] by (auto simp: virtqueue_push_def returned_def flushed_def queue_core_def elim!: returnsE)
qed

lemma detach_returned: "ve_ndescs e = 1 \<Longrightarrow> returned e s (virtqueue_detach_element e len s)"
  by (simp add: virtqueue_detach_element_def returned_def unmap_sg core_config [OF unmap_sg(1)])
    (use unmap_sg(1) [of e len "s\<lparr>inuse := inuse s - 1\<rparr>"] in \<open>simp add: queue_core_def ring_config_def\<close>)

lemma unpop_returned: "ve_ndescs e = 1 \<Longrightarrow> \<not> ring_packed s \<Longrightarrow> returned e s (virtqueue_unpop e len s)"
  using detach_returned [of e "virtqueue_split_rewind 1 s" len]
  by (simp add: virtqueue_unpop_def returned_def virtqueue_split_rewind_def ring_config_def)

section \<open>Notification and polling\<close>

definition settled :: "VirtQueue \<Rightarrow> VirtQueue \<Rightarrow> bool" where
  "settled s t \<longleftrightarrow> ring_config t = ring_config s \<and> used_elems t = used_elems s \<and> last_avail_idx t = last_avail_idx s \<and> used_idx t = used_idx s \<and>
     inuse t = inuse s \<and> mapped (dma_hist t) = mapped (dma_hist s) \<and> unmapped (dma_hist t) = unmapped (dma_hist s)"

lemma quiet_settled: "quiet s t \<Longrightarrow> settled s t"
  by (simp add: quiet_def queue_core_def settled_def)

lemma settled_trans: "settled s t \<Longrightarrow> settled t u \<Longrightarrow> settled s u"
  by (simp add: settled_def)

lemma settled_quiet: "settled s t \<Longrightarrow> quiet t u \<Longrightarrow> settled s u"
  using settled_trans quiet_settled by blast

lemma total_empty: "queue_ok s \<Longrightarrow> \<not> ring_packed s \<Longrightarrow> returns (virtio_queue_empty G s) (\<lambda>(e, t). quiet s t)"
  using total_avail_idx [of s G] by (auto simp: virtio_queue_empty_def virtio_queue_split_empty_def elim!: returnsE)

lemma total_used_flags:
  assumes "queue_ok s" "vr_caches s = Some c"
  shows "returns (do { (fl, t) \<leftarrow> virtio_lduw_phys_cached G (rc_used c) 0 s; t \<leftarrow> virtio_stw_phys_cached (rc_used c) 0 (f fl) t;
    address_space_cache_invalidate (rc_used c) t }) (\<lambda>t. quiet s t)"
proof -
  from total_lduw [OF assms(1) inside_flags(3) [OF assms], of G] obtain v t where t: "virtio_lduw_phys_cached G (rc_used c) 0 s = Some (v, t)" "quiet s t"
    by (auto elim!: returnsE)
  show ?thesis using total_used_stw [OF assms inside_flags(3) [OF assms] t(2), of "f v"] by (simp add: t(1))
qed

lemma total_set_notification:
  assumes "queue_ok s" "\<not> ring_packed s"
  shows "returns (virtio_queue_set_notification G b s) (settled s)"
proof -
  define t where "t = s\<lparr>notification := b\<rparr>"
  have c: "ring_config t = ring_config s" by (simp add: t_def ring_config_def)
  have st: "settled s t" by (simp add: t_def settled_def ring_config_def)
  have ok: "queue_ok t" "\<not> ring_packed t" using assms config_ok [OF c] config_features [OF c] by simp_all
  have "returns (virtio_queue_split_set_notification G b t) (\<lambda>u. quiet t u)"
  proof (cases "event_idx t")
    case True
    obtain v u where u: "vring_avail_idx G t = Some (v, u)" "quiet t u" using total_avail_idx [OF ok(1), of G] by (auto elim!: returnsE)
    have cu: "ring_config u = ring_config t" using u(2) by (simp add: quiet_def queue_core_def)
    have "returns (vring_set_avail_event v u) (\<lambda>w. quiet u w)"
      using ok True config_ok [OF cu] config_features [OF cu] by (intro total_set_avail_event) simp_all
    then show ?thesis using True u(1) quiet_trans [OF u(2)] by (auto simp: virtio_queue_split_set_notification_def elim!: returnsE)
  next
    case False
    then show ?thesis
      using total_used_flags [OF ok(1), of _ G "\<lambda>f. f OR VRING_USED_F_NO_NOTIFY"] total_used_flags [OF ok(1), of _ G "\<lambda>f. f AND NOT VRING_USED_F_NO_NOTIFY"]
      by (cases "vr_caches t")
        (simp_all add: virtio_queue_split_set_notification_def vring_used_flags_set_bit_def vring_used_flags_unset_bit_def)
  qed
  then show ?thesis using st ok
    by (auto simp: virtio_queue_set_notification_def Let_def t_def [symmetric] elim!: returnsE intro: settled_quiet)
qed

lemma total_should_notify:
  assumes "queue_ok s" "\<not> ring_packed s"
  shows "returns (virtio_should_notify G s) (\<lambda>(n, t). settled s t)"
proof -
  obtain e t where t: "(if virtio_vdev_has_feature s VIRTIO_F_NOTIFY_ON_EMPTY \<and> inuse s = 0 then virtio_queue_empty G s else Some (False, s)) = Some (e, t)" "quiet s t"
    using total_empty [OF assms, of G] by (cases "virtio_vdev_has_feature s VIRTIO_F_NOTIFY_ON_EMPTY \<and> inuse s = 0") (auto elim!: returnsE)
  have c: "ring_config t = ring_config s" using t(2) by (simp add: quiet_def queue_core_def)
  have ok: "queue_ok t" "\<not> ring_packed t" using assms config_ok [OF c] config_features [OF c] by simp_all
  have "returns (virtio_split_should_notify G s) (\<lambda>(n, u). settled s u)"
  proof (cases "e \<or> \<not> event_idx t")
    case True
    then show ?thesis using quiet_settled [OF t(2)] total_avail_flags [OF ok(1), of G] unfolding virtio_split_should_notify_def t(1)
      by (auto elim!: returnsE intro: settled_quiet)
  next
    case False
    define u where "u = t\<lparr>signalled_used_valid := True, signalled_used := used_idx t\<rparr>"
    have su: "settled s u" using quiet_settled [OF t(2)] by (simp add: u_def settled_def ring_config_def)
    have cu: "ring_config u = ring_config t" by (simp add: u_def ring_config_def)
    have "returns (vring_get_used_event G u) (\<lambda>(v, w). quiet u w)" unfolding vring_get_used_event_def
      using ok False config_ok [OF cu] config_features [OF cu] by (intro total_avail_ring) simp_all
    then show ?thesis using False su unfolding virtio_split_should_notify_def t(1)
      by (auto simp: Let_def u_def [symmetric] elim!: returnsE intro: settled_quiet)
  qed
  then show ?thesis using assms by (simp add: virtio_should_notify_def)
qed

lemma total_notify:
  assumes "queue_ok s" "\<not> ring_packed s"
  shows "returns (virtio_notify G s) (settled s)"
proof -
  obtain b t where "virtio_should_notify G s = Some (b, t)" "settled s t" using total_should_notify [OF assms, of G] by (auto elim!: returnsE)
  moreover have "quiet t (virtio_irq t)" unfolding virtio_irq_def by (rule quiet_trans [OF quiet_set_isr quiet_notify_vector])
  ultimately show ?thesis by (auto simp: virtio_notify_def intro: settled_quiet)
qed

end
