(* ===== verification/Virtio_Lifecycle.thy ===== *)
theory Virtio_Lifecycle
  imports Virtio_Safety
begin

text \<open>
  Whole runs of a split virtqueue: counting what the guest offers ends and touches nothing, and along
  any sequence of operations the account of elements and mappings is kept.
\<close>

section \<open>How much the guest offers\<close>

lemma returns_pairE: "returns m (\<lambda>(a, b). Q a b) \<Longrightarrow> (\<And>a b. m = Some (a, b) \<Longrightarrow> Q a b \<Longrightarrow> thesis) \<Longrightarrow> thesis"
  by (auto simp: returns_def)

lemma total_num_heads: "queue_ok s \<Longrightarrow> returns (virtqueue_num_heads G idx s) (\<lambda>(r, t). quiet s t)"
proof -
  assume ok: "queue_ok s"
  obtain a t where t: "(if ucast (shadow_avail_idx s) \<noteq> idx then Some (shadow_avail_idx s, s) else vring_avail_idx G s) = Some (a, t)" "quiet s t"
    using total_avail_idx [OF ok, of G] by (cases "ucast (shadow_avail_idx s) \<noteq> idx") (auto elim!: returnsE)
  show ?thesis unfolding virtqueue_num_heads_def t(1) using t(2) quiet_trans [OF t(2) quiet_error] by (auto simp: Let_def)
qed

lemma unat_Suc32: "\<not> maxd < n + 1 \<Longrightarrow> unat (maxd :: u32) < 2 ^ 28 \<Longrightarrow> unat n \<le> unat maxd \<Longrightarrow> unat (n + 1) = Suc (unat n)"
  by (simp add: unat_word_ariths word_less_nat_alt)

lemma total_split_chain_bytes:
  assumes "queue_ok s" "table_ok maxd c" "unat n \<le> unat maxd"
  shows "returns (split_chain_bytes G d c maxd n a b max_in max_out s)
    (\<lambda>(r, a', b', t). quiet s t \<and> (\<forall>k. r = ChainEnd k \<longrightarrow> unat n < unat k \<and> unat k \<le> unat maxd))"
  using assms
proof (induction "unat maxd - unat n" arbitrary: n d a b s rule: less_induct)
  case less
  show ?case
  proof (cases "maxd < n + 1")
    case True
    then show ?thesis using quiet_error [of s] by (subst split_chain_bytes.simps) simp
  next
    case False
    have n: "unat (n + 1) = Suc (unat n)" using unat_Suc32 [OF False] less.prems(2,3) by (simp add: table_ok_def)
    have le: "Suc (unat n) \<le> unat maxd" using False n by (simp add: word_less_nat_alt)
    obtain a1 b1 where ab: "(if vd_flags d AND VRING_DESC_F_WRITE \<noteq> 0 then (a + vd_len d, b) else (a, b + vd_len d)) = (a1, b1)" by fastforce
    obtain rc d' u where u: "virtqueue_split_read_next_desc G d c maxd s = Some (rc, d', u)" "quiet s u"
      using total_read_next [OF less.prems(1,2), of G d] by (auto elim!: returnsE)
    have "returns (split_chain_bytes G d' c maxd (n + 1) a1 b1 max_in max_out u)
      (\<lambda>(r, a', b', t). quiet u t \<and> (\<forall>k. r = ChainEnd k \<longrightarrow> unat (n + 1) < unat k \<and> unat k \<le> unat maxd))"
      using less.prems quiet_ok [OF u(2)] n le by (intro less.hyps) simp_all
    then obtain r a2 b2 w where w: "split_chain_bytes G d' c maxd (n + 1) a1 b1 max_in max_out u = Some (r, a2, b2, w)" "quiet u w"
      "\<And>k. r = ChainEnd k \<Longrightarrow> unat n < unat k \<and> unat k \<le> unat maxd" using n by (fastforce elim!: returnsE)
    have "quiet s w" using quiet_trans [OF u(2) w(2)] .
    then show ?thesis using u w n le
      by (subst split_chain_bytes.simps, unfold if_not_P [OF False] ab prod.case) auto
  qed
qed

lemma total_split_bytes_table:
  assumes "queue_ok s" "vr_caches s = Some c" "unat i < unat (vr_num s)" "unat tb \<le> unat (vr_num s)"
  shows "returns (split_bytes_table G i c tb s) (\<lambda>(r, t). quiet s t \<and>
    (\<forall>d dc ind maxd nb. r = Some (d, dc, ind, maxd, nb) \<longrightarrow> table_ok maxd dc \<and> unat nb \<le> unat maxd \<and>
       (if ind then unat tb < unat (vr_num s) else maxd = vr_num s \<and> nb = tb)))"
proof -
  note ring = ring_table [OF assms(1,2)]
  from total_desc_read [OF assms(1), of i "rc_desc c" G] obtain d t where d: "vring_split_desc_read G (rc_desc c) i s = Some (d, t)" "quiet s t"
    using ring assms(3) by (auto simp: table_ok_def elim!: returnsE)
  have num: "vr_num t = vr_num s" using d(2) by (simp add: quiet_def queue_core_def ring_config_def)
  have ok: "queue_ok t" using quiet_ok [OF d(2)] assms(1) by simp
  show ?thesis
  proof (cases "vd_flags d AND VRING_DESC_F_INDIRECT = 0")
    case True
    then show ?thesis using d ring num assms(4) by (simp add: split_bytes_table_def)
  next
    case ind: False
    note table = split_bytes_table_def d(1) Option.bind.bind_lunit prod.case if_not_P [OF ind]
    show ?thesis
    proof (cases "vd_len d = 0 \<or> vd_len d mod 16 \<noteq> 0")
      case True
      show ?thesis using quiet_trans [OF d(2) quiet_error] unfolding table if_P [OF True] by simp
    next
      case False
      from indirect_table [OF ok False, of G] obtain l ic u where u:
        "address_space_cache_init G (vd_addr d) (ucast (vd_len d)) False t = Some (l, ic, u)" "quiet t u"
        "l < ucast (vd_len d) \<or> table_ok (vd_len d div 16) ic \<and> (\<exists>d' w. vring_split_desc_read G ic 0 u = Some (d', w) \<and> quiet u w)" .
      have su: "quiet s u" using quiet_trans [OF d(2) u(2)] .
      show ?thesis using u(3) num quiet_trans [OF d(2) quiet_error] quiet_trans [OF su quiet_error] quiet_trans [OF su] unfolding table if_not_P [OF False] u(1)
        by (cases "vr_num t \<le> tb"; cases "l < ucast (vd_len d)") (auto simp: Let_def word_le_nat_alt)
    qed
  qed
qed

lemma total_split_bytes_loop:
  assumes "queue_ok s" "\<not> ring_packed s" "vr_caches s = Some c" "unat tb \<le> unat (vr_num s)"
  shows "returns (split_bytes_loop G c max_in max_out idx tb a b s) (\<lambda>(a', b', t). quiet s t)"
  using assms
proof (induction "unat (vr_num s) - unat tb" arbitrary: idx tb a b s rule: less_induct)
  case less
  obtain r t where t: "virtqueue_num_heads G idx s = Some (r, t)" "quiet s t" using total_num_heads [OF less.prems(1), of G idx] by (auto elim!: returnsE)
  have ct: "ring_config t = ring_config s" using t(2) by (simp add: quiet_def queue_core_def)
  have okt: "queue_ok t" "\<not> ring_packed t" using less.prems(1,2) config_ok [OF ct] config_features [OF ct] by simp_all
  obtain h u where u: "virtqueue_get_head G idx t = Some (h, u)" "quiet t u" "\<And>x. h = Some x \<Longrightarrow> unat x < unat (vr_num t)"
    using total_get_head [OF okt, of G idx] by (auto elim!: returnsE)
  have su: "quiet s u" using quiet_trans [OF t(2) u(2)] .
  have cu: "ring_config u = ring_config s" using su by (simp add: quiet_def queue_core_def)
  have oku: "queue_ok u" "vr_caches u = Some c" "unat tb \<le> unat (vr_num u)"
    using less.prems config_ok [OF cu] config_fields [OF cu] by simp_all
  show ?case
  proof (cases "r \<le> 0")
    case True
    then show ?thesis using t by (subst split_bytes_loop.simps) auto
  next
    case pos: False
    show ?thesis
    proof (cases h)
      case None
      then show ?thesis using t(1) u(1) su pos by (subst split_bytes_loop.simps) auto
    next
      case (Some i)
      have "unat i < unat (vr_num u)" using u(3) [OF Some] config_fields(1) [OF ct] config_fields(1) [OF cu] by simp
      from total_split_bytes_table [OF oku(1,2) this oku(3), of G] obtain q v where v: "split_bytes_table G i c tb u = Some (q, v)" "quiet u v"
        "\<forall>d dc ind maxd nb. q = Some (d, dc, ind, maxd, nb) \<longrightarrow> table_ok maxd dc \<and> unat nb \<le> unat maxd \<and>
           (if ind then unat tb < unat (vr_num u) else maxd = vr_num u \<and> nb = tb)" by (rule returns_pairE) blast
      have sv: "quiet s v" using quiet_trans [OF su v(2)] .
      show ?thesis
      proof (cases q)
        case None
        then show ?thesis using t(1) u(1) sv v(1) pos Some by (subst split_bytes_loop.simps) auto
      next
        case (Some x)
        then obtain d dc ind maxd nb where q: "q = Some (d, dc, ind, maxd, nb)" by (cases x rule: prod_cases5) auto
        note vq = v(3) [rule_format, OF q]
        have okv: "queue_ok v" using quiet_ok [OF sv] less.prems(1) by simp
        from total_split_chain_bytes [OF okv, of maxd dc nb G d a b max_in max_out] vq obtain cb a1 b1 w where
          w: "split_chain_bytes G d dc maxd nb a b max_in max_out v = Some (cb, a1, b1, w)" "quiet v w"
          "\<And>k. cb = ChainEnd k \<Longrightarrow> unat nb < unat k \<and> unat k \<le> unat maxd" by (auto elim!: returnsE)
        have sw: "quiet s w" using quiet_trans [OF sv w(2)] .
        have cw: "ring_config w = ring_config s" using sw by (simp add: quiet_def queue_core_def)
        have loop: "returns (split_bytes_loop G c max_in max_out (idx + 1) (if ind then tb + 1 else k) a1 b1 w) (\<lambda>(a', b', t). quiet w t)"
          if k: "cb = ChainEnd k" for k
        proof -
          define tb' where "tb' = (if ind then tb + 1 else k)"
          have bound: "unat tb < unat tb'" "unat tb' \<le> unat (vr_num s)"
            using vq w(3) [OF k] config_fields(1) [OF cu] unat_num_bound [OF less.prems(1)] unfolding tb'_def
            by (cases ind; simp add: unat_word_ariths)+
          have "queue_ok w" "\<not> ring_packed w" "vr_caches w = Some c" and num: "vr_num w = vr_num s"
            using less.prems(1-3) config_ok [OF cw] config_features [OF cw] config_fields(1,2) [OF cw] by simp_all
          moreover have "unat (vr_num w) - unat tb' < unat (vr_num s) - unat tb" "unat tb' \<le> unat (vr_num w)"
            using bound unfolding num by linarith+
          ultimately show ?thesis unfolding tb'_def [symmetric] by (intro less.hyps)
        qed
        note unf = split_bytes_loop.simps t(1) u(1) v(1) w(1) Option.bind.bind_lunit prod.case \<open>h = Some i\<close> q option.case
        show ?thesis
        proof (cases cb)
          case (ChainEnd k)
          have "returns (split_bytes_loop G c max_in max_out (idx + 1) (if ind then tb + 1 else k) a1 b1 w) (\<lambda>(a', b', t). quiet s t)"
            by (rule returns_mono [OF loop [OF ChainEnd]]) (auto intro: quiet_trans [OF sw])
          then show ?thesis using pos by (subst unf(1), unfold unf(2-) ChainEnd) simp
        qed (subst unf(1), unfold unf(2-), use pos sw in simp)+
      qed
    qed
  qed
qed

lemma total_get_avail_bytes:
  assumes "queue_ok s" "\<not> ring_packed s"
  shows "returns (virtqueue_get_avail_bytes G max_in max_out s) (\<lambda>(r, a, b, t). quiet s t)"
proof (cases "vr_desc s = 0 \<or> vr_caches s = None")
  case True
  then show ?thesis by (auto simp: virtqueue_get_avail_bytes_def)
next
  case False
  then obtain c where c: "vr_caches s = Some c" by auto
  from total_split_bytes_loop [OF assms c, of 0 G max_in max_out "ucast (last_avail_idx s)" 0 0] False c assms(2) quiet_error [of s] show ?thesis
    by (auto simp: virtqueue_get_avail_bytes_def virtqueue_split_get_avail_bytes_def elim!: returnsE)
qed

section \<open>Runs\<close>

text \<open>
  What a device may do with its queue.  The second component of the state are the elements it has
  taken off and not returned yet; \<open>k\<close> is the position of one of them.
\<close>

datatype queue_op = OpPop | OpPush nat u32 | OpDetach nat u32 | OpUnpop nat u32 | OpNotify | OpSetNotification bool | OpAvailBytes u32 u32 | OpEmpty

definition drop_nth :: "nat \<Rightarrow> 'a list \<Rightarrow> 'a list" where
  "drop_nth k xs = take k xs @ drop (Suc k) xs"

fun device_step :: "guest_memory \<Rightarrow> queue_op \<Rightarrow> VirtQueue \<times> VirtQueueElement list \<Rightarrow> (VirtQueue \<times> VirtQueueElement list) option" where
  "device_step G OpPop (s, fl) = do { (r, s) \<leftarrow> virtqueue_pop G s; Some (s, case r of None \<Rightarrow> fl | Some e \<Rightarrow> fl @ [e]) }"
| "device_step G (OpPush k len) (s, fl) =
     (if k < length fl then do { s \<leftarrow> virtqueue_push (fl ! k) len s; Some (s, drop_nth k fl) } else Some (s, fl))"
| "device_step G (OpDetach k len) (s, fl) =
     (if k < length fl then Some (virtqueue_detach_element (fl ! k) len s, drop_nth k fl) else Some (s, fl))"
| "device_step G (OpUnpop k len) (s, fl) =
     (if k < length fl then Some (virtqueue_unpop (fl ! k) len s, drop_nth k fl) else Some (s, fl))"
| "device_step G OpNotify (s, fl) = do { s \<leftarrow> virtio_notify G s; Some (s, fl) }"
| "device_step G (OpSetNotification b) (s, fl) = do { s \<leftarrow> virtio_queue_set_notification G b s; Some (s, fl) }"
| "device_step G (OpAvailBytes a b) (s, fl) = do { (r, s) \<leftarrow> virtqueue_avail_bytes G a b s; Some (s, fl) }"
| "device_step G OpEmpty (s, fl) = do { (r, s) \<leftarrow> virtio_queue_empty G s; Some (s, fl) }"

definition flight_segs :: "VirtQueueElement list \<Rightarrow> seg multiset" where
  "flight_segs fl = sum_list (map elem_segs fl)"

definition queue_inv :: "VirtQueue \<times> VirtQueueElement list \<Rightarrow> bool" where
  "queue_inv = (\<lambda>(s, fl). queue_ok s \<and> \<not> ring_packed s \<and> \<not> in_order s \<and> list_all (elem_ok s) fl \<and>
     length fl \<le> unat (inuse s) \<and> unat (inuse s) \<le> unat (vr_num s) \<and> (vr_used s \<noteq> 0 \<longrightarrow> unat (inuse s) = length fl) \<and>
     mapped (dma_hist s) = unmapped (dma_hist s) + flight_segs fl)"

lemma flight_drop:
  assumes "k < length fl"
  shows "flight_segs fl = flight_segs (drop_nth k fl) + elem_segs (fl ! k)" "length fl = Suc (length (drop_nth k fl))"
    "list_all P fl \<Longrightarrow> list_all P (drop_nth k fl)"
proof -
  have "fl = take k fl @ fl ! k # drop (Suc k) fl" using assms by (simp add: id_take_nth_drop)
  then have "flight_segs fl = flight_segs (take k fl @ fl ! k # drop (Suc k) fl)" by simp
  then show "flight_segs fl = flight_segs (drop_nth k fl) + elem_segs (fl ! k)" by (simp add: flight_segs_def drop_nth_def)
  show "length fl = Suc (length (drop_nth k fl))" using assms by (simp add: drop_nth_def)
  show "list_all P fl \<Longrightarrow> list_all P (drop_nth k fl)" by (auto simp: drop_nth_def list_all_iff dest: in_set_takeD in_set_dropD)
qed

lemma config_elem: "ring_config t = ring_config s \<Longrightarrow> elem_ok t = elem_ok s"
  using config_fields(1) [of t s] by (auto simp: elem_ok_def fun_eq_iff)

lemma queue_inv_returned:
  assumes "queue_inv (s, fl)" "k < length fl" "returned (fl ! k) s t"
  shows "queue_inv (t, drop_nth k fl)"
proof -
  have c: "ring_config t = ring_config s" using assms(3) by (simp add: returned_def)
  have pos: "0 < unat (inuse s)" using assms(1,2) by (auto simp: queue_inv_def)
  then have "unat (inuse s - 1) = unat (inuse s) - 1" by (intro unat_minus_one) (auto simp: unat_gt_0)
  then have "unat (inuse t) = unat (inuse s) - 1 \<or> vr_used s = 0 \<and> unat (inuse t) = unat (inuse s)"
    using assms(3) by (auto simp: returned_def)
  then show ?thesis
    using assms flight_drop [OF assms(2)] pos config_ok [OF c] config_features [OF c] config_fields [OF c] config_elem [OF c]
    by (auto simp: queue_inv_def returned_def)
qed

lemma queue_inv_settled: "queue_inv (s, fl) \<Longrightarrow> settled s t \<Longrightarrow> queue_inv (t, fl)"
  using config_ok [of t s] config_features [of t s] config_fields [of t s] config_elem [of t s] by (auto simp: queue_inv_def settled_def)

lemma queue_inv_popped:
  assumes "queue_inv (s, fl)" "popped s (r, t)"
  shows "queue_inv (t, case r of None \<Rightarrow> fl | Some e \<Rightarrow> fl @ [e])"
proof -
  have c: "ring_config t = ring_config s" using assms(2) by (cases r) (auto simp: popped_def pop_frame_def)
  have ok: "queue_ok s" "\<not> ring_packed s" "\<not> in_order s" "list_all (elem_ok s) fl" "length fl \<le> unat (inuse s)"
      "unat (inuse s) \<le> unat (vr_num s)" "vr_used s \<noteq> 0 \<longrightarrow> unat (inuse s) = length fl"
      "mapped (dma_hist s) = unmapped (dma_hist s) + flight_segs fl"
    using assms(1) by (simp_all add: queue_inv_def)
  have ok': "queue_ok t" "\<not> ring_packed t" "\<not> in_order t" "elem_ok t = elem_ok s" "vr_num t = vr_num s" "vr_used t = vr_used s"
    using ok(1-3) config_ok [OF c] config_features [OF c] config_fields(1,3) [OF c] config_elem [OF c] by simp_all
  show ?thesis
  proof (cases r)
    case None
    obtain m where m: "mapped (dma_hist t) = mapped (dma_hist s) + m" "unmapped (dma_hist t) = unmapped (dma_hist s) + m"
      and i: "inuse t = inuse s"
      using assms(2) by (auto simp: None popped_def)
    have "mapped (dma_hist t) = unmapped (dma_hist t) + flight_segs fl"
      unfolding m ok(8) by (simp add: ac_simps)
    then show ?thesis using ok ok' i by (simp add: None queue_inv_def)
  next
    case (Some e)
    have less: "unat (inuse s) < unat (vr_num s)" and e: "elem_ok s e" and i: "inuse t = inuse s + 1"
      and m: "mapped (dma_hist t) = mapped (dma_hist s) + elem_segs e" "unmapped (dma_hist t) = unmapped (dma_hist s)"
      using assms(2) by (simp_all add: Some popped_def word_less_nat_alt)
    have "unat (vr_num s) \<le> 1024" using unat_num_bound [OF ok(1)] by simp
    with less have u: "unat (inuse t) = Suc (unat (inuse s))" unfolding i by (simp add: unat_word_ariths)
    have "mapped (dma_hist t) = unmapped (dma_hist t) + flight_segs (fl @ [e])"
      unfolding m ok(8) by (simp add: flight_segs_def ac_simps)
    then show ?thesis using ok(4-7) ok' less e u by (simp add: Some queue_inv_def)
  qed
qed

lemma same_config: "popped s (r, t) \<Longrightarrow> ring_config t = ring_config s" "returned e s t \<Longrightarrow> ring_config t = ring_config s"
    "settled s t \<Longrightarrow> ring_config t = ring_config s"
  by (cases r) (auto simp: popped_def pop_frame_def returned_def settled_def)

lemma device_step_inv:
  assumes "queue_inv st"
  shows "\<exists>st'. device_step G op st = Some st' \<and> queue_inv st' \<and> ring_config (fst st') = ring_config (fst st)"
proof -
  obtain s fl where st: "st = (s, fl)" by (cases st)
  note inv = assms [unfolded st]
  note keeps = queue_inv_returned [OF inv] queue_inv_settled [OF inv] same_config
  have ok: "queue_ok s" "\<not> ring_packed s" "\<not> in_order s" and all: "list_all (elem_ok s) fl" using inv by (auto simp: queue_inv_def)
  have one: "ve_ndescs (fl ! k) = 1" if "k < length fl" for k using all that by (auto simp: list_all_length elem_ok_def)
  show ?thesis
  proof (cases op)
    case OpPop
    obtain r t where "virtqueue_pop G s = Some (r, t)" "popped s (r, t)" using total_pop [OF ok(1,2), of G] ok(3) by (auto elim!: returnsE)
    with queue_inv_popped [OF inv] same_config(1) [of s r t] show ?thesis by (simp add: st OpPop)
  next
    case (OpPush k len)
    then show ?thesis using inv total_push [OF ok, of "fl ! k" len] keeps by (auto simp: st elim!: returnsE)
  next
    case (OpDetach k len)
    then show ?thesis using inv one keeps(1) detach_returned same_config(2) [OF detach_returned] by (auto simp: st)
  next
    case (OpUnpop k len)
    then show ?thesis using inv one keeps(1) unpop_returned [OF _ ok(2)] same_config(2) [OF unpop_returned [OF _ ok(2)]] by (auto simp: st)
  next
    case OpNotify
    then show ?thesis using total_notify [OF ok(1,2), of G] keeps by (auto simp: st elim!: returnsE)
  next
    case (OpSetNotification b)
    then show ?thesis using total_set_notification [OF ok(1,2), of G b] keeps by (auto simp: st elim!: returnsE)
  next
    case (OpAvailBytes a b)
    then show ?thesis using total_get_avail_bytes [OF ok(1,2), of G a b] keeps quiet_settled
      by (auto simp: st virtqueue_avail_bytes_def elim!: returnsE)
  next
    case OpEmpty
    then show ?thesis using total_empty [OF ok(1,2), of G] keeps quiet_settled by (auto simp: st elim!: returnsE)
  qed
qed

definition queue_inv_from :: "VirtQueue \<Rightarrow> VirtQueue \<times> VirtQueueElement list \<Rightarrow> bool" where
  "queue_inv_from s st \<longleftrightarrow> queue_inv st \<and> ring_config (fst st) = ring_config s"

interpretation vqueue: invariant_system "device_step G" "\<lambda>_. True" "queue_inv_from s" for G s
  using device_step_inv by unfold_locales (fastforce simp: queue_inv_from_def)

text \<open>Setting up the caches: either the queue ends up without caches, or they are as long as the rings.\<close>

lemma setup_inv:
  assumes "0 < vr_num s" "vr_num s \<le> 1024" "virtio_is_big_endian s \<noteq> None" "\<not> ring_packed s" "\<not> in_order s" "inuse s = 0" "dma_hist s = []"
    and w: "quiet s w" and fit: "caches_fit (w\<lparr>vr_caches := X\<rparr>)"
  shows "queue_inv (w\<lparr>vr_caches := X\<rparr>, []) \<and> vr_num (w\<lparr>vr_caches := X\<rparr>) = vr_num s \<and> vr_used (w\<lparr>vr_caches := X\<rparr>) = vr_used s"
proof -
  have c: "ring_config w = ring_config s" "inuse w = inuse s" "mapped (dma_hist w) = {#}" "unmapped (dma_hist w) = {#}"
    using w assms(7) by (simp_all add: quiet_def queue_core_def)
  have e: "virtio_is_big_endian (w\<lparr>vr_caches := X\<rparr>) = virtio_is_big_endian s"
      "virtio_vdev_has_feature (w\<lparr>vr_caches := X\<rparr>) f = virtio_vdev_has_feature s f" for f
    using c(1) by (simp_all add: virtio_is_big_endian_def virtio_vdev_has_feature_def ring_config_def)
  have "queue_ok (w\<lparr>vr_caches := X\<rparr>)"
    unfolding queue_ok_def e using assms(1-3) config_fields(1) [OF c(1)] fit by simp
  then show ?thesis
    using assms(4-6) c config_fields(1,3) [OF c(1)] by (simp add: queue_inv_def e flight_segs_def)
qed

lemma init_region_cache_inv:
  assumes s: "0 < vr_num s" "vr_num s \<le> 1024" "virtio_is_big_endian s \<noteq> None" "\<not> ring_packed s" "\<not> in_order s" "inuse s = 0" "dma_hist s = []"
  shows "\<exists>t. virtio_init_region_cache G s = Some t \<and> queue_inv (t, []) \<and> vr_num t = vr_num s \<and> vr_used t = vr_used s"
proof (cases "vr_desc s = 0")
  case True
  then show ?thesis using setup_inv [OF s quiet_refl, of None]
    by (simp add: virtio_init_region_cache_def virtio_virtqueue_reset_region_cache_def caches_fit_def)
next
  case False
  have n: "0 < unat (vr_num s)" "unat (vr_num s) \<le> 1024" using s(1,2) by (simp_all add: word_less_nat_alt word_le_nat_alt)
  define h where "h = (\<lambda>es. s\<lparr>dma_hist := es\<rparr>)"
  have u: "unat (virtio_queue_get_desc_size s) = 16 * unat (vr_num s)"
    "unat (virtio_queue_get_used_size s) = 4 + 8 * unat (vr_num s) + (if event_idx s then 2 else 0)"
    "unat (virtio_queue_get_avail_size s) = 4 + 2 * unat (vr_num s) + (if event_idx s then 2 else 0)"
    using n s(4) by (simp_all add: virtio_queue_get_desc_size_def virtio_queue_get_used_size_def virtio_queue_get_avail_size_def
        sizeof_VRingDesc_def unat_word_ariths unat_up)
  then have nz: "virtio_queue_get_desc_size s \<noteq> 0" "virtio_queue_get_used_size s \<noteq> 0" "virtio_queue_get_avail_size s \<noteq> 0"
    using n by (metis add_is_0 mult_is_0 unat_eq_zero zero_neq_numeral not_less_zero)+
  have eq: "virtio_queue_get_desc_size (h es) = virtio_queue_get_desc_size s" "virtio_queue_get_used_size (h es) = virtio_queue_get_used_size s"
    "virtio_queue_get_avail_size (h es) = virtio_queue_get_avail_size s" "ring_packed (h es) = ring_packed s" for es
    by (simp_all add: h_def virtio_queue_get_desc_size_def virtio_queue_get_used_size_def virtio_queue_get_avail_size_def virtio_vdev_has_feature_def)
  have h0: "h [] = s" by (simp add: h_def s(7) [symmetric])
  have init: "address_space_cache_init G a sz w (h es) =
      Some (gm_cache G es a sz w, \<lparr>mrc_addr = a, mrc_len = gm_cache G es a sz w, mrc_is_write = w\<rparr>, h (es @ [CacheInit a sz w]))" if "sz \<noteq> 0" for a sz w es
    using that by (simp add: address_space_cache_init_def h_def Let_def)
  have addr: "vr_desc (h es) = vr_desc s" "vr_used (h es) = vr_used s" "vr_avail (h es) = vr_avail s" for es by (simp_all add: h_def)
  have q: "quiet s (h es)" if "mapped es = {#}" "unmapped es = {#}" for es
    using that s(7) by (simp add: quiet_def h_def queue_core_def ring_config_def)
  have bad: "queue_inv (t, []) \<and> vr_num t = vr_num s \<and> vr_used t = vr_used s"
    if "t = virtio_virtqueue_reset_region_cache (virtio_error (h es))" "mapped es = {#}" "unmapped es = {#}" for t es
    using setup_inv [OF s quiet_trans [OF q quiet_error], of es None] that by (simp add: virtio_virtqueue_reset_region_cache_def caches_fit_def)
  have good: "queue_inv (t, []) \<and> vr_num t = vr_num s \<and> vr_used t = vr_used s"
    if t: "t = (h es)\<lparr>vr_caches := Some \<lparr>rc_desc = d, rc_avail = a, rc_used = b\<rparr>\<rparr>" and m: "mapped es = {#}" "unmapped es = {#}"
      and l: "\<not> mrc_len d < virtio_queue_get_desc_size s" "\<not> mrc_len a < virtio_queue_get_avail_size s" "\<not> mrc_len b < virtio_queue_get_used_size s"
        "mrc_is_write b" for t es d a b
  proof -
    have "caches_fit t" unfolding t caches_fit_def using l s(4)
      by (simp add: not_less h_def virtio_queue_get_desc_size_def virtio_queue_get_used_size_def virtio_queue_get_avail_size_def virtio_vdev_has_feature_def)
    then show ?thesis using setup_inv [OF s q [OF m]] unfolding t by simp
  qed
  define e1 e2 e3 where "e1 = [CacheInit (vr_desc s) (virtio_queue_get_desc_size s) False]"
    and "e2 = e1 @ [CacheInit (vr_used s) (virtio_queue_get_used_size s) True]"
    and "e3 = e2 @ [CacheInit (vr_avail s) (virtio_queue_get_avail_size s) False]"
  have e: "mapped e1 = {#}" "unmapped e1 = {#}" "mapped e2 = {#}" "unmapped e2 = {#}" "mapped e3 = {#}" "unmapped e3 = {#}"
    by (simp_all add: e1_def e2_def e3_def)
  have "\<exists>t. virtio_init_region_cache G (h []) = Some t \<and> ((\<exists>es \<in> {e1, e2, e3}. t = virtio_virtqueue_reset_region_cache (virtio_error (h es))) \<or>
      (\<exists>d a b. t = (h e3)\<lparr>vr_caches := Some \<lparr>rc_desc = d, rc_avail = a, rc_used = b\<rparr>\<rparr> \<and> \<not> mrc_len d < virtio_queue_get_desc_size s \<and>
        \<not> mrc_len a < virtio_queue_get_avail_size s \<and> \<not> mrc_len b < virtio_queue_get_used_size s \<and> mrc_is_write b))"
    using False by (simp add: virtio_init_region_cache_def eq addr init nz s(4) e1_def e2_def e3_def Let_def) (metis MemoryRegionCache.select_convs)
  then show ?thesis using bad good e unfolding h0 by (elim exE conjE disjE bexE) blast+
qed

text \<open>
  C7.  The account of a virtqueue balances against every guest.  Take a split queue of 1 to 1024 entries, whose caches
  are then set up by \<open>virtio_init_region_cache()\<close>, and let the device pop, push, detach, unpop, notify, switch
  notifications, count bytes and poll in any order, while the guest changes any byte of its memory between any two
  accesses and maps or refuses whatever it likes.  Then no assertion fails, no access leaves a ring, a descriptor
  table or the arrays of 1024 segments, and every loop ends.  What is mapped is at each moment what was unmapped plus
  the segments of the elements the device holds; \<open>inuse\<close> never passes the size of the ring, and is the number of
  elements held unless the guest left the used ring at address 0, where it is never less.
\<close>

theorem virtqueue_accounts:
  assumes "0 < vr_num s" "vr_num s \<le> 1024" "virtio_is_big_endian s \<noteq> None" "\<not> ring_packed s" "\<not> in_order s"
    and "inuse s = 0" "dma_hist s = []"
  shows "\<exists>s' t fl. virtio_init_region_cache G s = Some s' \<and> run_ops (device_step G) ops (s', []) = Some (t, fl) \<and>
    mapped (dma_hist t) = unmapped (dma_hist t) + flight_segs fl \<and>
    length fl \<le> unat (inuse t) \<and> unat (inuse t) \<le> unat (vr_num s) \<and> (vr_used s \<noteq> 0 \<longrightarrow> unat (inuse t) = length fl) \<and>
    list_all (\<lambda>e. unat (ve_index e) < unat (vr_num s) \<and> length (in_sg e) + length (out_sg e) \<le> VIRTQUEUE_MAX_SIZE) fl"
proof -
  obtain s' where s': "virtio_init_region_cache G s = Some s'" "queue_inv (s', [])" "vr_num s' = vr_num s" "vr_used s' = vr_used s"
    using init_region_cache_inv [OF assms] by blast
  then obtain t fl where t: "run_ops (device_step G) ops (s', []) = Some (t, fl)" "queue_inv (t, fl)" "ring_config t = ring_config s'"
    using vqueue.run_inv [of s' "(s', [])" ops G] by (auto simp: queue_inv_from_def list_all_iff)
  have "list_all (\<lambda>e. unat (ve_index e) < unat (vr_num s) \<and> length (in_sg e) + length (out_sg e) \<le> VIRTQUEUE_MAX_SIZE) fl"
    using t(2) config_fields(1) [OF t(3)] s'(3) by (auto simp: queue_inv_def list_all_iff elem_ok_def add.commute)
  then show ?thesis
    using s' t config_fields(1,3) [OF t(3)] by (intro exI [of _ s'] exI [of _ t] exI [of _ fl]) (simp add: queue_inv_def)
qed

text \<open>A queue of four entries, and a guest whose memory never changes and offers one buffer of 8 bytes.\<close>

definition example_queue :: VirtQueue where
  "example_queue = \<lparr>vd_status = 0x0f, vd_isr = 0, queue_sel = 0, host_features = 0x100000000, guest_features = 0x100000000,
     config_vector = 0xffff, generation = 0, broken = False, use_disabled_flag = False, disabled = False, use_started = True,
     started = True, start_on_kick = False, device_endian = VIRTIO_DEVICE_ENDIAN_LITTLE, dma_hist = [],
     vr_num = 4, vr_num_default = 4, vr_align = 4096, vr_desc = 0x1000, vr_avail = 0x2000, vr_used = 0x3000, vr_caches = None,
     used_elems = replicate 4 zero_elem, last_avail_idx = 0, last_avail_wrap_counter = True, shadow_avail_idx = 0,
     shadow_avail_wrap_counter = True, used_idx = 0, used_wrap_counter = True, signalled_used = 0, signalled_used_valid = False,
     notification = True, inuse = 0, vq_vector = 1, handle_output = True, host_notifier_enabled = False\<rparr>"

definition example_guest :: guest_memory where
  "example_guest = \<lparr>gm_byte = (\<lambda>_ a. if a = 0x1001 then 0x50 else if a = 0x1008 then 8 else if a = 0x2002 then 1 else 0),
     gm_cache = (\<lambda>_ _ l _. l), gm_map = (\<lambda>_ a l _. (a + 0x7f0000000000, l)), gm_junk = (\<lambda>_. 0)\<rparr>"

lemma example_queue_setup:
  "0 < vr_num example_queue" "vr_num example_queue \<le> 1024" "virtio_is_big_endian example_queue \<noteq> None" "\<not> ring_packed example_queue"
  "\<not> in_order example_queue" "inuse example_queue = 0" "dma_hist example_queue = []" "vr_used example_queue \<noteq> 0"
  by (simp_all add: example_queue_def virtio_is_big_endian_def virtio_vdev_has_feature_def virtio_has_feature_def virtio_constants)

theorem virtqueue_accounts_witness:
  "\<exists>s' t fl. virtio_init_region_cache example_guest example_queue = Some s' \<and>
     run_ops (device_step example_guest) [OpPop, OpNotify, OpPush 0 8, OpPop] (s', []) = Some (t, fl) \<and>
     mapped (dma_hist t) = unmapped (dma_hist t) + flight_segs fl \<and> unat (inuse t) = length fl"
  using virtqueue_accounts [OF example_queue_setup(1-7), of example_guest "[OpPop, OpNotify, OpPush 0 8, OpPop]"] example_queue_setup(8) by blast

end
