(* ===== verification/Virtio_Driver.thy ===== *)
theory Virtio_Driver
  imports Virtio_Lifecycle
begin

text \<open>
  What the driver in the guest gets from a split queue: the interrupts it asked for, and the elements
  it offered, in the used ring.
\<close>

section \<open>What returning an element writes\<close>

definition serving :: "VirtQueue \<Rightarrow> bool" where
  "serving s \<longleftrightarrow> queue_ok s \<and> \<not> ring_packed s \<and> \<not> in_order s \<and> \<not> virtio_device_disabled s \<and> vr_used s \<noteq> 0 \<and> vr_caches s \<noteq> None"

text \<open>The used ring's address and the byte order of its fields.\<close>

definition used_base :: "VirtQueue \<Rightarrow> u64" where
  "used_base s = (case vr_caches s of None \<Rightarrow> 0 | Some c \<Rightarrow> mrc_addr (rc_used c))"

definition is_be :: "VirtQueue \<Rightarrow> bool" where
  "is_be s \<longleftrightarrow> virtio_is_big_endian s = Some True"

lemma servingE:
  assumes "serving s"
  obtains c where "vr_caches s = Some c" "queue_ok s" "\<not> ring_packed s" "\<not> in_order s" "\<not> virtio_device_disabled s" "vr_used s \<noteq> 0"
    "used_base s = mrc_addr (rc_used c)" "virtio_is_big_endian s = Some (is_be s)"
proof -
  from assms obtain c where "vr_caches s = Some c" by (auto simp: serving_def)
  moreover have "virtio_is_big_endian s = Some (is_be s)"
    using assms by (cases "virtio_is_big_endian s") (simp_all add: is_be_def serving_def queue_ok_def)
  ultimately show thesis using assms that [of c] by (simp add: serving_def used_base_def)
qed

lemma used_idx_set_exact:
  assumes "serving s"
  shows "vring_used_idx_set v s = Some (s\<lparr>dma_hist := dma_hist s @ [DmaWrite (used_base s + 2) (st_bytes (is_be s) 2 (unat v))], used_idx := v\<rparr>)"
proof -
  from assms obtain c where c: "vr_caches s = Some c" "queue_ok s" "used_base s = mrc_addr (rc_used c)" "virtio_is_big_endian s = Some (is_be s)"
    by (rule servingE)
  from inside_check [OF inside_flags(4) [OF c(2,1)]] caches_fitD(4) [OF c(2,1)] c show ?thesis
    by (simp add: vring_used_idx_set_def virtio_stw_phys_cached_def address_space_write_cached_def address_space_cache_invalidate_def)
qed

lemma used_write_exact:
  assumes "serving s" "unat i < unat (vr_num s)"
  shows "vring_used_write eid elen i s =
    Some (s\<lparr>dma_hist := dma_hist s @ [DmaWrite (used_base s + (4 + 8 * ucast i)) (st_bytes (is_be s) 4 (unat eid) @ st_bytes (is_be s) 4 (unat elen))]\<rparr>)"
proof -
  from assms(1) obtain c where c: "vr_caches s = Some c" "queue_ok s" "\<not> ring_packed s" "used_base s = mrc_addr (rc_used c)" "virtio_is_big_endian s = Some (is_be s)"
    by (rule servingE)
  from inside_check [OF inside_rings(2) [OF c(2,1,3) assms(2)]] caches_fitD(4) [OF c(2,1)] c show ?thesis
    by (simp add: vring_used_write_def address_space_write_cached_def address_space_cache_invalidate_def)
qed

lemma ucast_plus: "(ucast (ucast (a :: u16) + (n :: u32)) :: u16) = a + ucast n"
proof -
  have "(x + n mod 2 ^ 32) mod 2 ^ 32 mod 2 ^ 16 = (x + n mod 2 ^ 16) mod (2 ^ 16 :: nat)" for x n
    by (simp add: mod_mod_cancel mod_simps)
  then show ?thesis
    by (simp add: word_unat_eq_iff unat_word_ariths unsigned_ucast_eq take_bit_eq_mod mod_mod_cancel mod_simps)
qed

lemma flush_exact:
  assumes "serving s"
  shows "virtqueue_flush n s = Some (check_signalled (used_idx s + ucast n) (used_idx s)
    (s\<lparr>dma_hist := dma_hist s @ [DmaWrite (used_base s + 2) (st_bytes (is_be s) 2 (unat (used_idx s + ucast n)))], used_idx := used_idx s + ucast n,
       inuse := inuse s - n\<rparr>))"
  using assms by (auto simp: serving_def virtqueue_flush_def virtqueue_split_flush_def used_idx_set_exact [OF assms] Let_def ucast_plus)

section \<open>Interrupts\<close>

text \<open>The index after which the driver wants an interrupt, as its memory holds it at this moment.\<close>

definition used_event :: "guest_memory \<Rightarrow> VirtQueue \<Rightarrow> u16" where
  "used_event G s = (case vr_caches s of None \<Rightarrow> 0
     | Some c \<Rightarrow> of_nat (ld_bytes (is_be s) (map (\<lambda>i. gm_byte G (dma_hist s) (mrc_addr (rc_avail c) + (4 + 2 * ucast (vr_num s)) + of_nat i)) [0..<2])))"

lemma get_used_event_exact:
  assumes "serving s" "event_idx s"
  obtains a where "vring_get_used_event G s = Some (used_event G s, s\<lparr>dma_hist := dma_hist s @ [DmaRead a 2]\<rparr>)"
proof -
  from assms(1) obtain c where c: "vr_caches s = Some c" "queue_ok s" "\<not> ring_packed s" "virtio_is_big_endian s = Some (is_be s)" by (rule servingE)
  from inside_check [OF inside_rings(1) [OF c(2,1,3), of "vr_num s"]] assms(2) c(1,4) show thesis
    by (intro that [of "mrc_addr (rc_avail c) + (4 + 2 * ucast (vr_num s))"])
      (simp add: vring_get_used_event_def vring_avail_ring_def virtio_lduw_phys_cached_def address_space_read_cached_def used_event_def)
qed

lemma need_event_window:
  assumes "D < 2 ^ 16"
  shows "vring_need_event e (a + of_nat D) a \<longleftrightarrow> (\<exists>k < D. e = a + of_nat k)"
proof -
  define k where "k = unat (e - a)"
  have e: "e = a + of_nat k" and k: "k < 2 ^ 16" using unsigned_less [of "e - a", where ?'a = nat] by (simp_all add: k_def)
  have un: "unat (of_nat x :: u16) = x" if "x < 2 ^ 16" for x using that by (simp add: unsigned_of_nat take_bit_nat_eq_self)
  have D: "unat (a + of_nat D - a) = D" using un [OF assms] by simp
  have l: "unat (a + of_nat D - e - 1) = (if k < D then D - k - 1 else 2 ^ 16 + D - k - 1)"
  proof -
    have z: "of_nat (2 ^ 16) = (0 :: u16)" unfolding of_nat_eq_0_iff by simp
    have "2 ^ 16 + D - k - 1 + (k + 1) = 2 ^ 16 + D" using k by simp
    then have "(of_nat (2 ^ 16 + D - k - 1) :: u16) + (of_nat k + 1) = of_nat (2 ^ 16) + of_nat D" by (metis of_nat_add of_nat_1)
    then have q: "a + of_nat D - e - 1 = (of_nat (2 ^ 16 + D - k - 1) :: u16)"
      unfolding z e by (simp add: algebra_simps)
    show ?thesis unfolding q using k assms by (auto simp: unsigned_of_nat take_bit_eq_mod mod_if simp del: of_nat_add of_nat_diff)
  qed
  have "vring_need_event e (a + of_nat D) a \<longleftrightarrow> k < D"
    unfolding vring_need_event_def word_less_nat_alt l D using k assms by auto
  moreover have "(\<exists>j < D. e = a + of_nat j) \<longleftrightarrow> k < D"
    using e k assms un by (auto simp: k_def)
  ultimately show ?thesis by simp
qed

text \<open>\<open>D\<close> entries were published since the used index was last compared with the driver's, when it was \<open>a\<close>.\<close>

definition published :: "u16 \<Rightarrow> nat \<Rightarrow> VirtQueue \<Rightarrow> bool" where
  "published a D s \<longleftrightarrow> serving s \<and> signalled_used s = a \<and> used_idx s = a + of_nat D \<and> (signalled_used_valid s \<longleftrightarrow> D < 2 ^ 15)"

lemma serving_cong: "ring_config t = ring_config s \<Longrightarrow> virtio_device_disabled t = virtio_device_disabled s \<Longrightarrow> serving t = serving s"
  using config_ok [of t s] config_features [of t s] config_fields [of t s] by (simp add: serving_def)

lemma sint_of_nat16:
  assumes "x < 2 ^ 16"
  shows "sint (of_nat x :: u16) = (if x < 2 ^ 15 then int x else int x - 2 ^ 16)"
proof -
  have "sint (of_nat x :: u16) = (int x + 2 ^ 15) mod 2 ^ 16 - 2 ^ 15"
    by (simp add: signed_of_nat signed_take_bit_eq_take_bit_shift take_bit_eq_mod)
  moreover have "(int x + 2 ^ 15) mod 2 ^ 16 = (if x < 2 ^ 15 then int x + 2 ^ 15 else int x - 2 ^ 15)"
  proof (cases "x < 2 ^ 15")
    case False
    then have "(int x + 2 ^ 15) mod 2 ^ 16 = (int x - 2 ^ 15 + 2 ^ 16) mod 2 ^ 16" by (simp add: add.commute)
    also have "\<dots> = int x - 2 ^ 15" unfolding mod_add_self2 using False assms by (intro mod_pos_pos_trivial) auto
    finally show ?thesis using False by simp
  qed simp
  ultimately show ?thesis by simp
qed

lemma flush_published:
  assumes "published a D s" "unat n \<le> 1024"
  shows "\<exists>t. virtqueue_flush n s = Some t \<and> published a (D + unat n) t \<and> ring_config t = ring_config s \<and> vq_vector t = vq_vector s \<and> vd_isr t = vd_isr s"
proof -
  have s: "serving s" "signalled_used s = a" "used_idx s = a + of_nat D" "signalled_used_valid s \<longleftrightarrow> D < 2 ^ 15"
    using assms(1) by (auto simp: published_def)
  define h where "h = dma_hist s @ [DmaWrite (used_base s + 2) (st_bytes (is_be s) 2 (unat (used_idx s + ucast n)))]"
  define u where "u = s\<lparr>dma_hist := h, used_idx := used_idx s + ucast n, inuse := inuse s - n\<rparr>"
  define t where "t = check_signalled (used_idx s + ucast n) (used_idx s) u"
  have f: "virtqueue_flush n s = Some t" unfolding t_def u_def h_def by (rule flush_exact [OF s(1)])
  have n: "(ucast n :: u16) = of_nat (unat n)" "unat (of_nat (unat n) :: u16) = unat n"
    using assms(2) by (simp_all add: unsigned_ucast_eq take_bit_nat_eq_self)
  have d: "used_idx s + ucast n - used_idx s = of_nat (unat n)" "used_idx s + ucast n - a = of_nat (D + unat n)"
    by (simp_all add: s(3))
  have su: "signalled_used u = a" "signalled_used_valid u = signalled_used_valid s" by (simp_all add: u_def s(2))
  have t: "t = (if sint (of_nat (D + unat n) :: u16) < uint (of_nat (unat n) :: u16) then u\<lparr>signalled_used_valid := False\<rparr> else u)"
    unfolding t_def check_signalled_def su(1) d ..
  have v: "signalled_used_valid t \<longleftrightarrow> D + unat n < 2 ^ 15"
  proof (cases "D < 2 ^ 15")
    case True
    have lt: "D + unat n < 2 ^ 16" using True assms(2) by simp
    have u: "uint (of_nat (unat n) :: u16) = int (unat n)" using uint_nat [of "of_nat (unat n) :: u16"] n(2) by (simp only:)
    have v: "signalled_used_valid s" using s(4) True by simp
    show ?thesis unfolding t sint_of_nat16 [OF lt] u using lt v by (simp add: su(2))
  next
    case False
    then show ?thesis using s(4) by (simp add: t su(2))
  qed
  have c: "ring_config t = ring_config s" "virtio_device_disabled t = virtio_device_disabled s" "used_idx t = used_idx s + ucast n"
      "signalled_used t = a" "vq_vector t = vq_vector s" "vd_isr t = vd_isr s"
    using s(2) by (simp_all add: t_def u_def check_signalled_def ring_config_def virtio_device_disabled_def)
  have "published a (D + unat n) t"
    using serving_cong [OF c(1,2)] s(1,3) c(3,4) v by (simp add: published_def)
  then show ?thesis using f c by blast
qed

lemma flushes_published:
  "published a D s \<Longrightarrow> list_all (\<lambda>n. unat n \<le> 1024) ns \<Longrightarrow>
   \<exists>t. run_ops virtqueue_flush ns s = Some t \<and> published a (D + sum_list (map unat ns)) t \<and> ring_config t = ring_config s \<and>
     vq_vector t = vq_vector s \<and> vd_isr t = vd_isr s"
proof (induction ns arbitrary: s D)
  case Nil
  then show ?case by simp
next
  case (Cons n ns)
  obtain u where u: "virtqueue_flush n s = Some u" "published a (D + unat n) u" "ring_config u = ring_config s" "vq_vector u = vq_vector s" "vd_isr u = vd_isr s"
    using flush_published [of a D s n] Cons.prems by auto
  then show ?case using Cons.IH [OF u(2)] Cons.prems by (auto simp: add.assoc)
qed

lemma should_notify_exact:
  assumes "serving s" "event_idx s" "\<not> virtio_vdev_has_feature s VIRTIO_F_NOTIFY_ON_EMPTY"
  obtains es where "virtio_should_notify G s = Some (\<not> signalled_used_valid s \<or> vring_need_event (used_event G s) (used_idx s) (signalled_used s),
      s\<lparr>signalled_used_valid := True, signalled_used := used_idx s, dma_hist := dma_hist s @ es\<rparr>)" "\<forall>v. NotifyVector v \<notin> set es"
proof -
  define t where "t = s\<lparr>signalled_used_valid := True, signalled_used := used_idx s\<rparr>"
  have f: "virtio_vdev_has_feature t k = virtio_vdev_has_feature s k" for k by (simp add: t_def virtio_vdev_has_feature_def)
  have "serving t" using assms(1) serving_cong [of t s] by (simp add: t_def ring_config_def virtio_device_disabled_def)
  then obtain a where a: "vring_get_used_event G t = Some (used_event G t, t\<lparr>dma_hist := dma_hist t @ [DmaRead a 2]\<rparr>)"
    using get_used_event_exact [of t G] assms(2) f by blast
  have be: "is_be t = is_be s" unfolding is_be_def virtio_is_big_endian_def f by (simp add: t_def)
  have e: "used_event G t = used_event G s" unfolding used_event_def be by (cases "vr_caches s") (simp_all add: t_def)
  have p: "\<not> ring_packed s" using assms(1) by (simp add: serving_def)
  show thesis
  proof (cases "signalled_used_valid s")
    case True
    have "virtio_should_notify G s = do { (e, u) \<leftarrow> vring_get_used_event G t; Some (vring_need_event e (used_idx s) (signalled_used s), u) }"
      unfolding virtio_should_notify_def virtio_split_should_notify_def t_def using True p assms(2,3) by (simp add: Let_def)
    then show thesis using True unfolding a e by (intro that [of "[DmaRead a 2]"]) (simp_all add: t_def)
  next
    case False
    then show thesis using that [of "[]"] p assms(2,3)
      by (simp add: virtio_should_notify_def virtio_split_should_notify_def Let_def)
  qed
qed

lemma virtio_irq_exact:
  assumes "\<not> virtio_device_disabled s"
  shows "dma_hist (virtio_irq s) = dma_hist s @ [NotifyVector (vq_vector s)]" "bit (vd_isr (virtio_irq s)) 0"
proof -
  have old: "bit x 0" if "x AND 1 = 1" for x :: u8 using that by (simp add: and_one_eq bit_0 odd_iff_mod_2_eq_one)
  have new: "bit (x OR 1) 0" for x :: u8 by (simp add: bit_or_iff)
  show "dma_hist (virtio_irq s) = dma_hist s @ [NotifyVector (vq_vector s)]" "bit (vd_isr (virtio_irq s)) 0"
    using assms old [of "vd_isr s"] new [of "vd_isr s"]
    by (simp_all add: virtio_irq_def virtio_notify_vector_def virtio_set_isr_def virtio_device_disabled_def Let_def)
qed

text \<open>
  C9.  No interrupt the driver asked for is lost.  With the \<open>EVENT_IDX\<close> feature, and without \<open>NOTIFY_ON_EMPTY\<close>,
  the driver names the used index after
  which it wants an interrupt, and may move it at any time.  After the device last decided, it returns elements
  in any number of batches, wrapping the 16-bit indexes as often as it likes, and decides again: if the index the
  driver names at that moment is among the entries published in between, the interrupt is raised; and as long as
  fewer than 32768 entries were published, it is raised only then.
\<close>

theorem no_interrupt_lost:
  assumes "serving s" "event_idx s" "\<not> virtio_vdev_has_feature s VIRTIO_F_NOTIFY_ON_EMPTY"
    and "virtio_should_notify G s = Some (b, s')" "list_all (\<lambda>n. n \<le> vr_num s) ns"
  shows "\<exists>t u. run_ops virtqueue_flush ns s' = Some t \<and> virtio_notify G t = Some u \<and>
    ((\<exists>k < sum_list (map unat ns). used_event G t = used_idx s + of_nat k) \<longrightarrow> (\<exists>h. dma_hist u = h @ [NotifyVector (vq_vector s)]) \<and> bit (vd_isr u) 0) \<and>
    (sum_list (map unat ns) < 2 ^ 15 \<longrightarrow> \<not> (\<exists>k < sum_list (map unat ns). used_event G t = used_idx s + of_nat k) \<longrightarrow>
       (\<exists>es. dma_hist u = dma_hist t @ es \<and> (\<forall>v. NotifyVector v \<notin> set es)) \<and> vd_isr u = vd_isr s)"
proof -
  let ?D = "sum_list (map unat ns)"
  obtain es where es: "s' = s\<lparr>signalled_used_valid := True, signalled_used := used_idx s, dma_hist := dma_hist s @ es\<rparr>"
    using should_notify_exact [OF assms(1-3), of G] assms(4) by auto
  have s': "ring_config s' = ring_config s" "vq_vector s' = vq_vector s" "vd_isr s' = vd_isr s" "virtio_device_disabled s' = virtio_device_disabled s"
    by (simp_all add: es ring_config_def virtio_device_disabled_def)
  have "published (used_idx s) 0 s'" using assms(1) serving_cong [OF s'(1,4)] by (simp add: published_def es)
  moreover have "list_all (\<lambda>n. unat n \<le> 1024) ns"
    using assms(1,5) unat_num_bound [of s] by (fastforce simp: serving_def list_all_iff word_le_nat_alt)
  ultimately obtain t where t: "run_ops virtqueue_flush ns s' = Some t" "published (used_idx s) ?D t" "ring_config t = ring_config s"
      "vq_vector t = vq_vector s" "vd_isr t = vd_isr s"
    using flushes_published [of "used_idx s" 0 s' ns] s' by auto
  have sv: "serving t" "signalled_used t = used_idx s" "used_idx t = used_idx s + of_nat ?D" "signalled_used_valid t \<longleftrightarrow> ?D < 2 ^ 15"
    using t(2) by (auto simp: published_def)
  obtain es where n: "virtio_should_notify G t = Some (\<not> signalled_used_valid t \<or> vring_need_event (used_event G t) (used_idx t) (signalled_used t),
      t\<lparr>signalled_used_valid := True, signalled_used := used_idx t, dma_hist := dma_hist t @ es\<rparr>)" "\<forall>v. NotifyVector v \<notin> set es"
    using should_notify_exact [OF sv(1), of G] assms(2,3) config_features [OF t(3)] by auto
  have w: "vring_need_event (used_event G t) (used_idx t) (signalled_used t) \<longleftrightarrow> (\<exists>k < ?D. used_event G t = used_idx s + of_nat k)" if "?D < 2 ^ 15"
    unfolding sv(2,3) using that by (intro need_event_window) simp
  define v where "v = t\<lparr>signalled_used_valid := True, signalled_used := used_idx t, dma_hist := dma_hist t @ es\<rparr>"
  have v: "\<not> virtio_device_disabled v" "vq_vector v = vq_vector s" "vd_isr v = vd_isr s" "dma_hist v = dma_hist t @ es"
    using sv(1) t(4,5) by (simp_all add: v_def serving_def virtio_device_disabled_def)
  define b where "b \<longleftrightarrow> \<not> signalled_used_valid t \<or> vring_need_event (used_event G t) (used_idx t) (signalled_used t)"
  have u: "virtio_notify G t = Some (if b then virtio_irq v else v)"
    unfolding virtio_notify_def n(1) v_def b_def by simp
  have b: "(\<exists>k < ?D. used_event G t = used_idx s + of_nat k) \<Longrightarrow> b" "?D < 2 ^ 15 \<Longrightarrow> b \<Longrightarrow> \<exists>k < ?D. used_event G t = used_idx s + of_nat k"
    using w sv(4) by (auto simp: b_def)
  show ?thesis
    using t(1) u b virtio_irq_exact [OF v(1)] v n(2) by (intro exI [of _ t] exI [of _ "if b then virtio_irq v else v"]) auto
qed

definition example_caches :: VRingMemoryRegionCaches where
  "example_caches = \<lparr>rc_desc = \<lparr>mrc_addr = 0x1000, mrc_len = 64, mrc_is_write = False\<rparr>,
     rc_avail = \<lparr>mrc_addr = 0x2000, mrc_len = 14, mrc_is_write = False\<rparr>, rc_used = \<lparr>mrc_addr = 0x3000, mrc_len = 38, mrc_is_write = True\<rparr>\<rparr>"

definition example_serving :: VirtQueue where
  "example_serving = example_queue\<lparr>guest_features := 0x120000000, vr_caches := Some example_caches\<rparr>"

lemma example_serving_ok:
  "serving example_serving" "event_idx example_serving" "\<not> virtio_vdev_has_feature example_serving VIRTIO_F_NOTIFY_ON_EMPTY"
  by (simp_all add: serving_def queue_ok_def caches_fit_def example_serving_def example_queue_def example_caches_def virtio_is_big_endian_def
      virtio_vdev_has_feature_def virtio_has_feature_def virtio_constants virtio_device_disabled_def
      virtio_queue_get_desc_size_def virtio_queue_get_avail_size_def virtio_queue_get_used_size_def sizeof_VRingDesc_def)

lemma example_serving_decides:
  "virtio_should_notify example_guest example_serving = Some (True, example_serving\<lparr>signalled_used_valid := True, signalled_used := 0\<rparr>)"
  using example_serving_ok
  by (simp add: virtio_should_notify_def virtio_split_should_notify_def serving_def Let_def)
    (simp add: example_serving_def example_queue_def)

theorem no_interrupt_lost_witness:
  "\<exists>t u. run_ops virtqueue_flush [1, 2] (example_serving\<lparr>signalled_used_valid := True, signalled_used := 0\<rparr>) = Some t \<and>
    virtio_notify example_guest t = Some u \<and>
    (used_event example_guest t = 0 \<longrightarrow> (\<exists>h. dma_hist u = h @ [NotifyVector (vq_vector example_serving)]))"
proof -
  have ns: "list_all (\<lambda>n. n \<le> vr_num example_serving) [1, 2]" "used_idx example_serving = 0" by (simp_all add: example_serving_def example_queue_def)
  have "\<exists>k < sum_list (map unat [1, 2 :: u32]). (0 :: u16) = 0 + of_nat k" by (intro exI [of _ 0]) simp
  then show ?thesis using no_interrupt_lost [OF example_serving_ok example_serving_decides ns(1)] unfolding ns(2) by metis
qed

section \<open>The used ring\<close>

text \<open>Guest memory after the writes of a history.\<close>

definition store_bytes :: "(u64 \<Rightarrow> u8) \<Rightarrow> u64 \<Rightarrow> u8 list \<Rightarrow> u64 \<Rightarrow> u8" where
  "store_bytes m a bs x = (if unat (x - a) < length bs then bs ! unat (x - a) else m x)"

fun store_event :: "(u64 \<Rightarrow> u8) \<Rightarrow> dma_event \<Rightarrow> u64 \<Rightarrow> u8" where
  "store_event m (DmaWrite a bs) = store_bytes m a bs"
| "store_event m _ = m"

definition guest_sees :: "(u64 \<Rightarrow> u8) \<Rightarrow> dma_event list \<Rightarrow> u64 \<Rightarrow> u8" where
  "guest_sees m h = foldl store_event m h"

definition fetch :: "(u64 \<Rightarrow> u8) \<Rightarrow> u64 \<Rightarrow> nat \<Rightarrow> nat \<Rightarrow> u8 list" where
  "fetch m u off n = map (\<lambda>i. m (u + of_nat (off + i))) [0..<n]"

lemma store_at:
  assumes "x < 2 ^ 32" "a < 2 ^ 32" "length bs < 2 ^ 32"
  shows "store_bytes m (u + of_nat a) bs (u + of_nat x) = (if a \<le> x \<and> x < a + length bs then bs ! (x - a) else m (u + of_nat x))"
proof -
  have "unat (u + of_nat x - (u + of_nat a)) = (if a \<le> x then x - a else 2 ^ 64 - (a - x))"
  proof (cases "a \<le> x")
    case True
    then have "u + of_nat x - (u + of_nat a) = (of_nat (x - a) :: u64)" by (simp add: of_nat_diff)
    then show ?thesis using True assms by (simp add: unsigned_of_nat take_bit_nat_eq_self del: of_nat_diff)
  next
    case False
    have z: "of_nat (2 ^ 64) = (0 :: u64)" unfolding of_nat_eq_0_iff by simp
    have "2 ^ 64 - (a - x) + a = 2 ^ 64 + x" using False assms by simp
    then have "(of_nat (2 ^ 64 - (a - x)) :: u64) + of_nat a = of_nat (2 ^ 64) + of_nat x" by (metis of_nat_add)
    then have q: "u + of_nat x - (u + of_nat a) = (of_nat (2 ^ 64 - (a - x)) :: u64)" unfolding z by (simp add: algebra_simps)
    show ?thesis unfolding q using False by (simp add: unsigned_of_nat take_bit_nat_eq_self del: of_nat_diff)
  qed
  then show ?thesis using assms by (auto simp: store_bytes_def)
qed

lemma fetch_store:
  assumes "off + n < 2 ^ 32" "a < 2 ^ 32" "length bs < 2 ^ 32"
  shows "a \<le> off \<Longrightarrow> off + n \<le> a + length bs \<Longrightarrow> fetch (store_bytes m (u + of_nat a) bs) u off n = take n (drop (off - a) bs)"
    "off + n \<le> a \<or> a + length bs \<le> off \<Longrightarrow> fetch (store_bytes m (u + of_nat a) bs) u off n = fetch m u off n"
proof -
  have at: "store_bytes m (u + of_nat a) bs (u + of_nat (off + i)) =
      (if a \<le> off + i \<and> off + i < a + length bs then bs ! (off + i - a) else m (u + of_nat (off + i)))" if "i < n" for i
    using assms that by (intro store_at) auto
  show "fetch (store_bytes m (u + of_nat a) bs) u off n = take n (drop (off - a) bs)" if "a \<le> off" "off + n \<le> a + length bs"
    using that by (intro nth_equalityI) (simp_all add: fetch_def at del: of_nat_add)
  show "fetch (store_bytes m (u + of_nat a) bs) u off n = fetch m u off n" if "off + n \<le> a \<or> a + length bs \<le> off"
    using that by (auto simp: fetch_def at simp del: of_nat_add intro!: map_cong)
qed

lemma ld_st: "ld_bytes be (st_bytes be n v) = v mod 256 ^ n"
proof -
  have "le_nat (le_bytes n v) = v mod 256 ^ n" for n v
    by (induction n arbitrary: v) (simp_all add: unsigned_of_nat take_bit_eq_mod mod_mult2_eq)
  then show ?thesis by (simp add: ld_bytes_def st_bytes_def)
qed

text \<open>What the driver reads: the used index, and the entry of an index.\<close>

definition driver_used_idx :: "bool \<Rightarrow> u64 \<Rightarrow> (u64 \<Rightarrow> u8) \<Rightarrow> u16" where
  "driver_used_idx be u m = of_nat (ld_bytes be (fetch m u 2 2))"

definition driver_used_elem :: "bool \<Rightarrow> u64 \<Rightarrow> u32 \<Rightarrow> (u64 \<Rightarrow> u8) \<Rightarrow> u16 \<Rightarrow> u32 \<times> u32" where
  "driver_used_elem be u num m j =
     (let o1 = 4 + 8 * (unat j mod unat num) in (of_nat (ld_bytes be (fetch m u o1 4)), of_nat (ld_bytes be (fetch m u (o1 + 4) 4))))"

lemma driver_idx_store:
  "driver_used_idx be u (store_bytes m (u + 2) (st_bytes be 2 (unat v))) = v"
  "driver_used_idx be u (store_bytes m (u + of_nat (4 + 8 * k)) (st_bytes be 4 a @ st_bytes be 4 b)) = driver_used_idx be u m" if "k < 1024"
proof -
  have "unat v mod 2 ^ 16 = unat v" using unsigned_less [of v, where ?'a = nat] by simp
  then show "driver_used_idx be u (store_bytes m (u + 2) (st_bytes be 2 (unat v))) = v"
    using fetch_store(1) [of 2 2 2 "st_bytes be 2 (unat v)" m u] by (simp add: driver_used_idx_def ld_st)
  show "driver_used_idx be u (store_bytes m (u + of_nat (4 + 8 * k)) (st_bytes be 4 a @ st_bytes be 4 b)) = driver_used_idx be u m"
    using that fetch_store(2) [of 2 2 "4 + 8 * k" "st_bytes be 4 a @ st_bytes be 4 b" m u] by (simp add: driver_used_idx_def del: of_nat_add of_nat_mult)
qed

lemma driver_elem_store:
  assumes "unat num \<le> 1024" "0 < unat num"
  shows "driver_used_elem be u num (store_bytes m (u + 2) (st_bytes be 2 v)) j = driver_used_elem be u num m j"
    "driver_used_elem be u num (store_bytes m (u + of_nat (4 + 8 * (unat j mod unat num))) (st_bytes be 4 (unat a) @ st_bytes be 4 (unat b))) j = (a, b)"
    "unat i mod unat num \<noteq> unat j mod unat num \<Longrightarrow>
     driver_used_elem be u num (store_bytes m (u + of_nat (4 + 8 * (unat j mod unat num))) (st_bytes be 4 x @ st_bytes be 4 y)) i = driver_used_elem be u num m i"
proof -
  have k: "unat i mod unat num < 1024" for i :: u16 using assms by (meson less_le_trans mod_less_divisor)
  have w: "of_nat (unat a mod 4294967296) = a" for a :: u32
  proof -
    have "unat a mod 4294967296 = unat a" using unsigned_less [of a, where ?'a = nat] by simp
    then show ?thesis by simp
  qed
  show "driver_used_elem be u num (store_bytes m (u + 2) (st_bytes be 2 v)) j = driver_used_elem be u num m j"
    using k [of j] fetch_store(2) [of _ 4 2 "st_bytes be 2 v" m u] by (simp add: driver_used_elem_def Let_def)
  show "driver_used_elem be u num (store_bytes m (u + of_nat (4 + 8 * (unat j mod unat num))) (st_bytes be 4 (unat a) @ st_bytes be 4 (unat b))) j = (a, b)"
    using k [of j] fetch_store(1) [of _ 4 "4 + 8 * (unat j mod unat num)" "st_bytes be 4 (unat a) @ st_bytes be 4 (unat b)" m u]
    by (simp add: driver_used_elem_def Let_def ld_st w del: of_nat_add of_nat_mult)
  show "driver_used_elem be u num (store_bytes m (u + of_nat (4 + 8 * (unat j mod unat num))) (st_bytes be 4 x @ st_bytes be 4 y)) i = driver_used_elem be u num m i"
    if "unat i mod unat num \<noteq> unat j mod unat num"
    using that k [of i] k [of j] fetch_store(2) [of _ 4 "4 + 8 * (unat j mod unat num)" "st_bytes be 4 x @ st_bytes be 4 y" m u]
    by (cases "unat i mod unat num < unat j mod unat num") (simp_all add: driver_used_elem_def Let_def del: of_nat_add of_nat_mult)
qed

lemma unmap_in_exact: "\<exists>us. unmap_in_sg len off vs s = s\<lparr>dma_hist := dma_hist s @ us\<rparr> \<and> (\<forall>m. \<forall>e \<in> set us. store_event m e = m)"
proof (induction len off vs s rule: unmap_in_sg.induct)
  case (2 len off v vs s)
  then show ?case by (fastforce simp: Let_def intro: exI [of _ "_ # _"])
qed (auto intro: exI [of _ "[]"])

lemma unmap_out_exact: "\<exists>us. unmap_out_sg vs s = s\<lparr>dma_hist := dma_hist s @ us\<rparr> \<and> (\<forall>m. \<forall>e \<in> set us. store_event m e = m)"
  by (induction vs s rule: unmap_out_sg.induct) (fastforce intro: exI [of _ "[]"] exI [of _ "_ # _"])+

lemma unmap_exact:
  obtains us where "virtqueue_unmap_sg e len s = s\<lparr>dma_hist := dma_hist s @ us\<rparr>" "\<forall>m. \<forall>e \<in> set us. store_event m e = m"
proof -
  obtain us1 where u1: "unmap_in_sg len 0 (in_sg e) s = s\<lparr>dma_hist := dma_hist s @ us1\<rparr>" "\<forall>m. \<forall>e \<in> set us1. store_event m e = m"
    using unmap_in_exact by blast
  obtain us2 where u2: "unmap_out_sg (out_sg e) (s\<lparr>dma_hist := dma_hist s @ us1\<rparr>) = s\<lparr>dma_hist := dma_hist s @ us1, dma_hist := (dma_hist s @ us1) @ us2\<rparr>"
    "\<forall>m. \<forall>e \<in> set us2. store_event m e = m"
    using unmap_out_exact [of "out_sg e" "s\<lparr>dma_hist := dma_hist s @ us1\<rparr>"] by auto
  show thesis using u1(2) u2(2) by (intro that [of "us1 @ us2"]) (auto simp: virtqueue_unmap_sg_def u1(1) u2(1))
qed

lemma push_exact:
  assumes "serving s"
  obtains us t where "virtqueue_push e len s = Some t" "\<forall>m. \<forall>e \<in> set us. store_event m e = m"
    "dma_hist t = dma_hist s @ us @
      [DmaWrite (used_base s + of_nat (4 + 8 * (unat (used_idx s) mod unat (vr_num s)))) (st_bytes (is_be s) 4 (unat (ve_index e)) @ st_bytes (is_be s) 4 (unat len)),
       DmaWrite (used_base s + 2) (st_bytes (is_be s) 2 (unat (used_idx s + 1)))]"
    "used_idx t = used_idx s + 1" "ring_config t = ring_config s" "virtio_device_disabled t = virtio_device_disabled s"
proof -
  obtain us where us: "virtqueue_unmap_sg e len s = s\<lparr>dma_hist := dma_hist s @ us\<rparr>" "\<forall>m. \<forall>e \<in> set us. store_event m e = m"
    by (rule unmap_exact)
  define u where "u = s\<lparr>dma_hist := dma_hist s @ us\<rparr>"
  have c: "ring_config u = ring_config s" "virtio_device_disabled u = virtio_device_disabled s" by (simp_all add: u_def ring_config_def virtio_device_disabled_def)
  have su: "serving u" using serving_cong [OF c] assms by simp
  have same: "used_base u = used_base s" "is_be u = is_be s" "used_idx u = used_idx s" "vr_num u = vr_num s" "vr_used u = vr_used s"
    "in_order u = in_order s" "ring_packed u = ring_packed s"
    by (simp_all add: u_def used_base_def is_be_def virtio_is_big_endian_def virtio_vdev_has_feature_def)
  define i where "i = (ucast (used_idx s) :: u32) mod vr_num s"
  have n: "vr_num s \<noteq> 0" "unat (vr_num s) \<le> 1024" "0 < unat (vr_num s)" using assms unat_num_bound [of s] by (auto simp: serving_def queue_ok_def)
  have i: "unat i = unat (used_idx s) mod unat (vr_num s)" "unat i < unat (vr_num s)"
    using n(3) unsigned_less [of "used_idx s", where ?'a = nat] by (simp_all add: i_def unat_mod_distrib unsigned_ucast_eq take_bit_nat_eq_self)
  define e1 where "e1 = DmaWrite (used_base s + (4 + 8 * ucast i)) (st_bytes (is_be s) 4 (unat (ve_index e)) @ st_bytes (is_be s) 4 (unat len))"
  define v where "v = u\<lparr>dma_hist := dma_hist u @ [e1]\<rparr>"
  have fill: "virtqueue_fill e len 0 s = Some v"
    using su used_write_exact [OF su, of i "ve_index e" len] i(2) n(1)
    unfolding virtqueue_fill_def us(1) u_def [symmetric] Let_def virtqueue_split_fill_def umod_def
    by (simp add: serving_def same i_def [symmetric] e1_def v_def)
  have cv: "ring_config v = ring_config s" "virtio_device_disabled v = virtio_device_disabled s"
    using c by (simp_all add: v_def ring_config_def virtio_device_disabled_def)
  have sv: "serving v" using serving_cong [OF cv] assms by simp
  have same': "used_base v = used_base s" "is_be v = is_be s" "used_idx v = used_idx s" "dma_hist v = dma_hist s @ us @ [e1]"
    by (simp_all add: v_def u_def used_base_def is_be_def virtio_is_big_endian_def virtio_vdev_has_feature_def)
  define t where "t = check_signalled (used_idx v + 1) (used_idx v)
    (v\<lparr>dma_hist := dma_hist v @ [DmaWrite (used_base v + 2) (st_bytes (is_be v) 2 (unat (used_idx v + 1)))], used_idx := used_idx v + 1, inuse := inuse v - 1\<rparr>)"
  have "virtqueue_push e len s = Some t" using flush_exact [OF sv, of 1] by (simp add: virtqueue_push_def fill t_def)
  moreover have "used_base s + (4 + 8 * ucast i) = used_base s + of_nat (4 + 8 * unat i)" by simp
  ultimately show thesis using us(2) cv same'
    by (intro that [of t us]) (simp_all add: t_def check_signalled_def ring_config_def virtio_device_disabled_def e1_def i(1))
qed

text \<open>The driver sees the first \<open>k\<close> of the elements returned since the used index was \<open>a\<close>.\<close>

definition shows_upto :: "bool \<Rightarrow> u64 \<Rightarrow> u32 \<Rightarrow> u16 \<Rightarrow> (VirtQueueElement \<times> u32) list \<Rightarrow> nat \<Rightarrow> (u64 \<Rightarrow> u8) \<Rightarrow> bool" where
  "shows_upto be u num a es k m \<longleftrightarrow> driver_used_idx be u m = a + of_nat k \<and>
     (\<forall>i < k. driver_used_elem be u num m (a + of_nat i) = (ve_index (fst (es ! i)), snd (es ! i)))"

lemma slots_apart:
  assumes "N dvd 2 ^ 16" "i < n" "n < N"
  shows "unat (a + of_nat i :: u16) mod N \<noteq> unat (a + of_nat n) mod N"
proof
  have m: "unat (a + of_nat i :: u16) mod N = (unat a + i) mod N" for i
    using assms(1) by (simp add: unat_word_ariths unsigned_of_nat take_bit_eq_mod mod_simps mod_mod_cancel)
  assume "unat (a + of_nat i) mod N = unat (a + of_nat n) mod N"
  then have "N dvd (unat a + n) - (unat a + i)" unfolding m using assms(2) by (metis add_le_cancel_left less_imp_le mod_eq_dvd_iff_nat)
  then show False using assms(2,3) by (auto dest: dvd_imp_le)
qed

lemma shows_push:
  fixes e :: VirtQueueElement and len :: u32
  assumes "shows_upto be u num a es (length es) m" "unat num dvd 2 ^ 16" "length es < unat num" "unat num \<le> 1024"
  defines "m1 \<equiv> store_bytes m (u + of_nat (4 + 8 * (unat (a + of_nat (length es)) mod unat num))) (st_bytes be 4 (unat (ve_index e)) @ st_bytes be 4 (unat len))"
  shows "shows_upto be u num a (es @ [(e, len)]) (length es) m1"
    "shows_upto be u num a (es @ [(e, len)]) (Suc (length es)) (store_bytes m1 (u + 2) (st_bytes be 2 (unat (a + of_nat (length es) + 1))))"
proof -
  let ?n = "length es"
  have n: "0 < unat num" using assms(3) by simp
  have k: "unat (a + of_nat ?n) mod unat num < 1024" using n assms(4) by (meson less_le_trans mod_less_divisor)
  have old: "driver_used_elem be u num m1 (a + of_nat i) = (ve_index (fst (es ! i)), snd (es ! i))" if "i < ?n" for i
    using assms(1) that driver_elem_store(3) [OF assms(4) n slots_apart [OF assms(2) that assms(3), of a]] by (simp add: m1_def shows_upto_def)
  have new: "driver_used_elem be u num m1 (a + of_nat ?n) = (ve_index e, len)"
    unfolding m1_def by (rule driver_elem_store(2) [OF assms(4) n])
  have idx: "driver_used_idx be u m1 = a + of_nat ?n" using assms(1) driver_idx_store(2) [OF k] by (simp add: m1_def shows_upto_def)
  show "shows_upto be u num a (es @ [(e, len)]) ?n m1" using old idx by (simp add: shows_upto_def nth_append)
  show "shows_upto be u num a (es @ [(e, len)]) (Suc ?n) (store_bytes m1 (u + 2) (st_bytes be 2 (unat (a + of_nat ?n + 1))))"
    unfolding shows_upto_def driver_idx_store(1) [OF k] driver_elem_store(1) [OF assms(4) n]
    using old new by (auto simp: nth_append less_Suc_eq)
qed

lemma guest_sees_simps [simp]: "guest_sees m [] = m" "guest_sees m (g @ h) = guest_sees (guest_sees m g) h" "guest_sees m (e # h) = guest_sees (store_event m e) h"
  by (simp_all add: guest_sees_def)

lemma guest_sees_silent: "\<forall>m. \<forall>e \<in> set us. store_event m e = m \<Longrightarrow> guest_sees m us = m"
  by (induction us arbitrary: m) auto

lemma completions_run:
  assumes "serving s" "unat (vr_num s) dvd 2 ^ 16" "driver_used_idx (is_be s) (used_base s) m = used_idx s" "length es \<le> unat (vr_num s)"
  shows "\<exists>t w. run_ops (\<lambda>(e, len). virtqueue_push e len) es s = Some t \<and> dma_hist t = dma_hist s @ w \<and>
    ring_config t = ring_config s \<and> virtio_device_disabled t = virtio_device_disabled s \<and> used_idx t = used_idx s + of_nat (length es) \<and>
    (\<forall>j. \<exists>k \<le> length es. shows_upto (is_be s) (used_base s) (vr_num s) (used_idx s) es k (guest_sees m (take j w))) \<and>
    shows_upto (is_be s) (used_base s) (vr_num s) (used_idx s) es (length es) (guest_sees m w)"
  using assms(4)
proof (induction es rule: rev_induct)
  case Nil
  then show ?case using assms(3) by (auto simp: shows_upto_def intro!: exI [of _ s] exI [of _ "[]"])
next
  case (snoc x es)
  obtain e len where x: "x = (e, len)" by (cases x)
  let ?shows = "shows_upto (is_be s) (used_base s) (vr_num s) (used_idx s)"
  obtain t w where t: "run_ops (\<lambda>(e, len). virtqueue_push e len) es s = Some t" "dma_hist t = dma_hist s @ w"
      "ring_config t = ring_config s" "virtio_device_disabled t = virtio_device_disabled s" "used_idx t = used_idx s + of_nat (length es)"
      "\<And>j. \<exists>k \<le> length es. ?shows es k (guest_sees m (take j w))" "?shows es (length es) (guest_sees m w)"
    using snoc by auto
  have same: "used_base t = used_base s" "is_be t = is_be s" "vr_num t = vr_num s"
    using t(3) by (simp_all add: used_base_def is_be_def virtio_is_big_endian_def virtio_vdev_has_feature_def ring_config_def)
  have st: "serving t" using assms(1) serving_cong [OF t(3,4)] by simp
  obtain us v where v: "virtqueue_push e len t = Some v" "\<forall>m. \<forall>e \<in> set us. store_event m e = m"
    "dma_hist v = dma_hist t @ us @
      [DmaWrite (used_base t + of_nat (4 + 8 * (unat (used_idx t) mod unat (vr_num t)))) (st_bytes (is_be t) 4 (unat (ve_index e)) @ st_bytes (is_be t) 4 (unat len)),
       DmaWrite (used_base t + 2) (st_bytes (is_be t) 2 (unat (used_idx t + 1)))]"
    "used_idx v = used_idx t + 1" "ring_config v = ring_config t" "virtio_device_disabled v = virtio_device_disabled t"
    by (rule push_exact [OF st])
  define d1 where "d1 = DmaWrite (used_base s + of_nat (4 + 8 * (unat (used_idx s + of_nat (length es)) mod unat (vr_num s))))
    (st_bytes (is_be s) 4 (unat (ve_index e)) @ st_bytes (is_be s) 4 (unat len))"
  define d2 where "d2 = DmaWrite (used_base s + 2) (st_bytes (is_be s) 2 (unat (used_idx s + of_nat (length es) + 1)))"
  have hist: "dma_hist v = dma_hist s @ w @ us @ [d1, d2]" unfolding d1_def d2_def v(3) t(2,5) same by simp
  have n: "length es < unat (vr_num s)" "unat (vr_num s) \<le> 1024" using snoc.prems unat_num_bound [of s] assms(1) by (simp_all add: serving_def)
  note p = shows_push [OF t(7) assms(2) n, of e len]
  have quiet: "guest_sees (guest_sees m w) (take j us) = guest_sees m w" for j
    using v(2) by (intro guest_sees_silent) (meson in_set_takeD)
  have weaken: "?shows (es @ [x]) k g" if "?shows es k g" "k \<le> length es" for k g
    using that by (auto simp: shows_upto_def nth_append)
  have all: "\<exists>k \<le> length (es @ [x]). ?shows (es @ [x]) k (guest_sees m (take j (w @ us @ [d1, d2])))" for j
  proof -
    consider "j \<le> length w" | "length w \<le> j" "j \<le> length w + length us" | "j = Suc (length w + length us)" | "Suc (Suc (length w + length us)) \<le> j" by linarith
    then show ?thesis
    proof cases
      case 1
      then show ?thesis using t(6) [of j] weaken by (auto intro: le_SucI)
    next
      case 2
      then show ?thesis using t(7) weaken quiet [of "j - length w"] by (intro exI [of _ "length es"]) simp
    next
      case 3
      then show ?thesis using p(1) quiet [of "length us"] by (intro exI [of _ "length es"]) (simp add: x d1_def)
    next
      case 4
      then show ?thesis using p(2) quiet [of "length us"] by (intro exI [of _ "Suc (length es)"]) (simp add: x d1_def d2_def)
    qed
  qed
  have "?shows (es @ [x]) (length (es @ [x])) (guest_sees m (w @ us @ [d1, d2]))"
    using p(2) quiet [of "length us"] by (simp add: x d1_def d2_def)
  then show ?case using t(1,3-5) v hist all
    by (intro exI [of _ v] exI [of _ "w @ us @ [d1, d2]"]) (simp add: run_ops_append x)
qed

text \<open>
  C8.  Returned elements reach the driver.  The device returns elements, no more than the ring has entries, and
  the driver looks at the used ring after any of the device's writes.  It never sees an index whose entries are not
  there yet: where the index it reads is \<open>k\<close> past the start, the entries before it hold the index and the length of the
  first \<open>k\<close> elements in the order they were returned, across the wrap of the ring and of the 16-bit index; and at the
  end it sees all of them.  The size of the ring divides 65536, as the virtio standard asks.
\<close>

theorem completions_reach_driver:
  assumes "serving s" "unat (vr_num s) dvd 2 ^ 16" "driver_used_idx (is_be s) (used_base s) m = used_idx s" "length es \<le> unat (vr_num s)"
  shows "\<exists>t w. run_ops (\<lambda>(e, len). virtqueue_push e len) es s = Some t \<and> dma_hist t = dma_hist s @ w \<and>
    (\<forall>j. \<exists>k \<le> length es. driver_used_idx (is_be s) (used_base s) (guest_sees m (take j w)) = used_idx s + of_nat k \<and>
       (\<forall>i < k. driver_used_elem (is_be s) (used_base s) (vr_num s) (guest_sees m (take j w)) (used_idx s + of_nat i) = (ve_index (fst (es ! i)), snd (es ! i)))) \<and>
    driver_used_idx (is_be s) (used_base s) (guest_sees m w) = used_idx s + of_nat (length es)"
  using completions_run [OF assms] unfolding shows_upto_def by blast

theorem completions_reach_driver_witness:
  "\<exists>t w. run_ops (\<lambda>(e, len). virtqueue_push e len) [(zero_elem\<lparr>ve_index := 3\<rparr>, 8), (zero_elem, 16)] example_serving = Some t \<and>
     dma_hist t = dma_hist example_serving @ w \<and> driver_used_idx False 0x3000 (guest_sees (\<lambda>_. 0) w) = 2"
proof -
  have f: "is_be example_serving = False" "used_base example_serving = 0x3000" "used_idx example_serving = 0" "unat (vr_num example_serving) = 4"
    by (simp_all add: is_be_def used_base_def example_serving_def example_queue_def example_caches_def virtio_is_big_endian_def
        virtio_vdev_has_feature_def virtio_has_feature_def virtio_constants)
  have i: "driver_used_idx False 0x3000 (\<lambda>_. 0) = 0" by (simp add: driver_used_idx_def ld_bytes_def fetch_def upt_rec)
  show ?thesis
    using completions_reach_driver [OF example_serving_ok(1), of "\<lambda>_. 0" "[(zero_elem\<lparr>ve_index := 3\<rparr>, 8), (zero_elem, 16)]"] i
    unfolding f by auto
qed

end
