(* ===== verification/Virtio_Request.thy ===== *)
theory Virtio_Request
  imports Virtio_Driver
begin

text \<open>
  What the device gets from a driver that keeps to the virtio standard: the request it offers on a
  split ring, as a chain of descriptors in the ring's table or in an indirect one.
\<close>

section \<open>What the driver offers\<close>

text \<open>The guest leaves these bytes alone while the device works.\<close>

definition holds_at :: "guest_memory \<Rightarrow> u64 \<Rightarrow> u8 list \<Rightarrow> bool" where
  "holds_at G a bs \<longleftrightarrow> (\<forall>h. map (\<lambda>i. gm_byte G h (a + of_nat i)) [0..<length bs] = bs)"

definition desc_bytes :: "bool \<Rightarrow> VRingDesc \<Rightarrow> u8 list" where
  "desc_bytes be d = st_bytes be 8 (unat (vd_addr d)) @ st_bytes be 4 (unat (vd_len d)) @ st_bytes be 2 (unat (vd_flags d)) @ st_bytes be 2 (unat (vd_next d))"

definition desc_at :: "guest_memory \<Rightarrow> bool \<Rightarrow> u64 \<Rightarrow> u32 \<Rightarrow> VRingDesc \<Rightarrow> bool" where
  "desc_at G be tbl i d \<longleftrightarrow> holds_at G (tbl + ucast i * sizeof_VRingDesc) (desc_bytes be d)"

text \<open>The buffer is in RAM: \<open>f\<close> is where the host has it, and mapping it does not come up short.\<close>

definition in_ram :: "guest_memory \<Rightarrow> (u64 \<Rightarrow> u64) \<Rightarrow> VRingDesc \<Rightarrow> bool" where
  "in_ram G f d \<longleftrightarrow> vd_len d \<noteq> 0 \<and> f (vd_addr d) \<noteq> 0 \<and> (\<forall>h w. gm_map G h (vd_addr d) (ucast (vd_len d)) w = (f (vd_addr d), ucast (vd_len d)))"

text \<open>A chain in a table of \<open>maxd\<close> descriptors: the descriptors with their places, linked by \<open>next\<close>.\<close>

fun chain_at :: "guest_memory \<Rightarrow> (u64 \<Rightarrow> u64) \<Rightarrow> bool \<Rightarrow> u64 \<Rightarrow> u32 \<Rightarrow> (u16 \<times> VRingDesc) list \<Rightarrow> bool" where
  "chain_at G f be tbl maxd [] = False"
| "chain_at G f be tbl maxd [(i, d)] =
     (ucast i < maxd \<and> in_ram G f d \<and> desc_at G be tbl (ucast i) d \<and> vd_flags d AND VRING_DESC_F_NEXT = 0)"
| "chain_at G f be tbl maxd ((i, d) # (j, e) # ds) =
     (ucast i < maxd \<and> in_ram G f d \<and> desc_at G be tbl (ucast i) d \<and> vd_flags d AND VRING_DESC_F_NEXT \<noteq> 0 \<and> vd_next d = j \<and>
      chain_at G f be tbl maxd ((j, e) # ds))"

definition writable :: "u16 \<times> VRingDesc \<Rightarrow> bool" where
  "writable x \<longleftrightarrow> vd_flags (snd x) AND VRING_DESC_F_WRITE \<noteq> 0"

definition seg_of :: "(u64 \<Rightarrow> u64) \<Rightarrow> u16 \<times> VRingDesc \<Rightarrow> iovec" where
  "seg_of f x = \<lparr>iov_addr = vd_addr (snd x), iov_base = f (vd_addr (snd x)), iov_len = ucast (vd_len (snd x))\<rparr>"

section \<open>Reading it\<close>

lemma ld_st_word:
  fixes v :: "'a :: len word"
  assumes "8 * n = LENGTH('a)"
  shows "of_nat (ld_bytes be (st_bytes be n (unat v))) = v"
proof -
  have "(256 :: nat) ^ n = 2 ^ LENGTH('a)" unfolding assms [symmetric] power_mult by simp
  then show ?thesis using unsigned_less [of v, where ?'a = nat] by (simp add: ld_st)
qed

lemma big_endian_hist [simp]: "virtio_is_big_endian (s\<lparr>dma_hist := h\<rparr>) = virtio_is_big_endian s"
  by (simp add: virtio_is_big_endian_def virtio_vdev_has_feature_def)

lemma desc_read_exact:
  assumes "virtio_is_big_endian s = Some be" "inside (ucast i * sizeof_VRingDesc) 16 c" "desc_at G be (mrc_addr c) i d"
  shows "vring_split_desc_read G c i s = Some (d, s\<lparr>dma_hist := dma_hist s @ [DmaRead (mrc_addr c + ucast i * sizeof_VRingDesc) 16]\<rparr>)"
proof -
  have l: "length (desc_bytes be d) = 16" by (simp add: desc_bytes_def)
  have bs: "map (\<lambda>k. gm_byte G h (mrc_addr c + ucast i * sizeof_VRingDesc + of_nat k)) [0..<16] = desc_bytes be d" for h
    using assms(3) l by (auto simp: desc_at_def holds_at_def)
  have "take 8 (desc_bytes be d) = st_bytes be 8 (unat (vd_addr d))" "take 4 (drop 8 (desc_bytes be d)) = st_bytes be 4 (unat (vd_len d))"
    "take 2 (drop 12 (desc_bytes be d)) = st_bytes be 2 (unat (vd_flags d))" "drop 14 (desc_bytes be d) = st_bytes be 2 (unat (vd_next d))"
    by (simp_all add: desc_bytes_def)
  then show ?thesis using inside_check [OF assms(2)]
    by (simp add: vring_split_desc_read_def address_space_read_cached_def bs assms(1) ld_st_word)
qed

lemma lduw_exact:
  assumes "virtio_is_big_endian s = Some be" "inside off 2 c" "holds_at G (mrc_addr c + off) (st_bytes be 2 (unat v))"
  shows "virtio_lduw_phys_cached G c off s = Some (v, s\<lparr>dma_hist := dma_hist s @ [DmaRead (mrc_addr c + off) 2]\<rparr>)"
proof -
  have bs: "map (\<lambda>k. gm_byte G h (mrc_addr c + off + of_nat k)) [0..<2] = st_bytes be 2 (unat v)" for h
    using assms(3) by (simp add: holds_at_def)
  then show ?thesis using inside_check [OF assms(2)] assms(1)
    by (simp add: virtio_lduw_phys_cached_def address_space_read_cached_def bs ld_st_word del: upt_Suc upt_rec_numeral)
qed

section \<open>Mapping it\<close>

lemma map_desc_exact:
  assumes "\<And>h. gm_map G h pa sz w = (f pa, sz)" "f pa \<noteq> 0" "sz \<noteq> 0" "num < max_num" "length iov < VIRTQUEUE_MAX_SIZE"
  shows "virtqueue_map_desc G max_num w pa sz num iov s =
    Some (True, Suc num, iov @ [\<lparr>iov_addr = pa, iov_base = f pa, iov_len = sz\<rparr>], s\<lparr>dma_hist := dma_hist s @ [DmaMap pa (f pa) sz w]\<rparr>)"
  using assms by (simp add: virtqueue_map_desc_def map_desc_loop.simps [of G max_num w pa sz] map_desc_loop.simps [of G max_num w _ 0] put_seg_def)

lemma map_buffer_exact:
  assumes "in_ram G f d" "length outs + length ins < VIRTQUEUE_MAX_SIZE"
  shows "writable (i, d) \<Longrightarrow> map_buffer G (vd_flags d) (vd_addr d) (vd_len d) (length outs) (length ins) (outs @ ins) s =
      Some (True, length outs, length (ins @ [seg_of f (i, d)]), outs @ ins @ [seg_of f (i, d)],
        s\<lparr>dma_hist := dma_hist s @ [DmaMap (vd_addr d) (f (vd_addr d)) (ucast (vd_len d)) True]\<rparr>)"
    "\<not> writable (i, d) \<Longrightarrow> ins = [] \<Longrightarrow> map_buffer G (vd_flags d) (vd_addr d) (vd_len d) (length outs) (length ins) (outs @ ins) s =
      Some (True, length (outs @ [seg_of f (i, d)]), length ins, (outs @ [seg_of f (i, d)]) @ ins,
        s\<lparr>dma_hist := dma_hist s @ [DmaMap (vd_addr d) (f (vd_addr d)) (ucast (vd_len d)) False]\<rparr>)"
proof -
  have ram: "f (vd_addr d) \<noteq> 0" "\<And>h w. gm_map G h (vd_addr d) (ucast (vd_len d)) w = (f (vd_addr d), ucast (vd_len d))" "(ucast (vd_len d) :: u64) \<noteq> 0"
    using assms(1) by (auto simp: in_ram_def word_unat_eq_iff unat_up)
  show "map_buffer G (vd_flags d) (vd_addr d) (vd_len d) (length outs) (length ins) (outs @ ins) s =
      Some (True, length outs, length (ins @ [seg_of f (i, d)]), outs @ ins @ [seg_of f (i, d)],
        s\<lparr>dma_hist := dma_hist s @ [DmaMap (vd_addr d) (f (vd_addr d)) (ucast (vd_len d)) True]\<rparr>)" if "writable (i, d)"
    using that assms(2) by (simp add: map_buffer_def writable_def map_desc_exact [where f = f, OF ram(2,1,3)] seg_of_def)
  show "map_buffer G (vd_flags d) (vd_addr d) (vd_len d) (length outs) (length ins) (outs @ ins) s =
      Some (True, length (outs @ [seg_of f (i, d)]), length ins, (outs @ [seg_of f (i, d)]) @ ins,
        s\<lparr>dma_hist := dma_hist s @ [DmaMap (vd_addr d) (f (vd_addr d)) (ucast (vd_len d)) False]\<rparr>)" if "\<not> writable (i, d)" "ins = []"
    using that assms(2) by (simp add: map_buffer_def writable_def map_desc_exact [where f = f, OF ram(2,1,3)] seg_of_def)
qed

lemma map_step:
  assumes "in_ram G f d" "length outs + length ins < VIRTQUEUE_MAX_SIZE"
    and "(i, d) # ds = rs @ ws" "list_all (\<lambda>x. \<not> writable x) rs" "list_all writable ws" "rs \<noteq> [] \<longrightarrow> ins = []"
  obtains outs1 ins1 h rs1 ws1 where
    "map_buffer G (vd_flags d) (vd_addr d) (vd_len d) (length outs) (length ins) (outs @ ins) s = Some (True, length outs1, length ins1, outs1 @ ins1, s\<lparr>dma_hist := h\<rparr>)"
    "ds = rs1 @ ws1" "list_all (\<lambda>x. \<not> writable x) rs1" "list_all writable ws1" "rs1 \<noteq> [] \<longrightarrow> ins1 = []"
    "outs @ map (seg_of f) rs = outs1 @ map (seg_of f) rs1" "ins @ map (seg_of f) ws = ins1 @ map (seg_of f) ws1"
    "length outs1 + length ins1 = Suc (length outs + length ins)"
proof (cases rs)
  case Nil
  then obtain ws1 where ws: "ws = (i, d) # ws1" "ds = ws1" "writable (i, d)" using assms(3,5) by auto
  show thesis using map_buffer_exact(1) [OF assms(1,2) ws(3), of s] ws(1,2) Nil assms(5)
    by (intro that [of outs "ins @ [seg_of f (i, d)]" _ "[]" ws1]) simp_all
next
  case (Cons x rs1)
  then have rs: "x = (i, d)" "ds = rs1 @ ws" "\<not> writable (i, d)" "ins = []" using assms(3,4,6) by auto
  show thesis using map_buffer_exact(2) [OF assms(1,2) rs(3,4), of s] rs Cons assms(4,5)
    by (intro that [of "outs @ [seg_of f (i, d)]" ins _ rs1 ws]) simp_all
qed

lemma pop_loop_exact:
  assumes "virtio_is_big_endian s = Some be" "table_ok maxd c"
    and "chain_at G f be (mrc_addr c) maxd ((i, d) # ds)" "(i, d) # ds = rs @ ws" "list_all (\<lambda>x. \<not> writable x) rs" "list_all writable ws"
    and "rs \<noteq> [] \<longrightarrow> ins = []" "length outs + length ins + length (rs @ ws) \<le> VIRTQUEUE_MAX_SIZE" "unat entries + length (rs @ ws) \<le> unat maxd"
  shows "\<exists>h. split_pop_loop G d c maxd (length outs) (length ins) entries (outs @ ins) s =
    Some (True, length (outs @ map (seg_of f) rs), length (ins @ map (seg_of f) ws), (outs @ map (seg_of f) rs) @ ins @ map (seg_of f) ws, s\<lparr>dma_hist := h\<rparr>)"
  using assms(1,3-)
proof (induction ds arbitrary: i d rs ws outs ins entries s)
  case Nil
  from Nil.prems(2) have nz: "in_ram G f d" and last: "vd_flags d AND VRING_DESC_F_NEXT = 0" by simp_all
  have len: "length (rs @ ws) = Suc 0" using Nil.prems(3) by (metis length_Cons list.size(3))
  have room: "length outs + length ins < VIRTQUEUE_MAX_SIZE" "Suc (unat entries) \<le> unat maxd" using Nil.prems(7,8) unfolding len by simp_all
  obtain outs1 ins1 h rs1 ws1 where m:
    "map_buffer G (vd_flags d) (vd_addr d) (vd_len d) (length outs) (length ins) (outs @ ins) s = Some (True, length outs1, length ins1, outs1 @ ins1, s\<lparr>dma_hist := h\<rparr>)"
    "[] = rs1 @ ws1" "outs @ map (seg_of f) rs = outs1 @ map (seg_of f) rs1" "ins @ map (seg_of f) ws = ins1 @ map (seg_of f) ws1"
    using map_step [OF nz room(1) Nil.prems(3-6), of s] by metis
  have e: "\<not> maxd < entries + 1" using room(2) by (simp add: not_less word_le_nat_alt unat_word_ariths)
  have "split_pop_loop G d c maxd (length outs) (length ins) entries (outs @ ins) s = Some (True, length outs1, length ins1, outs1 @ ins1, s\<lparr>dma_hist := h\<rparr>)"
    by (subst split_pop_loop.simps) (simp add: m(1) e virtqueue_split_read_next_desc_def last)
  then show ?case unfolding m(3,4) using m(2) by (intro exI [of _ h]) simp
next
  case (Cons y ds)
  obtain j e where y: "y = (j, e)" by (cases y)
  from Cons.prems(2) have nz: "in_ram G f d" and more: "vd_flags d AND VRING_DESC_F_NEXT \<noteq> 0" and j: "vd_next d = j"
    and ch: "chain_at G f be (mrc_addr c) maxd ((j, e) # ds)" by (simp_all add: y)
  have len: "length (rs @ ws) = Suc (length (y # ds))" using Cons.prems(3) by (metis length_Cons)
  have room: "length outs + length ins < VIRTQUEUE_MAX_SIZE" "Suc (unat entries) \<le> unat maxd" using Cons.prems(7,8) unfolding len by simp_all
  obtain outs1 ins1 h rs1 ws1 where m:
    "map_buffer G (vd_flags d) (vd_addr d) (vd_len d) (length outs) (length ins) (outs @ ins) s = Some (True, length outs1, length ins1, outs1 @ ins1, s\<lparr>dma_hist := h\<rparr>)"
    "y # ds = rs1 @ ws1" "list_all (\<lambda>x. \<not> writable x) rs1" "list_all writable ws1" "rs1 \<noteq> [] \<longrightarrow> ins1 = []"
    "outs @ map (seg_of f) rs = outs1 @ map (seg_of f) rs1" "ins @ map (seg_of f) ws = ins1 @ map (seg_of f) ws1"
    "length outs1 + length ins1 = Suc (length outs + length ins)"
    by (rule map_step [OF nz room(1) Cons.prems(3-6), of s])
  have e1: "unat (entries + 1) = Suc (unat entries)" using room(2) assms(2) by (simp add: unat_word_ariths table_ok_def)
  have e: "\<not> maxd < entries + 1" using room(2) by (simp add: not_less word_le_nat_alt e1)
  have jm: "ucast j < maxd" "desc_at G be (mrc_addr c) (ucast j) e" using ch by (cases ds; auto)+
  have ins: "inside (ucast (ucast j :: u32) * sizeof_VRingDesc) 16 c" using assms(2) jm(1) by (simp add: table_ok_def word_less_nat_alt)
  define t where "t = s\<lparr>dma_hist := h\<rparr>"
  have be: "virtio_is_big_endian t = Some be" using Cons.prems(1) by (simp add: t_def)
  define u where "u = t\<lparr>dma_hist := dma_hist t @ [DmaRead (mrc_addr c + ucast (ucast j :: u32) * sizeof_VRingDesc) 16]\<rparr>"
  have nxt: "virtqueue_split_read_next_desc G d c maxd t = Some (VIRTQUEUE_READ_DESC_MORE, e, u)"
    using more jm(1) desc_read_exact [OF be ins jm(2)] by (simp add: virtqueue_split_read_next_desc_def j u_def not_le)
  have "\<exists>h. split_pop_loop G e c maxd (length outs1) (length ins1) (entries + 1) (outs1 @ ins1) u =
    Some (True, length (outs1 @ map (seg_of f) rs1), length (ins1 @ map (seg_of f) ws1), (outs1 @ map (seg_of f) rs1) @ ins1 @ map (seg_of f) ws1, u\<lparr>dma_hist := h\<rparr>)"
    using be m(8) Cons.prems(7,8) len e1 by (intro Cons.IH [OF _ ch m(2) [unfolded y] m(3-5)]) (simp_all add: u_def y flip: m(2))
  then obtain h' where "split_pop_loop G e c maxd (length outs1) (length ins1) (entries + 1) (outs1 @ ins1) u =
    Some (True, length (outs1 @ map (seg_of f) rs1), length (ins1 @ map (seg_of f) ws1), (outs1 @ map (seg_of f) rs1) @ ins1 @ map (seg_of f) ws1, u\<lparr>dma_hist := h'\<rparr>)" ..
  moreover have "split_pop_loop G d c maxd (length outs) (length ins) entries (outs @ ins) s =
    split_pop_loop G e c maxd (length outs1) (length ins1) (entries + 1) (outs1 @ ins1) u"
    by (subst split_pop_loop.simps) (simp add: m(1) t_def [symmetric] e nxt)
  ultimately show ?case unfolding m(6,7) by (intro exI [of _ h']) (simp add: u_def t_def)
qed

section \<open>Taking it off the ring\<close>

lemma empty_exact:
  assumes "queue_ok s" "\<not> virtio_device_disabled s" "vr_caches s = Some c" "virtio_is_big_endian s = Some be" "vr_avail s \<noteq> 0"
    and "shadow_avail_idx s \<noteq> last_avail_idx s \<or> idx \<noteq> last_avail_idx s \<and> holds_at G (mrc_addr (rc_avail c) + 2) (st_bytes be 2 (unat idx))"
  obtains h x where "virtio_queue_empty_rcu G s = Some (False, s\<lparr>dma_hist := h, shadow_avail_idx := x\<rparr>)"
proof (cases "shadow_avail_idx s = last_avail_idx s")
  case True
  then have "virtio_lduw_phys_cached G (rc_avail c) 2 s = Some (idx, s\<lparr>dma_hist := dma_hist s @ [DmaRead (mrc_addr (rc_avail c) + 2) 2]\<rparr>)"
    using lduw_exact [OF assms(4) inside_flags(2) [OF assms(1,3)]] assms(6) by blast
  then show thesis using assms(2,3,5,6) True
    by (intro that [of idx "dma_hist s @ [DmaRead (mrc_addr (rc_avail c) + 2) 2]"]) (simp add: virtio_queue_empty_rcu_def vring_avail_idx_def)
next
  case False
  then show thesis using assms(2,5) by (intro that [of "shadow_avail_idx s" "dma_hist s"]) (simp add: virtio_queue_empty_rcu_def)
qed

lemma head_exact:
  fixes head :: u16
  assumes "queue_ok s" "\<not> ring_packed s" "vr_caches s = Some c" "virtio_is_big_endian s = Some be" "ucast head < vr_num s"
    and "holds_at G (mrc_addr (rc_avail c) + (4 + 2 * ucast (idx mod vr_num s))) (st_bytes be 2 (unat head))"
  obtains h where "virtqueue_get_head G idx s = Some (Some (ucast head), s\<lparr>dma_hist := h\<rparr>)"
proof -
  have n: "vr_num s \<noteq> 0" "unat (idx mod vr_num s) < unat (vr_num s)" using unat_num_bound [OF assms(1)] by (auto simp: unat_mod_distrib)
  have "inside (4 + 2 * ucast (idx mod vr_num s)) 2 (rc_avail c)" using inside_rings(1) [OF assms(1,3,2)] n(2) by blast
  from lduw_exact [OF assms(4) this assms(6)] n assms(3,5) show thesis
    by (intro that) (simp add: virtqueue_get_head_def umod_def vring_avail_ring_def not_le [symmetric])
qed

lemma avail_event_exact:
  assumes "queue_ok s" "\<not> ring_packed s" "vr_caches s = Some c" "virtio_is_big_endian s = Some be"
  obtains h where "(if event_idx s then vring_set_avail_event v s else Some s) = Some (s\<lparr>dma_hist := h\<rparr>)"
proof (cases "event_idx s \<and> notification s")
  case True
  then show thesis using inside_check [OF inside_rings(3) [OF assms(1,3,2)]] caches_fitD(4) [OF assms(1,3)] assms(3,4)
    by (intro that) (simp add: vring_set_avail_event_def virtio_stw_phys_cached_def address_space_write_cached_def address_space_cache_invalidate_def)
next
  case False
  then show thesis by (intro that [of "dma_hist s"]) (auto simp: vring_set_avail_event_def)
qed

text \<open>Where the chain is: in the ring's own table, or in the table a descriptor of the ring refers to.\<close>

definition offered_chain :: "guest_memory \<Rightarrow> (u64 \<Rightarrow> u64) \<Rightarrow> bool \<Rightarrow> VRingMemoryRegionCaches \<Rightarrow> u32 \<Rightarrow> u16 \<Rightarrow> VRingDesc option \<Rightarrow> (u16 \<times> VRingDesc) list \<Rightarrow> bool" where
  "offered_chain G f be c num head tb xs \<longleftrightarrow> xs \<noteq> [] \<and> ucast head < num \<and> (case tb of
     None \<Rightarrow> fst (hd xs) = head \<and> vd_flags (snd (hd xs)) AND VRING_DESC_F_INDIRECT = 0 \<and> length xs \<le> unat num \<and>
       chain_at G f be (mrc_addr (rc_desc c)) num xs
   | Some t \<Rightarrow> desc_at G be (mrc_addr (rc_desc c)) (ucast head) t \<and> vd_flags t AND VRING_DESC_F_INDIRECT \<noteq> 0 \<and> vd_len t \<noteq> 0 \<and> vd_len t mod 16 = 0 \<and>
       fst (hd xs) = 0 \<and> length xs \<le> unat (vd_len t div 16) \<and> chain_at G f be (vd_addr t) (vd_len t div 16) xs)"

lemma chain_hd: "chain_at G f be tbl maxd xs \<Longrightarrow> ucast (fst (hd xs)) < maxd \<and> desc_at G be tbl (ucast (fst (hd xs))) (snd (hd xs))"
  by (induction G f be tbl maxd xs rule: chain_at.induct) auto

text \<open>Region caches for reading come out as long as they were asked for.\<close>

definition caches_whole :: "guest_memory \<Rightarrow> bool" where
  "caches_whole G \<longleftrightarrow> (\<forall>h a l. gm_cache G h a l False = l)"

lemma table_exact:
  assumes "queue_ok s" "vr_caches s = Some c" "virtio_is_big_endian s = Some be" "caches_whole G" "offered_chain G f be c (vr_num s) head tb xs"
  obtains maxd dc h where "split_pop_table G (ucast head) c s = Some (Some (snd (hd xs), dc, maxd), s\<lparr>dma_hist := h\<rparr>)"
    "table_ok maxd dc" "chain_at G f be (mrc_addr dc) maxd xs" "length xs \<le> unat maxd"
proof -
  note ring = ring_table [OF assms(1,2)]
  have hd: "ucast head < vr_num s" using assms(5) by (simp add: offered_chain_def)
  then have ins: "inside (ucast (ucast head :: u32) * sizeof_VRingDesc) 16 (rc_desc c)" using ring by (simp add: table_ok_def word_less_nat_alt)
  show thesis
  proof (cases tb)
    case None
    then have o: "fst (hd xs) = head" "vd_flags (snd (hd xs)) AND VRING_DESC_F_INDIRECT = 0" "length xs \<le> unat (vr_num s)"
      "chain_at G f be (mrc_addr (rc_desc c)) (vr_num s) xs" using assms(5) by (simp_all add: offered_chain_def)
    have "desc_at G be (mrc_addr (rc_desc c)) (ucast head) (snd (hd xs))" using chain_hd [OF o(4)] o(1) by simp
    from desc_read_exact [OF assms(3) ins this] o(2) show thesis
      by (intro that [OF _ ring o(4,3)]) (simp add: split_pop_table_def)
  next
    case (Some t)
    then have o: "desc_at G be (mrc_addr (rc_desc c)) (ucast head) t" "vd_flags t AND VRING_DESC_F_INDIRECT \<noteq> 0" "vd_len t \<noteq> 0" "vd_len t mod 16 = 0"
      "fst (hd xs) = 0" "length xs \<le> unat (vd_len t div 16)" "chain_at G f be (vd_addr t) (vd_len t div 16) xs"
      using assms(5) by (simp_all add: offered_chain_def)
    define s1 where "s1 = s\<lparr>dma_hist := dma_hist s @ [DmaRead (mrc_addr (rc_desc c) + ucast (ucast head :: u32) * sizeof_VRingDesc) 16]\<rparr>"
    have rd: "vring_split_desc_read G (rc_desc c) (ucast head) s = Some (t, s1)" unfolding s1_def by (rule desc_read_exact [OF assms(3) ins o(1)])
    define ic where "ic = \<lparr>mrc_addr = vd_addr t, mrc_len = (ucast (vd_len t) :: u64), mrc_is_write = False\<rparr>"
    define s2 where "s2 = s1\<lparr>dma_hist := dma_hist s1 @ [CacheInit (vd_addr t) (ucast (vd_len t)) False]\<rparr>"
    have nz: "(ucast (vd_len t) :: u64) \<noteq> 0" using o(3) by (auto simp: word_unat_eq_iff unat_up)
    have init: "address_space_cache_init G (vd_addr t) (ucast (vd_len t)) False s1 = Some (ucast (vd_len t), ic, s2)"
      using nz assms(4) by (simp add: address_space_cache_init_def caches_whole_def Let_def ic_def s2_def)
    have "queue_ok s1" using assms(1) config_ok [of s1 s] by (simp add: s1_def ring_config_def)
    then have tab: "table_ok (vd_len t div 16) ic"
      using indirect_table [of s1 t G] o(3,4) init by (metis option.inject prod.inject less_irrefl)
    have be: "virtio_is_big_endian s2 = Some be" using assms(3) by (simp add: s1_def s2_def)
    have d: "desc_at G be (mrc_addr ic) 0 (snd (hd xs))" using chain_hd [OF o(7)] o(5) by (simp add: ic_def)
    have "inside (ucast (0 :: u32) * sizeof_VRingDesc) 16 ic" using tab unfolding table_ok_def by (metis unat_0 word_less_nat_alt)
    from desc_read_exact [OF be this d] rd init o(2-4,6,7) tab show thesis
      by (intro that [of ic "vd_len t div 16"]) (simp_all add: split_pop_table_def s2_def s1_def ic_def)
  qed
qed

lemma pop_chain_exact:
  assumes "queue_ok s" "\<not> in_order s" "vr_caches s = Some c" "virtio_is_big_endian s = Some be" "caches_whole G"
    and "offered_chain G f be c (vr_num s) head tb (rs @ ws)" "list_all (\<lambda>x. \<not> writable x) rs" "list_all writable ws" "length (rs @ ws) \<le> VIRTQUEUE_MAX_SIZE"
  obtains e h where "split_pop_chain G (ucast head) c s = Some (Some e, s\<lparr>dma_hist := h, inuse := inuse s + 1\<rparr>)"
    "ve_index e = ucast head" "out_sg e = map (seg_of f) rs" "in_sg e = map (seg_of f) ws"
proof -
  obtain maxd dc h where t: "split_pop_table G (ucast head) c s = Some (Some (snd (hd (rs @ ws)), dc, maxd), s\<lparr>dma_hist := h\<rparr>)"
      "table_ok maxd dc" "chain_at G f be (mrc_addr dc) maxd (rs @ ws)" "length (rs @ ws) \<le> unat maxd"
    using table_exact [OF assms(1,3,4,5,6)] by blast
  obtain i d ds where x: "(i, d) # ds = rs @ ws" using assms(6) by (cases "rs @ ws") (auto simp: offered_chain_def)
  define t1 where "t1 = s\<lparr>dma_hist := h\<rparr>"
  have be: "virtio_is_big_endian t1 = Some be" using assms(4) by (simp add: t1_def)
  have d: "snd (hd (rs @ ws)) = d" by (simp flip: x)
  have n: "rs \<noteq> [] \<longrightarrow> [] = ([] :: iovec list)" "length ([] :: iovec list) + length ([] :: iovec list) + length (rs @ ws) \<le> VIRTQUEUE_MAX_SIZE"
    "unat (0 :: u32) + length (rs @ ws) \<le> unat maxd" using assms(9) t(4) by simp_all
  from pop_loop_exact [OF be t(2) t(3) [folded x] x assms(7,8) n]
  obtain h' where l: "split_pop_loop G d dc maxd 0 0 0 [] t1 =
      Some (True, length rs, length ws, map (seg_of f) rs @ map (seg_of f) ws, t1\<lparr>dma_hist := h'\<rparr>)" by auto
  have io: "\<not> in_order (t1\<lparr>dma_hist := h'\<rparr>)" using assms(2) by (simp add: t1_def virtio_vdev_has_feature_def)
  show thesis
    by (rule that [of "virtqueue_alloc_element G (length rs) (length ws) (map (seg_of f) rs @ map (seg_of f) ws) (ucast head) 1 (t1\<lparr>dma_hist := h'\<rparr>)" h'])
      (simp_all add: split_pop_chain_def t(1) d t1_def [symmetric] l io virtqueue_alloc_element_def, simp_all add: t1_def)
qed

text \<open>
  C10.  A request the driver offers is the request the device gets.  The driver has put a chain of buffers, first the
  ones the device reads, then the ones it writes, into the descriptor table or into an indirect table, its head into
  the available ring, and has moved the available index; it leaves these bytes alone, and the buffers are in RAM.
  Then \<open>virtqueue_pop()\<close> returns an element with the head's index and exactly these buffers in this order and these
  directions, and counts it.
\<close>

theorem request_reaches_device:
  assumes "serving s" "vr_caches s = Some c" "vr_avail s \<noteq> 0" "inuse s < vr_num s" "caches_whole G"
    and "holds_at G (mrc_addr (rc_avail c) + (4 + 2 * ucast (ucast (last_avail_idx s) mod vr_num s))) (st_bytes (is_be s) 2 (unat head))"
    and "holds_at G (mrc_addr (rc_avail c) + 2) (st_bytes (is_be s) 2 (unat idx))" "idx \<noteq> last_avail_idx s"
    and "offered_chain G f (is_be s) c (vr_num s) head tb (rs @ ws)" "list_all (\<lambda>x. \<not> writable x) rs" "list_all writable ws"
    and "length (rs @ ws) \<le> VIRTQUEUE_MAX_SIZE"
  shows "\<exists>e t. virtqueue_pop G s = Some (Some e, t) \<and> ve_index e = ucast head \<and> out_sg e = map (seg_of f) rs \<and> in_sg e = map (seg_of f) ws \<and>
    inuse t = inuse s + 1 \<and> last_avail_idx t = last_avail_idx s + 1"
proof -
  from assms(1) have sv: "queue_ok s" "\<not> ring_packed s" "\<not> in_order s" "\<not> virtio_device_disabled s" "virtio_is_big_endian s = Some (is_be s)"
    by (auto elim!: servingE)
  have hd: "ucast head < vr_num s" using assms(9) by (simp add: offered_chain_def)
  obtain h x where s1: "virtio_queue_empty_rcu G s = Some (False, s\<lparr>dma_hist := h, shadow_avail_idx := x\<rparr>)"
    using empty_exact [OF sv(1,4) assms(2) sv(5) assms(3)] assms(7,8) by metis
  have keep: "ring_config (s\<lparr>dma_hist := g, shadow_avail_idx := y, last_avail_idx := z\<rparr>) = ring_config s"
    "virtio_is_big_endian (s\<lparr>dma_hist := g, shadow_avail_idx := y, last_avail_idx := z\<rparr>) = virtio_is_big_endian s" for g y z
    by (simp_all add: ring_config_def virtio_is_big_endian_def virtio_vdev_has_feature_def)
  define q where "q = (\<lambda>g. s\<lparr>dma_hist := g, shadow_avail_idx := x, last_avail_idx := last_avail_idx s + 1\<rparr>)"
  have q: "queue_ok (q g)" "\<not> ring_packed (q g)" "\<not> in_order (q g)" "vr_caches (q g) = Some c" "virtio_is_big_endian (q g) = Some (is_be s)"
    "vr_num (q g) = vr_num s" "inuse (q g) = inuse s" "last_avail_idx (q g) = last_avail_idx s + 1" "(q g)\<lparr>dma_hist := g'\<rparr> = q g'" for g g'
    using config_ok [OF keep(1)] config_features [OF keep(1)] keep(2) sv assms(2) by (simp_all add: q_def)
  have av: "holds_at G (mrc_addr (rc_avail c) + (4 + 2 * ucast (ucast (last_avail_idx s) mod vr_num (q h)))) (st_bytes (is_be s) 2 (unat head))"
    "ucast head < vr_num (q h)" using assms(6) hd by (simp_all add: q(6))
  obtain h2 where s2: "virtqueue_get_head G (ucast (last_avail_idx s)) (q h) = Some (Some (ucast head), q h2)"
    using head_exact [OF q(1,2,4,5) av(2,1)] unfolding q(9) by blast
  obtain h3 where s3: "(if event_idx (q h2) then vring_set_avail_event (last_avail_idx s + 1) (q h2) else Some (q h2)) = Some (q h3)"
    using avail_event_exact [OF q(1,2,4,5), of _ "last_avail_idx s + 1"] unfolding q(9) by blast
  obtain e h4 where s4: "split_pop_chain G (ucast head) c (q h3) = Some (Some e, (q h3)\<lparr>dma_hist := h4, inuse := inuse (q h3) + 1\<rparr>)"
    "ve_index e = ucast head" "out_sg e = map (seg_of f) rs" "in_sg e = map (seg_of f) ws"
    using pop_chain_exact [OF q(1,3,4,5) assms(5) _ assms(10-12)] assms(9) unfolding q(6) by metis
  have qh: "s\<lparr>dma_hist := h, shadow_avail_idx := x, last_avail_idx := last_avail_idx s + 1\<rparr> = q h" by (simp add: q_def)
  have fit: "\<not> mrc_len (rc_desc c) < ucast (vr_num s) * sizeof_VRingDesc" using caches_fitD(1) [OF sv(1) assms(2)] by simp
  have "virtqueue_pop G s = Some (Some e, (q h3)\<lparr>dma_hist := h4, inuse := inuse (q h3) + 1\<rparr>)"
    using sv(2,4) assms(4) fit s3 by (cases "event_idx (q h2)") (simp_all add: virtqueue_pop_def virtqueue_split_pop_def s1 qh s2 q(4,6,8) s4(1) not_le)
  then show ?thesis using s4 q(7,8) by (intro exI [of _ e] exI) auto
qed

definition example_desc :: VRingDesc where
  "example_desc = \<lparr>vd_addr = 0x5000, vd_len = 8, vd_flags = 0, vd_next = 0\<rparr>"

lemma st_bytes_zero: "st_bytes be n 0 = replicate n 0"
proof -
  have "le_bytes n 0 = replicate n 0" by (induction n) simp_all
  then show ?thesis by (simp add: st_bytes_def)
qed

lemma le_bytes_numeral: "le_bytes (numeral k) v = of_nat v # le_bytes (pred_numeral k) (v div 256)"
  unfolding numeral_eq_Suc [of k] by simp

lemma example_fields:
  "st_bytes False 8 0x5000 = [0, 0x50, 0, 0, 0, 0, 0, 0]" "st_bytes False 4 8 = [8, 0, 0, 0]" "st_bytes False 2 (Suc 0) = [1, 0]"
  by (simp_all add: st_bytes_def le_bytes_numeral)

lemma example_offers:
  "holds_at example_guest 0x2004 (st_bytes False 2 (unat (0 :: u16)))" "holds_at example_guest 0x2002 (st_bytes False 2 (unat (1 :: u16)))"
  "desc_at example_guest False 0x1000 0 example_desc"
proof -
  have u: "[0..<2] = [0, 1 :: nat]" "[0..<16] = [0, 1, 2, 3, 4, 5, 6, 7, 8, 9, 10, 11, 12, 13, 14, 15 :: nat]" by (simp_all add: upt_rec)
  have r: "replicate 2 x = [x, x]" for x :: u8 by (simp add: numeral_2_eq_2)
  have d: "desc_bytes False example_desc = [0, 0x50, 0, 0, 0, 0, 0, 0, 8, 0, 0, 0, 0, 0, 0, 0]"
    by (simp add: desc_bytes_def example_desc_def st_bytes_zero example_fields r)
  show "holds_at example_guest 0x2004 (st_bytes False 2 (unat (0 :: u16)))" "holds_at example_guest 0x2002 (st_bytes False 2 (unat (1 :: u16)))"
    by (simp_all add: holds_at_def st_bytes_zero example_fields r u example_guest_def)
  show "desc_at example_guest False 0x1000 0 example_desc"
    unfolding desc_at_def holds_at_def d by (simp add: u example_guest_def)
qed

theorem request_reaches_device_witness:
  "\<exists>e t. virtqueue_pop example_guest example_serving = Some (Some e, t) \<and> ve_index e = 0 \<and>
     out_sg e = [\<lparr>iov_addr = 0x5000, iov_base = 0x7f0000005000, iov_len = 8\<rparr>] \<and> in_sg e = [] \<and> inuse t = 1 \<and> last_avail_idx t = 1"
proof -
  have f: "is_be example_serving = False" "vr_caches example_serving = Some example_caches" "last_avail_idx example_serving = 0"
      "vr_num example_serving = 4" "inuse example_serving = 0" "vr_avail example_serving \<noteq> 0"
    by (simp_all add: is_be_def example_serving_def example_queue_def virtio_is_big_endian_def virtio_vdev_has_feature_def virtio_has_feature_def virtio_constants)
  have g: "caches_whole example_guest" "in_ram example_guest (\<lambda>a. a + 0x7f0000000000) example_desc"
    by (simp_all add: caches_whole_def in_ram_def example_guest_def example_desc_def)
  have o: "offered_chain example_guest (\<lambda>a. a + 0x7f0000000000) False example_caches 4 0 None ([(0, example_desc)] @ [])"
    using example_offers(3) g(2) by (simp add: offered_chain_def example_caches_def) (simp add: example_desc_def)
  have w: "list_all (\<lambda>x. \<not> writable x) [(0, example_desc)]" "length ([(0 :: u16, example_desc)] @ []) \<le> VIRTQUEUE_MAX_SIZE"
    by (simp_all add: writable_def example_desc_def VIRTQUEUE_MAX_SIZE_def)
  show ?thesis
    using request_reaches_device [OF example_serving_ok(1) f(2,6) _ g(1), of 0 1 "\<lambda>a. a + 0x7f0000000000" None "[(0, example_desc)]" "[]"] o w example_offers(1,2)
    unfolding f by (auto simp: example_caches_def seg_of_def example_desc_def)
qed

end
