(* ===== verification/Virtio_Limits.thy ===== *)
theory Virtio_Limits
  imports Virtio_Request
begin

text \<open>
  Where the queues do not do what they are meant to: elements completed out of order on a full
  in-order ring, and an empty indirect table on a packed ring.
\<close>

section \<open>In-order completion\<close>

text \<open>
  C40.  On a full ring with the \<open>IN_ORDER\<close> feature an element that is not the oldest cannot be completed.  The search for
  its entry is bounded by the number of entries in use modulo the ring's size, which is 0 when the ring is full, so it
  looks at the oldest entry only.  The element's memory is unmapped, but nothing records that it was returned, and the
  driver never gets it back; and where the oldest entry is the last of the array, the search reads past its end.
\<close>

theorem in_order_completion_lost:
  assumes "in_order s" "\<not> virtio_device_disabled s" "0 < vr_num s" "length (used_elems s) = unat (vr_num s)" "list_all (\<lambda>x. ve_ndescs x = 1) (used_elems s)"
    and "(ucast (last_avail_idx s) - ucast (used_idx s)) mod vr_num s = 0"
    and "ve_index (used_elems s ! (unat (used_idx s) mod unat (vr_num s))) \<noteq> ve_index e"
  shows "virtqueue_fill e len idx s =
    (if Suc (unat (used_idx s) mod unat (vr_num s)) = unat (vr_num s) then None else Some (virtqueue_unmap_sg e len s))"
proof -
  define u where "u = virtqueue_unmap_sg e len s"
  have same: "used_elems u = used_elems s" "vr_num u = vr_num s" "used_idx u = used_idx s" "last_avail_idx u = last_avail_idx s" "in_order u = in_order s"
    "virtio_device_disabled u = virtio_device_disabled s"
    using unmap_sg(1) [of e len s] config_features [OF core_config [OF unmap_sg(1) [of e len s]]] unmap_sg(4) [of e len s]
    by (simp_all add: u_def queue_core_def ring_config_def)
  define i where "i = (ucast (used_idx s) :: u32) mod vr_num s"
  have n: "0 < unat (vr_num s)" "vr_num s \<noteq> 0" using assms(3) by (auto simp: word_less_nat_alt)
  have i: "unat i = unat (used_idx s) mod unat (vr_num s)" "unat i < unat (vr_num s)"
    using n(1) unsigned_less [of "used_idx s", where ?'a = nat] by (simp_all add: i_def unat_mod_distrib unsigned_ucast_eq take_bit_nat_eq_self)
  have nd: "ve_ndescs (used_elems s ! k) = 1" if "k < unat (vr_num s)" for k using assms(4,5) that by (simp add: list_all_length)
  have i1: "unat (i + 1) = Suc (unat i)" using i(2) unsigned_less [of "vr_num s", where ?'a = nat] by (simp add: unat_word_ariths)
  have ag: "aget (used_elems s) (uint k) = (if unat k < unat (vr_num s) then Some (used_elems s ! unat k) else None)" for k :: u32
    unfolding aget_def uint_nat assms(4) by (simp only: of_nat_less_iff nat_int of_nat_0_le_iff simp_thms)
  have "ordered_fill_loop (ve_index e) len 0 0 i u = (if Suc (unat i) = unat (vr_num s) then None else Some u)"
  proof (cases "Suc (unat i) = unat (vr_num s)")
    case True
    have "aget (used_elems s) (uint i) = Some (used_elems s ! unat i)" "aget (used_elems s) (uint (i + 1)) = None" using i(2) True by (simp_all only: ag i1 if_True if_False less_irrefl)
    then show ?thesis using assms(7) True
      by (subst ordered_fill_loop.simps) (simp add: same nd [OF i(2)] i(1) [symmetric])
  next
    case False
    then have l: "Suc (unat i) < unat (vr_num s)" using i(2) by simp
    have "aget (used_elems s) (uint i) = Some (used_elems s ! unat i)" "aget (used_elems s) (uint (i + 1)) = Some (used_elems s ! Suc (unat i))"
      using i(2) l by (simp_all only: ag i1 if_True)
    then show ?thesis using assms(7) False
      by (subst ordered_fill_loop.simps) (simp add: same nd [OF i(2)] nd [OF l] i(1) [symmetric] ordered_fill_loop.simps [of _ _ 0 1])
  qed
  then show ?thesis using assms(1,2,6) n(2)
    by (simp add: virtqueue_fill_def Let_def u_def [symmetric] same virtqueue_ordered_fill_def umod_def i_def [symmetric] i(1))
qed

definition example_in_order :: VirtQueue where
  "example_in_order = example_queue\<lparr>guest_features := 0x900000000, last_avail_idx := 4, inuse := 4,
     used_elems := map (\<lambda>i. zero_elem\<lparr>ve_index := i, ve_ndescs := 1\<rparr>) [0, 1, 2, 3]\<rparr>"

theorem in_order_completion_lost_witness:
  "virtqueue_fill (zero_elem\<lparr>ve_index := 2, ve_ndescs := 1\<rparr>) 8 0 example_in_order = Some example_in_order"
proof -
  have q: "in_order example_in_order" "\<not> virtio_device_disabled example_in_order" "0 < vr_num example_in_order"
      "length (used_elems example_in_order) = unat (vr_num example_in_order)" "list_all (\<lambda>x. ve_ndescs x = 1) (used_elems example_in_order)"
      "(ucast (last_avail_idx example_in_order) - ucast (used_idx example_in_order)) mod vr_num example_in_order = 0"
      "ve_index (used_elems example_in_order ! (unat (used_idx example_in_order) mod unat (vr_num example_in_order))) \<noteq> ve_index (zero_elem\<lparr>ve_index := 2, ve_ndescs := 1\<rparr>)"
    by (simp_all add: example_in_order_def example_queue_def virtio_vdev_has_feature_def virtio_has_feature_def virtio_constants virtio_device_disabled_def)
  have n: "Suc (unat (used_idx example_in_order) mod unat (vr_num example_in_order)) \<noteq> unat (vr_num example_in_order)"
    by (simp add: example_in_order_def example_queue_def)
  have "virtqueue_unmap_sg (zero_elem\<lparr>ve_index := 2, ve_ndescs := 1\<rparr>) 8 example_in_order = example_in_order"
    by (simp add: virtqueue_unmap_sg_def zero_elem_def)
  then show ?thesis unfolding in_order_completion_lost [OF q] if_not_P [OF n] by simp
qed

section \<open>Packed rings\<close>

lemma inside_part:
  assumes "inside off m c" "k + n \<le> m" "0 < n"
  shows "inside (off + of_nat k) n c"
proof -
  have "unat (mrc_len c) < 2 ^ 64" by (rule less_le_trans [OF unsigned_less]) simp
  then have "unat (off + of_nat k) = unat off + k" using assms by (simp add: inside_def unat_word_ariths unsigned_of_nat take_bit_eq_mod)
  then show ?thesis using assms by (simp add: inside_def)
qed

lemma read_exact:
  "inside off n c \<Longrightarrow> address_space_read_cached G c off n s =
     Some (map (\<lambda>i. gm_byte G (dma_hist s) (mrc_addr c + off + of_nat i)) [0..<n], s\<lparr>dma_hist := dma_hist s @ [DmaRead (mrc_addr c + off) n]\<rparr>)"
  using inside_check [of off n c] by (simp add: address_space_read_cached_def)

lemma packed_desc_read_exact:
  assumes "virtio_is_big_endian s = Some be" "inside (ucast i * 16) 16 c"
    and "holds_at G (mrc_addr c + (ucast i * 16 + 14)) (st_bytes be 2 (unat fl))" "holds_at G (mrc_addr c + (ucast i * 16 + 8)) (st_bytes be 4 (unat len))"
  shows "\<exists>d h. vring_packed_desc_read G c i s = Some (d, s\<lparr>dma_hist := h\<rparr>) \<and> pd_flags d = fl \<and> pd_len d = len"
proof -
  have ins: "inside (ucast i * 16 + 14) 2 c" "inside (ucast i * 16) 8 c" "inside (ucast i * 16 + 12) 2 c" "inside (ucast i * 16 + 8) 4 c"
    using inside_part [OF assms(2), of 14 2] inside_part [OF assms(2), of 0 8] inside_part [OF assms(2), of 12 2] inside_part [OF assms(2), of 8 4] by simp_all
  have len: "map (\<lambda>k. gm_byte G h (mrc_addr c + (ucast i * 16 + 8) + of_nat k)) [0..<4] = st_bytes be 4 (unat len)" for h
    using assms(4) by (simp add: holds_at_def)
  show ?thesis
    by (simp add: vring_packed_desc_read_def vring_packed_desc_read_flags_def lduw_exact [OF assms(1) ins(1) assms(3)] read_exact [OF ins(2)]
        read_exact [OF ins(3)] read_exact [OF ins(4)] len assms(1) Let_def ld_st_word del: upt_Suc upt_rec_numeral) (rule exI, rule refl)
qed

text \<open>
  C38.  A driver can end QEMU through a packed ring.  A split ring refuses an indirect table of length 0; a packed ring
  only checks that the length is a multiple of the size of a descriptor.  An available descriptor that refers to a
  table of length 0 makes \<open>virtqueue_pop()\<close> fail the assertion of \<open>address_space_cache_init()\<close> that the length is
  positive.
\<close>

theorem packed_empty_table_aborts:
  assumes "queue_ok s" "ring_packed s" "\<not> virtio_device_disabled s" "vr_caches s = Some c" "vr_desc s \<noteq> 0" "inuse s < vr_num s"
    and "ucast (last_avail_idx s) < vr_num s"
    and "holds_at G (mrc_addr (rc_desc c) + (ucast (ucast (last_avail_idx s) :: u32) * 16 + 14)) (st_bytes (is_be s) 2 (unat fl))"
    and "holds_at G (mrc_addr (rc_desc c) + (ucast (ucast (last_avail_idx s) :: u32) * 16 + 8)) (st_bytes (is_be s) 4 (unat (0 :: u32)))"
    and "is_desc_avail fl (last_avail_wrap_counter s)" "fl AND VRING_DESC_F_INDIRECT \<noteq> 0"
  shows "virtqueue_pop G s = None"
proof -
  define i where "i = (ucast (last_avail_idx s) :: u32)"
  have be: "virtio_is_big_endian s = Some (is_be s)" using assms(1) by (cases "virtio_is_big_endian s") (simp_all add: is_be_def queue_ok_def)
  have ins: "inside (ucast i * 16) 16 (rc_desc c)"
    using ring_table [OF assms(1,4)] assms(7) by (simp add: table_ok_def word_less_nat_alt i_def sizeof_VRingDesc_def)
  have fl: "inside (ucast i * 16 + 14) 2 (rc_desc c)" using inside_part [OF ins, of 14 2] by simp
  define s1 where "s1 = s\<lparr>dma_hist := dma_hist s @ [DmaRead (mrc_addr (rc_desc c) + (ucast i * 16 + 14)) 2]\<rparr>"
  have e: "virtio_queue_packed_empty_rcu G s = Some (False, s1)"
    using lduw_exact [OF be fl assms(8) [folded i_def]] assms(4,5,10)
    by (simp add: virtio_queue_packed_empty_rcu_def vring_packed_desc_read_flags_def i_def [symmetric] s1_def)
  have be1: "virtio_is_big_endian s1 = Some (is_be s)" using be by (simp add: s1_def)
  obtain d h where d: "vring_packed_desc_read G (rc_desc c) i s1 = Some (d, s1\<lparr>dma_hist := h\<rparr>)" "pd_flags d = fl" "pd_len d = 0"
    using packed_desc_read_exact [OF be1 ins assms(8,9) [folded i_def]] by blast
  have s1: "vr_num s1 = vr_num s" "inuse s1 = inuse s" "vr_caches s1 = Some c" "last_avail_idx s1 = last_avail_idx s" using assms(4) by (simp_all add: s1_def)
  have fit: "\<not> mrc_len (rc_desc c) < ucast (vr_num s) * sizeof_VRingDesc" using caches_fitD(1) [OF assms(1,4)] by simp
  have "packed_pop_table G c s1 = None"
    using d assms(11) by (simp add: packed_pop_table_def s1(4) i_def [symmetric] Let_def address_space_cache_init_def)
  then show ?thesis using assms(2,3,6) fit by (simp add: virtqueue_pop_def virtqueue_packed_pop_def e s1 not_le [symmetric])
qed

definition example_packed_caches :: VRingMemoryRegionCaches where
  "example_packed_caches = example_caches\<lparr>rc_desc := \<lparr>mrc_addr = 0x1000, mrc_len = 64, mrc_is_write = True\<rparr>\<rparr>"

definition example_packed :: VirtQueue where
  "example_packed = example_queue\<lparr>guest_features := 0x500000000, vr_caches := Some example_packed_caches\<rparr>"

lemma example_packed_ok:
  "queue_ok example_packed" "ring_packed example_packed" "\<not> in_order example_packed" "\<not> virtio_device_disabled example_packed"
  "vr_caches example_packed = Some example_packed_caches" "vr_desc example_packed \<noteq> 0" "inuse example_packed = 0"
  "ucast (last_avail_idx example_packed) < vr_num example_packed" "ucast (used_idx example_packed) < vr_num example_packed" "used_elems example_packed \<noteq> []"
  "inuse example_packed < vr_num example_packed" "last_avail_idx example_packed = 0" "last_avail_wrap_counter example_packed" "\<not> is_be example_packed"
  "mrc_addr (rc_desc example_packed_caches) = 0x1000"
  by (simp_all add: queue_ok_def caches_fit_def example_packed_def example_packed_caches_def example_queue_def example_caches_def virtio_is_big_endian_def is_be_def
      virtio_vdev_has_feature_def virtio_has_feature_def virtio_constants virtio_device_disabled_def
      virtio_queue_get_desc_size_def virtio_queue_get_avail_size_def virtio_queue_get_used_size_def sizeof_VRingDesc_def)

definition example_empty_table :: guest_memory where
  "example_empty_table = example_guest\<lparr>gm_byte := (\<lambda>_ a. if a = 0x100e then 0x84 else 0)\<rparr>"

theorem packed_empty_table_aborts_witness: "virtqueue_pop example_empty_table example_packed = None"
proof -
  have h: "holds_at example_empty_table 0x100e (st_bytes False 2 (unat (0x84 :: u16)))" "holds_at example_empty_table 0x1008 (st_bytes False 4 (unat (0 :: u32)))"
    by (simp_all add: holds_at_def st_bytes_def le_bytes_numeral example_empty_table_def upt_rec)
  have f: "is_desc_avail 0x84 True" "(0x84 :: u16) AND VRING_DESC_F_INDIRECT \<noteq> 0"
    by (simp_all add: is_desc_avail_def VRING_PACKED_DESC_F_AVAIL_def VRING_PACKED_DESC_F_USED_def VRING_DESC_F_INDIRECT_def)
  show ?thesis using packed_empty_table_aborts [OF example_packed_ok(1,2,4,5,6,11,8), of example_empty_table "0x84"] example_packed_ok(12-) h f by simp
qed

section \<open>Dropping from a packed ring\<close>

lemma write_exact:
  "inside off (length bs) c \<Longrightarrow> address_space_write_cached c off bs s = Some (s\<lparr>dma_hist := dma_hist s @ [DmaWrite (mrc_addr c + off) bs]\<rparr>)"
  using inside_check [of off "length bs" c] by (simp add: address_space_write_cached_def)

lemma stw_exact:
  assumes "virtio_is_big_endian s = Some be" "inside off 2 c"
  shows "virtio_stw_phys_cached c off v s = Some (s\<lparr>dma_hist := dma_hist s @ [DmaWrite (mrc_addr c + off) (st_bytes be 2 (unat v))]\<rparr>)"
  using assms write_exact [of off "st_bytes be 2 (unat v)" c s] by (simp add: virtio_stw_phys_cached_def)

lemma lduw_some:
  assumes "virtio_is_big_endian s = Some be" "inside off 2 c"
  shows "\<exists>v. virtio_lduw_phys_cached G c off s = Some (v, s\<lparr>dma_hist := dma_hist s @ [DmaRead (mrc_addr c + off) 2]\<rparr>)"
  using assms read_exact [OF assms(2), of G s] by (simp add: virtio_lduw_phys_cached_def)

lemma packed_notification_exact:
  assumes "queue_ok s" "ring_packed s" "vr_caches s = Some c" "vr_desc s \<noteq> 0"
  obtains h where "virtio_queue_set_notification G False s = Some (s\<lparr>notification := False, dma_hist := h\<rparr>)"
proof -
  define t where "t = s\<lparr>notification := False\<rparr>"
  have t: "vr_caches t = Some c" "ring_packed t" "vr_desc t \<noteq> 0" "queue_ok t"
    using assms config_ok [of t s] by (simp_all add: t_def virtio_vdev_has_feature_def ring_config_def)
  obtain be where be: "virtio_is_big_endian t = Some be" using t(4) by (auto simp: queue_ok_def)
  note ins = inside_flags(3,4) [OF t(4,1)]
  obtain v1 where r1: "virtio_lduw_phys_cached G (rc_used c) 2 t = Some (v1, t\<lparr>dma_hist := dma_hist t @ [DmaRead (mrc_addr (rc_used c) + 2) 2]\<rparr>)"
    using lduw_some [OF be ins(2)] by blast
  define t1 where "t1 = t\<lparr>dma_hist := dma_hist t @ [DmaRead (mrc_addr (rc_used c) + 2) 2]\<rparr>"
  have be1: "virtio_is_big_endian t1 = Some be" using be by (simp add: t1_def)
  obtain v2 where r2: "virtio_lduw_phys_cached G (rc_used c) 0 t1 = Some (v2, t1\<lparr>dma_hist := dma_hist t1 @ [DmaRead (mrc_addr (rc_used c)) 2]\<rparr>)"
    using lduw_some [OF be1 ins(1), of G] by auto
  define t2 where "t2 = t1\<lparr>dma_hist := dma_hist t1 @ [DmaRead (mrc_addr (rc_used c)) 2]\<rparr>"
  have be2: "virtio_is_big_endian t2 = Some be" using be1 by (simp add: t2_def)
  have "virtio_queue_packed_set_notification G False t = Some (t2\<lparr>dma_hist := dma_hist t2 @ [DmaWrite (mrc_addr (rc_used c) + 2) (st_bytes be 2 (unat VRING_PACKED_EVENT_FLAG_DISABLE))]\<rparr>)"
    using caches_fitD(4) [OF t(4,1)]
    by (simp add: virtio_queue_packed_set_notification_def t(1) vring_packed_event_read_def r1 t1_def [symmetric] r2 t2_def [symmetric]
        vring_packed_flags_write_def stw_exact [OF be2 ins(2)] address_space_cache_invalidate_def)
  then show thesis using t
    by (intro that) (simp add: virtio_queue_set_notification_def Let_def t_def [symmetric], simp add: t2_def t1_def t_def)
qed

lemma packed_fill_desc_exact:
  assumes "queue_ok s" "ring_packed s" "vr_caches s = Some c" "ucast (used_idx s) < vr_num s"
  obtains h where "virtqueue_packed_fill_desc e 0 s = Some (s\<lparr>dma_hist := h\<rparr>)"
proof (cases "vr_desc s = 0")
  case True
  then show thesis by (intro that [of "dma_hist s"]) (simp add: virtqueue_packed_fill_desc_def)
next
  case False
  obtain be where be: "virtio_is_big_endian s = Some be" using assms(1) by (auto simp: queue_ok_def)
  have ins: "inside (ucast (ucast (used_idx s) :: u32) * 16) 16 (rc_desc c)"
    using ring_table [OF assms(1,3)] assms(4) by (simp add: table_ok_def word_less_nat_alt sizeof_VRingDesc_def)
  define x :: u64 where "x = ucast (ucast (used_idx s) :: u32) * 16"
  have part: "inside (x + 12) 2 (rc_desc c)" "inside (x + 8) 4 (rc_desc c)" "inside (x + 14) 2 (rc_desc c)"
    using inside_part [OF ins, of 12 2] inside_part [OF ins, of 8 4] inside_part [OF ins, of 14 2] by (simp_all add: x_def)
  have w: "mrc_is_write (rc_desc c)" using caches_fitD(5) [OF assms(1,3,2)] .
  have over: "\<not> vr_num s \<le> ucast (used_idx s)" using assms(4) by simp
  have wr: "\<exists>h. vring_packed_desc_write pid plen fl (rc_desc c) (ucast (used_idx s)) s = Some (s\<lparr>dma_hist := h\<rparr>)" for pid plen fl
  proof -
    have b: "\<exists>h. address_space_write_cached (rc_desc c) off bs (s\<lparr>dma_hist := g\<rparr>) = Some (s\<lparr>dma_hist := h\<rparr>)" if "inside off (length bs) (rc_desc c)" for g off bs
      using write_exact [OF that, of "s\<lparr>dma_hist := g\<rparr>"] by simp (rule exI, rule refl)
    obtain h1 where 1: "address_space_write_cached (rc_desc c) (x + 12) (st_bytes be 2 (unat pid)) s = Some (s\<lparr>dma_hist := h1\<rparr>)"
      using write_exact [of "x + 12" "st_bytes be 2 (unat pid)" "rc_desc c" s] part(1) by simp
    obtain h2 where 2: "address_space_write_cached (rc_desc c) (x + 8) (st_bytes be 4 (unat plen)) (s\<lparr>dma_hist := h1\<rparr>) = Some (s\<lparr>dma_hist := h2\<rparr>)"
      using b [of "x + 8" "st_bytes be 4 (unat plen)" h1] part(2) by auto
    obtain h3 where 3: "address_space_write_cached (rc_desc c) (x + 14) (st_bytes be 2 (unat fl)) (s\<lparr>dma_hist := h2\<rparr>) = Some (s\<lparr>dma_hist := h3\<rparr>)"
      using b [of "x + 14" "st_bytes be 2 (unat fl)" h2] part(3) by auto
    have inv: "address_space_cache_invalidate (rc_desc c) t = Some t" for t :: VirtQueue using w by (simp add: address_space_cache_invalidate_def)
    have "vring_packed_desc_write pid plen fl (rc_desc c) (ucast (used_idx s)) s = Some (s\<lparr>dma_hist := h3\<rparr>)"
      unfolding vring_packed_desc_write_def vring_packed_desc_write_data_def vring_packed_desc_write_flags_def virtio_stw_phys_cached_def x_def [symmetric]
      by (simp only: bind.bind_lunit big_endian_hist be 1 2 3 inv)
    then show ?thesis by blast
  qed
  define fl :: u16 where "fl = (if used_wrap_counter s then push_bit VRING_PACKED_DESC_F_AVAIL 1 OR push_bit VRING_PACKED_DESC_F_USED 1 else 0)"
  obtain h where "vring_packed_desc_write (ucast (ve_index e)) (ve_len e) fl (rc_desc c) (ucast (used_idx s)) s = Some (s\<lparr>dma_hist := h\<rparr>)"
    using wr by blast
  moreover have "(ucast (ucast (used_idx s) :: u32) :: u16) = used_idx s" using ucast_plus [of "used_idx s" 0] by simp
  ultimately show thesis using False assms(3) over by (intro that [of h]) (simp add: virtqueue_packed_fill_desc_def Let_def fl_def)
qed

text \<open>Returning an element lowers \<open>inuse\<close>, whether the element was counted there or not.\<close>

lemma packed_push_exact:
  assumes "queue_ok s" "ring_packed s" "\<not> in_order s" "\<not> virtio_device_disabled s" "vr_caches s = Some c" "vr_desc s \<noteq> 0"
    and "ucast (used_idx s) < vr_num s" "used_elems s \<noteq> []" "in_sg e = []" "out_sg e = []"
  shows "\<exists>t. virtqueue_push e len s = Some t \<and> inuse t = inuse s - ve_ndescs e \<and> ring_config t = ring_config s \<and>
    last_avail_idx t = last_avail_idx s \<and> last_avail_wrap_counter t = last_avail_wrap_counter s"
proof -
  obtain e0 es where es: "used_elems s = e0 # es" using assms(8) by (cases "used_elems s") auto
  define x where "x = e0\<lparr>ve_index := ve_index e, ve_len := len, ve_ndescs := ve_ndescs e\<rparr>"
  define t where "t = s\<lparr>used_elems := x # es\<rparr>"
  have f: "virtqueue_fill e len 0 s = Some t"
    using assms(2-4,9,10) es by (simp add: virtqueue_fill_def virtqueue_unmap_sg_def virtqueue_packed_fill_def set_used_elem_def aget_def aset_def t_def x_def)
  have c: "ring_config t = ring_config s" "virtio_device_disabled t = virtio_device_disabled s" by (simp_all add: t_def ring_config_def virtio_device_disabled_def)
  have t: "queue_ok t" "ring_packed t" "\<not> in_order t" "\<not> virtio_device_disabled t" "vr_caches t = Some c" "vr_desc t \<noteq> 0" "ucast (used_idx t) < vr_num t" "used_elems t = x # es"
    using assms(1-7) config_ok [OF c(1)] config_features [OF c(1)] c(2) by (simp_all add: t_def)
  obtain h where "virtqueue_packed_fill_desc x 0 t = Some (t\<lparr>dma_hist := h\<rparr>)" by (rule packed_fill_desc_exact [OF t(1,2,5,7)])
  then have "virtqueue_flush 1 t = Some (advance_used (ve_ndescs x) (t\<lparr>dma_hist := h, inuse := inuse t - ve_ndescs x\<rparr>))"
    using t by (simp add: virtqueue_flush_def virtqueue_packed_flush_def aget_def)
  then show ?thesis
    by (simp add: virtqueue_push_def f advance_used_def Let_def ring_config_def t_def x_def)
qed

lemma packed_pop_refused:
  assumes "queue_ok s" "ring_packed s" "vr_caches s = Some c" "ucast (last_avail_idx s) < vr_num s" "vr_num s \<le> inuse s"
  shows "\<exists>t. virtqueue_pop G s = Some (None, t)"
proof -
  obtain be where be: "virtio_is_big_endian s = Some be" using assms(1) by (auto simp: queue_ok_def)
  have "inside (ucast (ucast (last_avail_idx s) :: u32) * 16) 16 (rc_desc c)"
    using ring_table [OF assms(1,3)] assms(4) by (simp add: table_ok_def word_less_nat_alt sizeof_VRingDesc_def)
  then have "inside (ucast (ucast (last_avail_idx s) :: u32) * 16 + 14) 2 (rc_desc c)" using inside_part [of _ 16 "rc_desc c" 14 2] by simp
  from lduw_some [OF be this, of G] assms(2,3,5) show ?thesis
    by (auto simp: virtqueue_pop_def virtqueue_packed_pop_def virtio_queue_packed_empty_rcu_def vring_packed_desc_read_flags_def)
qed

lemma advance_avail_one:
  assumes "ucast (last_avail_idx s) < vr_num s" "vr_num s \<le> 1024"
  shows "ucast (last_avail_idx (advance_avail 1 s)) < vr_num s"
proof -
  have n: "unat (last_avail_idx s) < unat (vr_num s)" "unat (vr_num s) \<le> 1024"
    using assms unsigned_less [of "last_avail_idx s", where ?'a = nat]
    by (simp_all add: word_less_nat_alt word_le_nat_alt unsigned_ucast_eq take_bit_nat_eq_self)
  then have u: "unat (last_avail_idx s + 1) = Suc (unat (last_avail_idx s))" by (simp add: unat_word_ariths)
  have "unat (ucast (last_avail_idx s + 1) :: u32) = Suc (unat (last_avail_idx s))" using n u by (simp add: unsigned_ucast_eq take_bit_nat_eq_self)
  then have "vr_num s \<le> ucast (last_avail_idx s + 1) \<Longrightarrow> ucast (last_avail_idx s + 1) = vr_num s" using n by (simp add: word_le_nat_alt word_unat_eq_iff)
  then show ?thesis using n by (auto simp: advance_avail_def Let_def ucast_plus word_less_nat_alt not_le)
qed

text \<open>
  C39.  Dropping what is queued on a packed ring ends its use.  \<open>virtqueue_packed_drop_all()\<close> returns each element without
  having counted it in \<open>inuse\<close>, as its split twin does.  With no element in use and one of a single descriptor
  available, \<open>inuse\<close> wraps around to the largest number: only this element is dropped, and from then on
  \<open>virtqueue_pop()\<close> returns nothing, whatever the driver offers.
\<close>

theorem packed_drop_ends_queue:
  fixes len :: u32
  assumes "queue_ok s" "ring_packed s" "\<not> in_order s" "\<not> virtio_device_disabled s" "vr_caches s = Some c" "vr_desc s \<noteq> 0" "inuse s = 0"
    and "ucast (last_avail_idx s) < vr_num s" "ucast (used_idx s) < vr_num s" "used_elems s \<noteq> []"
    and "holds_at G (mrc_addr (rc_desc c) + (ucast (ucast (last_avail_idx s) :: u32) * 16 + 14)) (st_bytes (is_be s) 2 (unat fl))"
    and "holds_at G (mrc_addr (rc_desc c) + (ucast (ucast (last_avail_idx s) :: u32) * 16 + 8)) (st_bytes (is_be s) 4 (unat len))"
    and "is_desc_avail fl (last_avail_wrap_counter s)" "fl AND VRING_DESC_F_NEXT = 0"
  shows "\<exists>t. virtqueue_drop_all G s = Some (1, t) \<and> inuse t = - 1 \<and> (\<forall>G'. \<exists>u. virtqueue_pop G' t = Some (None, u))"
proof -
  obtain h where s1: "virtio_queue_set_notification G False s = Some (s\<lparr>notification := False, dma_hist := h\<rparr>)"
    by (rule packed_notification_exact [OF assms(1,2,5,6)])
  define s1 where "s1 = (\<lambda>g. s\<lparr>notification := False, dma_hist := g\<rparr>)"
  have c: "ring_config (s1 g) = ring_config s" for g by (simp add: s1_def ring_config_def)
  have q: "queue_ok (s1 g)" "ring_packed (s1 g)" "\<not> in_order (s1 g)" "\<not> virtio_device_disabled (s1 g)" "vr_caches (s1 g) = Some c" "vr_desc (s1 g) \<noteq> 0"
    "ucast (used_idx (s1 g)) < vr_num (s1 g)" "used_elems (s1 g) \<noteq> []" "inuse (s1 g) = 0" "vr_num (s1 g) = vr_num s" "last_avail_idx (s1 g) = last_avail_idx s"
    "last_avail_wrap_counter (s1 g) = last_avail_wrap_counter s" "(s1 g)\<lparr>dma_hist := g'\<rparr> = s1 g'" for g g'
    using assms config_ok [OF c] config_features [OF c] by (simp_all add: s1_def virtio_device_disabled_def)
  define i where "i = (ucast (last_avail_idx s) :: u32)"
  have "virtio_is_big_endian s = Some (is_be s)" using assms(1) by (cases "virtio_is_big_endian s") (simp_all add: is_be_def queue_ok_def)
  moreover have "virtio_is_big_endian (s1 g) = virtio_is_big_endian s" for g by (simp add: s1_def virtio_is_big_endian_def virtio_vdev_has_feature_def)
  ultimately have be: "virtio_is_big_endian (s1 g) = Some (is_be s)" for g by simp
  have ins: "inside (ucast i * 16) 16 (rc_desc c)"
    using ring_table [OF assms(1,5)] assms(8) by (simp add: table_ok_def word_less_nat_alt i_def sizeof_VRingDesc_def)
  obtain d h2 where d: "vring_packed_desc_read G (rc_desc c) i (s1 h) = Some (d, s1 h2)" "pd_flags d = fl"
    using packed_desc_read_exact [OF be ins assms(11,12) [folded i_def]] unfolding q(13) by blast
  have chain: "packed_drop_chain G d (rc_desc c) i 1 (s1 h2) = Some (1, s1 h2)"
    using assms(14) d(2) by (subst packed_drop_chain.simps) (simp add: virtqueue_packed_read_next_desc_def)
  define e where "e = zero_elem\<lparr>ve_index := ucast (pd_id d), ve_ndescs := 1\<rparr>"
  have sg: "in_sg e = []" "out_sg e = []" "ve_ndescs e = 1" by (simp_all add: e_def zero_elem_def)
  obtain t where t: "virtqueue_push e 0 (s1 h2) = Some t" "inuse t = - 1" "ring_config t = ring_config s" "last_avail_idx t = last_avail_idx s"
    using packed_push_exact [OF q(1-8) sg(1,2), of 0 h2] sg(3) q(9,11) c by auto
  define u where "u = advance_avail 1 t"
  have num: "vr_num t = vr_num s" "vr_num s \<le> 1024" using config_fields(1) [OF t(3)] assms(1) by (simp_all add: queue_ok_def)
  have adv: "inuse u = inuse t" "ring_config u = ring_config t" by (simp_all add: u_def advance_avail_def Let_def ring_config_def)
  have u: "inuse u = - 1" "ring_config u = ring_config s" "ucast (last_avail_idx u) < vr_num u"
    using adv t(2-4) advance_avail_one [of t] num assms(8) config_fields(1) [OF adv(2)] by (simp_all add: u_def [symmetric])
  have nu: "vr_num u \<le> inuse u" unfolding u(1) by simp
  have zero: "0 < vr_num s" using assms(1) by (simp add: queue_ok_def)
  have "packed_drop_loop G (rc_desc c) 1 u = Some (1, u)" using nu by (subst packed_drop_loop.simps) (simp add: not_less)
  then have "packed_drop_loop G (rc_desc c) 0 (s1 h) = Some (1, u)"
    using zero assms(13) by (subst packed_drop_loop.simps) (simp add: q(9-12) i_def [symmetric] d chain e_def [symmetric] t(1) u_def [symmetric])
  then have drop: "virtqueue_drop_all G s = Some (1, u)"
    using assms(2,4,5) s1 by (simp add: virtqueue_drop_all_def virtqueue_packed_drop_all_def s1_def)
  have "\<exists>v. virtqueue_pop G' u = Some (None, v)" for G'
    using config_ok [OF u(2)] config_features [OF u(2)] config_fields(2) [OF u(2)] assms(1,2,5) u(3) nu by (intro packed_pop_refused) simp_all
  then show ?thesis using drop u(1) by blast
qed

definition example_one_packed :: guest_memory where
  "example_one_packed = example_guest\<lparr>gm_byte := (\<lambda>_ a. if a = 0x1008 then 8 else if a = 0x100e then 0x80 else 0)\<rparr>"

theorem packed_drop_ends_queue_witness:
  "\<exists>t. virtqueue_drop_all example_one_packed example_packed = Some (1, t) \<and> inuse t = - 1 \<and> (\<exists>u. virtqueue_pop example_one_packed t = Some (None, u))"
proof -
  have h: "holds_at example_one_packed 0x100e (st_bytes False 2 (unat (0x80 :: u16)))" "holds_at example_one_packed 0x1008 (st_bytes False 4 (unat (8 :: u32)))"
    by (simp_all add: holds_at_def st_bytes_def le_bytes_numeral example_one_packed_def upt_rec)
  have f: "is_desc_avail 0x80 True" "(0x80 :: u16) AND VRING_DESC_F_NEXT = 0"
    by (simp_all add: is_desc_avail_def VRING_PACKED_DESC_F_AVAIL_def VRING_PACKED_DESC_F_USED_def VRING_DESC_F_NEXT_def)
  show ?thesis using packed_drop_ends_queue [OF example_packed_ok(1-10), of example_one_packed "0x80" 8] example_packed_ok(12-) h f by auto
qed

end
