(* ===== verification/Spec2Isabelle.thy ===== *)
theory Spec2Isabelle
  imports Qemu_Bitmap Gzvm_Start Gzvm_Vcpu Gzvm_Kick Gzvm_Arm Virt_Board Virtio_Limits
begin

text \<open>
  A verification development for the GenieZone (GZVM) port of QEMU: the accelerator under
  \<open>accel/gzvm\<close>, its ARM part \<open>target/arm/gzvm.c\<close>, its interrupt controller and MSI frame, the board, the
  bit and bitmap library they are built on, and the virtqueues through which the guest's drivers
  reach its devices.

  \<^bold>\<open>The program.\<close>  The accelerator opens \<open>/dev/gzvm\<close> and creates a VM.  The memory core tells it about
  RAM and ROM through a memory listener; a table of slots records which guest region is backed by
  which host memory and is kept equal to the hypervisor's.  One thread per vCPU enters the guest
  with \<open>GZVM_RUN\<close> and handles the reasons it comes back for; other threads kick it with a signal.
  The hypervisor implements the interrupt controller: levels of interrupt lines are forwarded to it,
  and message-signalled interrupts go through event descriptors bound when the VM starts.  A page
  the hypervisor has not been given yet faults in QEMU, where a signal handler supplies it.  Virtio
  devices take requests off rings in guest memory and return them there.

  \<^bold>\<open>Conventions.\<close>  An operation returns \<open>None\<close> exactly where the C code would abort: a failed
  assertion, an access outside an array, an operation on a mutex in the wrong state, a null pointer,
  or waiting forever.  Error codes of the C code are values.  Pointers are 64-bit words with 0 for
  \<open>NULL\<close>, machine integers are words of their width wherever they can wrap, and C \<open>int\<close>s that stay
  small are \<open>int\<close>.  The host kernel and the hypervisor behind it are a parameter: a function from the
  calls made so far and the next call to the answer.  Every call is appended to the history of the
  VM, so that a theorem can say which calls are made, in which order.  Conditions on the host
  (\<open>no_eintr\<close>, \<open>accepts_memory\<close>, \<open>has_eventfd\<close>, \<open>drains\<close>, \<open>steady_ipa\<close>) are named hypotheses; \<open>kernel_ok\<close>,
  a host that agrees to everything, satisfies them.  \<open>ipi_host\<close> states how a host keeps the kick signal
  pending; with finitely many signals it gives \<open>drains\<close>.

  \<^bold>\<open>The theories.\<close>
  \<^item> \<open>Gzvm_Prelude\<close>: words, checked arrays, sequences of operations, and the two interfaces the
    components share: \<open>invariant_system\<close> (an invariant carried along a run) and \<open>refinement_system\<close> (a
    run of the code simulated by a run of its specification).
  \<^item> \<open>Gzvm_Uapi\<close>: the kernel interface of \<open>linux-headers/linux/gzvm.h\<close> and the host calls.
  \<^item> \<open>Gzvm_State\<close>: \<open>GZVMState\<close>, mutexes, memory regions and the ioctl wrappers.
  \<^item> \<open>Gzvm_Slots\<close>, \<open>Gzvm_Signal\<close>, \<open>Gzvm_Irq\<close>, \<open>Gzvm_Memory\<close>: \<open>gzvm-mem.c\<close> (sorted slot index with its binary
    search, slot allocation, the listener and its transactions, creation of the VM), \<open>gzvm-signal.c\<close>
    (the snapshot of host ranges and the handler that reads it) and \<open>gzvm-irq.c\<close> (ioeventfd and irqfd).
  \<^item> \<open>Gzvm_Memory_Spec\<close>, \<open>Gzvm_Memory_Props\<close>: the specification of the memory listener, the set of
    regions that should be mapped, and what follows from the refinement: the table is the kernel's
    view, it is what the transactions ask for, lookups are exact, the search is a linear scan, and the
    limits of 512 slots and 64 snapshot entries.
  \<^item> \<open>Qemu_Bitops\<close>, \<open>Qemu_Bitmap\<close>: \<open>include/qemu/bitops.h\<close>, \<open>util/bitops.c\<close>, \<open>include/qemu/bitmap.h\<close> and
    \<open>util/bitmap.c\<close>; each operation against the bits it is about.
  \<^item> \<open>Qemu_Gicv3\<close>, \<open>Gzvm_Gic\<close>: the state common to GICv3 models, its realisation and reset, and the
    forwarding of levels by \<open>hw/intc/arm_gicv3_gzvm.c\<close>: recorded levels are the levels the hypervisor
    was last told, until a reset, which forgets them.
  \<^item> \<open>Gzvm_Start\<close>: counting of MSI vectors over the PCI buses, the MSI frame of \<open>hw/arm/virt.c\<close>, and
    \<open>gzvm_start_vm\<close>; the chain from a guest's doorbell write to the hypervisor.
  \<^item> \<open>Gzvm_Vcpu\<close>: the life and the turns of a vCPU thread (\<open>gzvm.c\<close>, \<open>gzvm-mmio.c\<close>, \<open>gzvm-vcpu.c\<close>), with what
    its exits ask of the main loop (\<open>system/cpus.c\<close>, \<open>system/runstate.c\<close>) and how asking stops the vCPU
    itself: what one turn does, the account of exit requests along any events, the bytes an access
    reaches, the draining of the kick signal, and the thread from its start to its end.
  \<^item> \<open>Gzvm_Kick\<close>: the protocol between a vCPU thread and the threads that stop, resume, remove or queue
    work on it (\<open>system/cpus.c\<close>, \<open>cpu-common.c\<close>), as interleaved steps; the invariant and the bound on
    the number of steps until a request is served.
  \<^item> \<open>Gzvm_Arm\<close>: ID registers, programming of a vCPU, the probe of the host, and the CPU model built from
    it.  Only the first vCPU is programmed with the model's registers; on the others the hypervisor
    shows its own.
  \<^item> \<open>Virt_Board\<close>: the \<open>virt\<close> board (\<open>hw/arm/virt.c\<close>, \<open>hw/arm/virt-gzvm.c\<close>): the memory map with its high
    regions, the choice of the interrupt controller, the checks of \<open>machvirt_init()\<close>; which machines are
    built, that their regions do not overlap, and that their controller is in the state the
    theories above start from.
  \<^item> \<open>Virtio_Access\<close>, \<open>Virtio_Queue\<close>, \<open>Virtio_Ops\<close>: \<open>hw/virtio/virtio.c\<close>, the virtqueues of a device: how guest
    memory is reached through region caches, the split and the packed ring, and the operations of a
    device on its queue.  Guest memory and the answers of the memory core are a parameter that may
    depend on all the device did before, so the guest may change any byte at any time.
  \<^item> \<open>Virtio_Safety\<close>, \<open>Virtio_Lifecycle\<close>: for a split ring, every operation returns whatever the guest
    does; along any run of operations the segments mapped, unmapped and held by the device balance.
  \<^item> \<open>Virtio_Driver\<close>: what the driver gets from a split ring: the elements returned, in order and never
    announced before they are written, and every interrupt it asked for.  \<open>Virtio_Request\<close>: what the device
    gets from a driver that keeps to the standard: the chain of buffers it offered.
  \<^item> \<open>Virtio_Limits\<close>: where the in-order and the packed ring go wrong: completions lost on a full
    in-order ring, an abort on an empty indirect table, and a packed ring that is dead after a drop.

  \<^bold>\<open>Loops and bounds.\<close>  Loops over arrays are structural recursions on the index or on what is left
  of the array.  Loops that need not end are \<open>partial_function (option)\<close>: retrying an interrupted
  write of an event descriptor, draining the kick signal, waiting for a vCPU to come up, and the
  search for a run of clear bits, whose sums may wrap around; for each it is proved when it returns.
  So are the walks over descriptor chains, whose links the guest may change under way: for split rings
  it is proved that they end, by the count of descriptors or of segments.
  No fuel is used.  The eleven steps of
  \<open>every_request_is_handled\<close> are the longest way from the release of the big lock to the point where
  requests are served, with a pending signal handled in between.

  \<^bold>\<open>Not modelled.\<close>  Texts of diagnostics and monitor events.  The loading of firmware.  The contents of the device tree and the creation of the
  board's devices, which only hand constants to the accelerator.  The memory core: it appears as the
  sections it announces and as a function for an access.  Memory orderings: atomic accesses are single
  steps, and every request to a vCPU is made with the big lock held, as its callers do.  Exclusive
  work items.  The emulated interrupt controller, which this accelerator does not use.  The
  configuration of a virtio device by its transport, and the devices behind the queues.  Networking,
  block layer, user interface, monitor and migration, which do not depend on the accelerator.
\<close>

end
